(* ===== verification/Prelude.thy ===== *)
theory Prelude
  imports "HOL-Library.Word" "HOL-Library.Multiset" "HOL-Library.Monad_Syntax"
begin

text \<open>
  Shared vocabulary of the development.

  \<^item> Machine types: \<open>u8\<close>, \<open>u32\<close> and \<open>u64\<close> are words of that width; a byte string
    (\<open>std::string\<close>, \<open>std::vector<uint8_t>\<close>) is a list of \<open>u8\<close>. A signed value is an
    \<open>int\<close>, brought into range by \<open>int32_of\<close> or \<open>int64_of\<close> where the source converts.
  \<^item> A \<open>size_t\<close> that counts or indexes is a \<open>nat\<close>; where the source computes with it, \<open>wrap64\<close>
    writes the reduction modulo \<open>2 ^ 64\<close> out. \<open>npos\<close> is \<open>(size_t)-1\<close>.
  \<^item> Memory: an object lives at an \<open>addr\<close>; a pointer is an \<open>addr option\<close>, with \<open>None\<close>
    for \<open>NULL\<close>. Each kind of object has a store of its own, a partial map from addresses, so
    \<open>container_of\<close> is the identity on addresses.
  \<^item> Control: a function of the source that may fail is modelled in the option monad. \<open>None\<close>
    stands for every way of not returning: a failed \<open>assert\<close> (the process aborts), an access
    through \<open>NULL\<close> or out of the bounds of an array, and a loop that never ends. A theorem that
    a call yields \<open>Some\<close> therefore says that the call returns and is memory safe.
\<close>

section \<open>Types\<close>

type_synonym u8 = "8 word"
type_synonym u32 = "32 word"
type_synonym u64 = "64 word"
type_synonym bytes = "u8 list"
type_synonym addr = nat
type_synonym ptr = "addr option"
type_synonym 'a store = "addr \<rightharpoonup> 'a"

named_theorems eval_simps \<open>definitions unfolded when a model is run on a concrete input\<close>

section \<open>Fixed-width conversions\<close>

text \<open>Conversions to a signed type keep the low bits and read them in two's complement.\<close>

definition int32_of :: "int \<Rightarrow> int" where
  "int32_of x = signed_take_bit 31 x"

definition int64_of :: "int \<Rightarrow> int" where
  "int64_of x = signed_take_bit 63 x"

declare int32_of_def [eval_simps] int64_of_def [eval_simps]

lemma int32_of_id: "- (2 ^ 31) \<le> x \<Longrightarrow> x < 2 ^ 31 \<Longrightarrow> int32_of x = x"
  by (simp add: int32_of_def signed_take_bit_int_eq_self)

lemma int64_of_id: "- (2 ^ 63) \<le> x \<Longrightarrow> x < 2 ^ 63 \<Longrightarrow> int64_of x = x"
  by (simp add: int64_of_def signed_take_bit_int_eq_self)

definition wrap64 :: "nat \<Rightarrow> nat" where
  "wrap64 n = n mod 2 ^ 64"

definition npos :: nat where
  "npos = 2 ^ 64 - 1"

declare wrap64_def [eval_simps] npos_def [eval_simps]

lemma wrap64_id [simp]: "n < 2 ^ 64 \<Longrightarrow> wrap64 n = n"
  by (simp add: wrap64_def)

text \<open>A string literal of the source, as the bytes it denotes.\<close>

definition lit :: "string \<Rightarrow> bytes" where
  "lit s = map of_char s"

declare lit_def [eval_simps]

section \<open>Vectors: bounds-checked access\<close>

definition vec_get :: "'a list \<Rightarrow> nat \<Rightarrow> 'a option" where
  "vec_get xs i = (if i < length xs then Some (xs ! i) else None)"

definition vec_set :: "'a list \<Rightarrow> nat \<Rightarrow> 'a \<Rightarrow> 'a list option" where
  "vec_set xs i x = (if i < length xs then Some (xs[i := x]) else None)"

declare vec_get_def [eval_simps] vec_set_def [eval_simps]

lemma vec_get_in [simp]: "i < length xs \<Longrightarrow> vec_get xs i = Some (xs ! i)"
  by (simp add: vec_get_def)

lemma vec_set_in [simp]: "i < length xs \<Longrightarrow> vec_set xs i x = Some (xs[i := x])"
  by (simp add: vec_set_def)

section \<open>Stores: checked reads and writes of one field\<close>

definition rd :: "'a store \<Rightarrow> ('a \<Rightarrow> 'b) \<Rightarrow> addr \<Rightarrow> 'b option" where
  "rd h f a = map_option f (h a)"

definition wr :: "'a store \<Rightarrow> addr \<Rightarrow> ('a \<Rightarrow> 'a) \<Rightarrow> 'a store option" where
  "wr h a g = (case h a of None \<Rightarrow> None | Some n \<Rightarrow> Some (h(a \<mapsto> g n)))"

declare rd_def [eval_simps] wr_def [eval_simps]

lemma rd_Some [simp]: "h a = Some n \<Longrightarrow> rd h f a = Some (f n)"
  by (simp add: rd_def)

lemma wr_Some [simp]: "h a = Some n \<Longrightarrow> wr h a g = Some (h(a \<mapsto> g n))"
  by (simp add: wr_def)

text \<open>An assertion of the source: the program aborts when it does not hold.\<close>

definition assertion :: "bool \<Rightarrow> unit option" where
  "assertion b = (if b then Some () else None)"

declare assertion_def [eval_simps]

lemma assertion_True [simp]: "assertion True = Some ()"
  by (simp add: assertion_def)

lemma assertion_False [simp]: "assertion False = None"
  by (simp add: assertion_def)

section \<open>Generic lemmas\<close>

lemma of_nat_word_inj:
  assumes "m < 2 ^ LENGTH('a)" "n < 2 ^ LENGTH('a)"
  shows "(of_nat m :: 'a::len word) = of_nat n \<longleftrightarrow> m = n"
  using assms by (metis of_nat_inverse)

lemma unat_bound: "unat (w :: 'a::len word) < 2 ^ LENGTH('a)"
  by (rule unsigned_less)

lemma unat_byte_less [simp]: "unat (b :: u8) < 256"
  using unat_bound [of b] by simp

lemma drop_append_exact [simp]: "length xs = n \<Longrightarrow> drop n (xs @ ys) = ys"
  by simp

lemma take_append_exact [simp]: "length xs = n \<Longrightarrow> take n (xs @ ys) = xs"
  by simp

section \<open>Loops over a range\<close>

text \<open>A counting loop, or a loop over the elements of a container; it ends with the first failure.\<close>

primrec for_each :: "('i \<Rightarrow> 's \<Rightarrow> 's option) \<Rightarrow> 'i list \<Rightarrow> 's \<Rightarrow> 's option" where
  "for_each f [] s = Some s"
| "for_each f (i # is) s = do { s \<leftarrow> f i s; for_each f is s }"

lemma for_each_unit: "for_each f xs () = Some () \<longleftrightarrow> (\<forall>x \<in> set xs. f x () = Some ())"
  by (induction xs) (auto simp: bind_eq_Some_conv)

text \<open>An invariant of the loop, indexed by the part of the range already done.\<close>

lemma for_each_inv:
  assumes "P [] s" "\<And>ys x s. set (ys @ [x]) \<subseteq> set xs \<Longrightarrow> length ys < length xs \<Longrightarrow> P ys s \<Longrightarrow> \<exists>s'. f x s = Some s' \<and> P (ys @ [x]) s'"
  shows "\<exists>s'. for_each f xs s = Some s' \<and> P xs s'"
proof -
  have "\<exists>s'. for_each f zs s = Some s' \<and> P (ys @ zs) s'" if "P ys s" "ys @ zs = xs" for ys zs s
    using that
  proof (induction zs arbitrary: ys s)
    case (Cons z zs)
    then have "set (ys @ [z]) \<subseteq> set xs" "length ys < length xs" by auto
    from assms(2) [OF this Cons.prems(1)] obtain s' where s': "f z s = Some s'" "P (ys @ [z]) s'" by blast
    from Cons.IH [OF s'(2)] Cons.prems(2) s'(1) show ?case by simp
  qed simp
  from this [of "[]" s xs] assms(1) show ?thesis by simp
qed

section \<open>Related results\<close>

text \<open>
  \<open>rel_option P spec code\<close>: both fail, or both return and the results are related. Composition of
  such statements follows the composition of the code.
\<close>

lemma rel_bind:
  assumes "rel_option P x y" "\<And>a b. P a b \<Longrightarrow> rel_option Q (f a) (g b)"
  shows "rel_option Q (Option.bind x f) (Option.bind y g)"
  using assms by (cases x; cases y) auto

lemma rel_then:
  assumes "rel_option P x y" "\<And>a b. P a b \<Longrightarrow> \<exists>c. g b = Some c \<and> Q a c"
  shows "rel_option Q x (Option.bind y g)"
  using assms by (cases x; cases y) fastforce+

lemma rel_weaken: "rel_option P x y \<Longrightarrow> (\<And>a b. P a b \<Longrightarrow> Q a b) \<Longrightarrow> rel_option Q x y"
  by (auto elim!: option.rel_mono_strong)

lemma rel_with: "rel_option P x y \<Longrightarrow> rel_option (\<lambda>a b. y = Some b \<and> P a b) x y"
  by (cases x; cases y) auto

lemma rel_NoneD: "rel_option P None y \<Longrightarrow> y = None"
  by simp

lemma rel_SomeD: "rel_option P (Some a) y \<Longrightarrow> \<exists>b. y = Some b \<and> P a b"
  by (cases y) auto

section \<open>Machines\<close>

text \<open>
  The contract of a transition system: its invariant is kept by every step. Where in addition every step
  decreases a measure and a state that is not at the goal has a step, each run ends, and it ends at the
  goal.
\<close>

locale machine =
  fixes step :: "'s \<Rightarrow> 's \<Rightarrow> bool" and inv :: "'s \<Rightarrow> bool"
  assumes inv_step: "step s s' \<Longrightarrow> inv s \<Longrightarrow> inv s'"
begin

lemma inv_steps: "step\<^sup>*\<^sup>* s s' \<Longrightarrow> inv s \<Longrightarrow> inv s'"
  by (induction rule: rtranclp_induct) (auto intro: inv_step)

end

locale progress_machine = machine +
  fixes left :: "'a \<Rightarrow> nat" and goal :: "'a \<Rightarrow> bool"
  assumes advance: "inv s \<Longrightarrow> \<not> goal s \<Longrightarrow> \<exists>s'. step s s'"
    and lowers: "inv s \<Longrightarrow> step s s' \<Longrightarrow> left s' < left s"
begin

lemma bounded: "(step ^^ k) s s' \<Longrightarrow> inv s \<Longrightarrow> k + left s' \<le> left s"
proof (induction k arbitrary: s')
  case (Suc k)
  from Suc.prems(1) obtain t where t: "(step ^^ k) s t" "step t s'" by auto
  have "inv t" using inv_steps [OF relpowp_imp_rtranclp [OF t(1)] Suc.prems(2)] .
  from lowers [OF this t(2)] Suc.IH [OF t(1) Suc.prems(2)] show ?case by simp
qed simp

lemma ends_at_goal: "step\<^sup>*\<^sup>* s s' \<Longrightarrow> inv s \<Longrightarrow> \<nexists>t. step s' t \<Longrightarrow> goal s'"
  using advance inv_steps by blast

lemma completes: "inv s \<Longrightarrow> \<exists>s'. step\<^sup>*\<^sup>* s s' \<and> (\<nexists>t. step s' t)"
proof (induction "left s" arbitrary: s rule: less_induct)
  case less
  show ?case
  proof (cases "\<exists>t. step s t")
    case True
    then obtain t where t: "step s t" by blast
    from less.hyps [OF lowers [OF less.prems t] inv_step [OF t less.prems]] t show ?thesis
      by (meson converse_rtranclp_into_rtranclp)
  qed blast
qed

end

end
