(* ===== verification/Common.thy ===== *)
theory Common
  imports Prelude
begin

text \<open>
  \<open>core/common.h\<close>: the string hash, and the conversions \<open>str2int\<close> and \<open>str2dbl\<close> with what they use
  of the C library (\<open>strtoll\<close> in base 10, \<open>strtod\<close> in the C locale, \<open>isnan\<close>). A conversion
  returns the value and the number of characters consumed; an embedded NUL byte ends the number like
  any other foreign byte. A \<open>double\<close> is its IEEE 754 bit pattern, a \<open>u64\<close>; \<open>strtod\<close> rounds the
  exact rational to the nearest representable value, ties to even.
\<close>

unbundle bit_operations_syntax

section \<open>The hash function\<close>

definition string_hash :: "bytes \<Rightarrow> u64" where
  "string_hash data =
     ucast (fold (\<lambda>b base. (base + ucast b) * 0x1000193) data (0x811C9DC5 :: u32))"

section \<open>Integers\<close>

definition isspace :: "u8 \<Rightarrow> bool" where
  "isspace b \<longleftrightarrow> b = 32 \<or> 9 \<le> b \<and> b \<le> 13"

definition isdigit :: "u8 \<Rightarrow> bool" where
  "isdigit b \<longleftrightarrow> 48 \<le> b \<and> b \<le> 57"

definition digits_val :: "bytes \<Rightarrow> nat" where
  "digits_val ds = foldl (\<lambda>v d. v * 10 + (unat d - 48)) 0 ds"

text \<open>An optional sign: whether it is a minus, how many characters it takes, the rest.\<close>

definition take_sign :: "bytes \<Rightarrow> bool \<times> nat \<times> bytes" where
  "take_sign s =
     (case s of
        [] \<Rightarrow> (False, 0, s)
      | c # r \<Rightarrow> if c = 45 then (True, 1, r) else if c = 43 then (False, 1, r) else (False, 0, s))"

definition clamp64 :: "int \<Rightarrow> int" where
  "clamp64 v = (if v > 2 ^ 63 - 1 then 2 ^ 63 - 1 else if v < - (2 ^ 63) then - (2 ^ 63) else v)"

definition strtoll :: "bytes \<Rightarrow> int \<times> nat" where
  "strtoll s =
     (let ws = takeWhile isspace s;
          (neg, k, r) = take_sign (dropWhile isspace s);
          ds = takeWhile isdigit r
      in if ds = [] then (0, 0)
         else (clamp64 (if neg then - int (digits_val ds) else int (digits_val ds)),
               length ws + k + length ds))"

definition str2int :: "bytes \<Rightarrow> int option" where
  "str2int s = (let (v, endp) = strtoll s in if endp = length s then Some v else None)"

section \<open>Doubles\<close>

definition dbl_mag :: "u64 \<Rightarrow> u64" where
  "dbl_mag d = d AND 0x7FFFFFFFFFFFFFFF"

definition isnan :: "u64 \<Rightarrow> bool" where
  "isnan d \<longleftrightarrow> dbl_mag d > 0x7FF0000000000000"

text \<open>The order of the values that are not NaN; the two zeros coincide.\<close>

definition dbl_key :: "u64 \<Rightarrow> int" where
  "dbl_key d = (if bit d 63 then - uint (dbl_mag d) else uint (dbl_mag d))"

definition dbl_lt :: "u64 \<Rightarrow> u64 \<Rightarrow> bool" where
  "dbl_lt x y \<longleftrightarrow> \<not> isnan x \<and> \<not> isnan y \<and> dbl_key x < dbl_key y"

definition dbl_eq :: "u64 \<Rightarrow> u64 \<Rightarrow> bool" where
  "dbl_eq x y \<longleftrightarrow> \<not> isnan x \<and> \<not> isnan y \<and> dbl_key x = dbl_key y"

fun nbits :: "nat \<Rightarrow> nat" where
  "nbits n = (if n = 0 then 0 else Suc (nbits (n div 2)))"

declare nbits.simps [simp del]

definition round_half_even :: "nat \<Rightarrow> nat \<Rightarrow> nat" where
  "round_half_even a b =
     (let q = a div b; r = a mod b
      in if 2 * r < b then q else if 2 * r > b then q + 1 else q + q mod 2)"

text \<open>The bit pattern of the double nearest to \<open>p / q\<close>, infinity when it is out of range.\<close>

definition round_dbl :: "nat \<Rightarrow> nat \<Rightarrow> nat" where
  "round_dbl p q =
     (if p = 0 then 0
      else
        (let e0 = int (nbits p) - int (nbits q);
             e = (if p * 2 ^ nat (- e0) \<ge> q * 2 ^ nat e0 then e0 else e0 - 1);
             e1 = max e (- 1022);
             k = e1 - 52;
             m = round_half_even (p * 2 ^ nat (- k)) (q * 2 ^ nat k)
         in min (nat (e1 + 1022) * 2 ^ 52 + m) (2047 * 2 ^ 52)))"

definition lower :: "u8 \<Rightarrow> u8" where
  "lower b = (if 65 \<le> b \<and> b \<le> 90 then b + 32 else b)"

definition prefix_ci :: "string \<Rightarrow> bytes \<Rightarrow> bool" where
  "prefix_ci p s \<longleftrightarrow> map lower (take (length p) s) = lit p"

definition isxdigit :: "u8 \<Rightarrow> bool" where
  "isxdigit b \<longleftrightarrow> isdigit b \<or> 97 \<le> lower b \<and> lower b \<le> 102"

definition hexdigit_val :: "u8 \<Rightarrow> nat" where
  "hexdigit_val b = (if isdigit b then unat b - 48 else unat (lower b) - 87)"

definition hexdigits_val :: "bytes \<Rightarrow> nat" where
  "hexdigits_val ds = foldl (\<lambda>v d. v * 16 + hexdigit_val d) 0 ds"

text \<open>The digits before and after the point, the characters they take, and the rest.\<close>

definition mantissa :: "(u8 \<Rightarrow> bool) \<Rightarrow> bytes \<Rightarrow> bytes \<times> bytes \<times> nat \<times> bytes" where
  "mantissa isd s =
     (let ip = takeWhile isd s; r = dropWhile isd s
      in if r \<noteq> [] \<and> hd r = 46
         then (let fp = takeWhile isd (tl r) in (ip, fp, length ip + 1 + length fp, dropWhile isd (tl r)))
         else (ip, [], length ip, r))"

text \<open>An exponent introduced by \<open>c\<close>: its value and the characters it takes, none when it has no digit.\<close>

definition exponent :: "u8 \<Rightarrow> bytes \<Rightarrow> int \<times> nat" where
  "exponent c s =
     (if s = [] \<or> lower (hd s) \<noteq> c then (0, 0)
      else
        (let (neg, k, r) = take_sign (tl s); ds = takeWhile isdigit r
         in if ds = [] then (0, 0)
            else (if neg then - int (digits_val ds) else int (digits_val ds), 1 + k + length ds)))"

text \<open>\<open>m * base ^ e\<close> as a double.\<close>

definition scale_dbl :: "nat \<Rightarrow> nat \<Rightarrow> int \<Rightarrow> nat" where
  "scale_dbl m base e = round_dbl (m * base ^ nat e) (base ^ nat (- e))"

text \<open>The number after the sign: its bit pattern without sign and the characters it takes.\<close>

definition strtod_mag :: "bytes \<Rightarrow> nat \<times> nat" where
  "strtod_mag s =
     (let hex = mantissa isxdigit (drop 2 s); dec = mantissa isdigit s in
      if prefix_ci ''infinity'' s then (2047 * 2 ^ 52, 8)
      else if prefix_ci ''inf'' s then (2047 * 2 ^ 52, 3)
      else if prefix_ci ''nan'' s then
        (let r = drop 3 s; body = takeWhile (\<lambda>b. isdigit b \<or> 97 \<le> lower b \<and> lower b \<le> 122 \<or> b = 95) (tl r)
         in (2047 * 2 ^ 52 + 2 ^ 51,
             if r \<noteq> [] \<and> hd r = 40 \<and> length body + 1 < length r \<and> r ! (length body + 1) = 41
             then 3 + length body + 2 else 3))
      else if prefix_ci ''0x'' s \<and> (fst hex \<noteq> [] \<or> fst (snd hex) \<noteq> []) then
        (case hex of (ip, fp, n, r) \<Rightarrow> case exponent 112 r of (e, k) \<Rightarrow>
           (scale_dbl (hexdigits_val (ip @ fp)) 2 (e - 4 * int (length fp)), 2 + n + k))
      else
        (case dec of (ip, fp, n, r) \<Rightarrow>
           if ip = [] \<and> fp = [] then (0, 0)
           else (case exponent 101 r of (e, k) \<Rightarrow>
                   (scale_dbl (digits_val (ip @ fp)) 10 (e - int (length fp)), n + k))))"

definition strtod :: "bytes \<Rightarrow> u64 \<times> nat" where
  "strtod s =
     (let ws = takeWhile isspace s;
          (neg, k, r) = take_sign (dropWhile isspace s);
          (m, n) = strtod_mag r
      in if n = 0 then (0, 0)
         else ((if neg then 0x8000000000000000 else 0) OR of_nat m, length ws + k + n))"

definition str2dbl :: "bytes \<Rightarrow> u64 option" where
  "str2dbl s = (let (v, endp) = strtod s in if endp = length s \<and> \<not> isnan v then Some v else None)"

lemmas common_defs [eval_simps] = string_hash_def isspace_def isdigit_def digits_val_def take_sign_def
  clamp64_def strtoll_def str2int_def dbl_mag_def isnan_def dbl_key_def dbl_lt_def dbl_eq_def
  round_half_even_def round_dbl_def lower_def prefix_ci_def isxdigit_def hexdigit_val_def
  hexdigits_val_def mantissa_def exponent_def scale_dbl_def strtod_mag_def strtod_def str2dbl_def

lemma nbits_eval [eval_simps]:
  "nbits 0 = 0" "nbits (Suc 0) = 1" "nbits 1 = 1" "nbits (numeral k) = Suc (nbits (numeral k div 2))"
  by (simp_all add: nbits.simps)

section \<open>Decimal notation\<close>

text \<open>The decimal notation of a number, as a client writes it.\<close>

fun dec_nat :: "nat \<Rightarrow> bytes" where
  "dec_nat n = (if n < 10 then [of_nat (48 + n)] else dec_nat (n div 10) @ [of_nat (48 + n mod 10)])"

declare dec_nat.simps [simp del]

definition dec_int :: "int \<Rightarrow> bytes" where
  "dec_int v = (if v < 0 then 45 # dec_nat (nat (- v)) else dec_nat (nat v))"

lemma unat_digit: "d < 10 \<Longrightarrow> unat (of_nat (48 + d) :: u8) = 48 + d"
  by (rule of_nat_inverse [OF refl]) simp

lemma isdigit_digit: "d < 10 \<Longrightarrow> isdigit (of_nat (48 + d))"
  using unat_digit [of d] by (simp add: isdigit_def word_le_nat_alt)

lemma dec_nat_digits: "\<forall>b \<in> set (dec_nat n). isdigit b"
proof (induction n rule: dec_nat.induct)
  case (1 n)
  show ?case
  proof (cases "n < 10")
    case True
    then show ?thesis using isdigit_digit [of n] by (simp add: dec_nat.simps [of n])
  next
    case False
    with 1 show ?thesis using isdigit_digit [of "n mod 10"] by (simp add: dec_nat.simps [of n])
  qed
qed

lemma dec_nat_nonempty: "dec_nat n \<noteq> []"
  by (simp add: dec_nat.simps)

lemma digits_val_dec: "digits_val (dec_nat n) = n"
proof (induction n rule: dec_nat.induct)
  case (1 n)
  show ?case
  proof (cases "n < 10")
    case True
    then show ?thesis using unat_digit [of n] by (simp add: dec_nat.simps [of n] digits_val_def)
  next
    case False
    with 1 have "digits_val (dec_nat (n div 10)) = n div 10" by simp
    then show ?thesis
      using False unat_digit [of "n mod 10"] by (simp add: dec_nat.simps [of n] digits_val_def)
  qed
qed

lemma digit_not_space: "isdigit b \<Longrightarrow> \<not> isspace b \<and> b \<noteq> 45 \<and> b \<noteq> 43"
  unfolding isdigit_def isspace_def word_le_nat_alt by auto

text \<open>
  The texts that \<open>str2int\<close> accepts: optional white space, an optional sign, and digits up to the end. The
  value saturates. The empty text is accepted as well.
\<close>

definition int_text :: "bytes \<Rightarrow> bytes \<Rightarrow> bytes \<Rightarrow> bool" where
  "int_text ws sg ds \<longleftrightarrow> list_all isspace ws \<and> (sg = [] \<or> sg = [43] \<or> sg = [45]) \<and> ds \<noteq> [] \<and> list_all isdigit ds"

definition int_value :: "bytes \<Rightarrow> bytes \<Rightarrow> int" where
  "int_value sg ds = clamp64 (if sg = [45] then - int (digits_val ds) else int (digits_val ds))"

lemma str2int_text:
  assumes "int_text ws sg ds"
  shows "str2int (ws @ sg @ ds) = Some (int_value sg ds)"
proof -
  from assms obtain d r where ds: "ds = d # r" "isdigit d" by (cases ds) (auto simp: int_text_def)
  have ns: "\<not> isspace d" "d \<noteq> 45" "d \<noteq> 43" "\<not> isspace 43" "\<not> isspace 45"
    using digit_not_space [OF ds(2)] by (auto simp: isspace_def)
  have t: "takeWhile isspace (ws @ sg @ ds) = ws" "dropWhile isspace (ws @ sg @ ds) = sg @ ds"
    using assms ns ds(1) by (auto simp: int_text_def list_all_iff takeWhile_append2 dropWhile_append2)
  have sg: "take_sign (sg @ ds) = (sg = [45], length sg, ds)"
    using assms ns ds(1) by (auto simp: int_text_def take_sign_def)
  have td: "takeWhile isdigit ds = ds" using assms by (simp add: int_text_def list_all_iff)
  have "ds \<noteq> []" using ds(1) by simp
  then show ?thesis by (simp add: str2int_def strtoll_def t sg td int_value_def del: takeWhile_eq_all_conv)
qed

lemma str2int_iff:
  "str2int s = Some v \<longleftrightarrow> s = [] \<and> v = 0 \<or> (\<exists>ws sg ds. s = ws @ sg @ ds \<and> int_text ws sg ds \<and> v = int_value sg ds)"
proof
  assume a: "str2int s = Some v"
  let ?ws = "takeWhile isspace s" and ?r = "dropWhile isspace s"
  obtain neg k r where sg: "take_sign ?r = (neg, k, r)" by (cases "take_sign ?r")
  define ds where "ds = takeWhile isdigit r"
  show "s = [] \<and> v = 0 \<or> (\<exists>ws sg ds. s = ws @ sg @ ds \<and> int_text ws sg ds \<and> v = int_value sg ds)"
  proof (cases "ds = []")
    case True
    with a sg show ?thesis by (auto simp: str2int_def strtoll_def ds_def split: if_splits)
  next
    case False
    let ?sg = "take k ?r"
    have k: "?r = ?sg @ r" "length ?sg = k" "?sg = [] \<or> ?sg = [43] \<or> ?sg = [45]" "neg \<longleftrightarrow> ?sg = [45]"
      using sg by (auto simp: take_sign_def split: list.splits if_splits)
    from a sg False have v: "v = clamp64 (if neg then - int (digits_val ds) else int (digits_val ds))"
      and l: "length ?ws + k + length ds = length s"
      by (auto simp: str2int_def strtoll_def Let_def ds_def split: if_splits)
    have s: "s = ?ws @ ?sg @ r" using k(1) by (metis takeWhile_dropWhile_id)
    then have "length s = length ?ws + k + length r" using k(2) by (metis length_append add.assoc)
    with l have "length ds = length r" by simp
    then have "ds = r" unfolding ds_def by (metis append_eq_append_conv append_Nil2 takeWhile_dropWhile_id)
    moreover have "list_all isspace ?ws" "list_all isdigit ds" by (auto simp: list_all_iff ds_def dest: set_takeWhileD)
    ultimately have "int_text ?ws ?sg ds" "s = ?ws @ ?sg @ ds" "v = int_value ?sg ds"
      using False k(3,4) s v by (simp_all add: int_text_def int_value_def)
    then show ?thesis by blast
  qed
next
  assume "s = [] \<and> v = 0 \<or> (\<exists>ws sg ds. s = ws @ sg @ ds \<and> int_text ws sg ds \<and> v = int_value sg ds)"
  then show "str2int s = Some v"
    using str2int_text by (auto simp: str2int_def strtoll_def take_sign_def)
qed

lemma str2int_dec: "str2int (dec_int v) = Some (clamp64 v)"
proof -
  define sg :: bytes where "sg = (if v < 0 then [45] else [])"
  have "dec_int v = [] @ sg @ dec_nat (nat \<bar>v\<bar>)" by (simp add: dec_int_def sg_def)
  moreover have "int_text [] sg (dec_nat (nat \<bar>v\<bar>))"
    using dec_nat_digits [of "nat \<bar>v\<bar>"] dec_nat_nonempty by (simp add: int_text_def sg_def list_all_iff)
  moreover have "int_value sg (dec_nat (nat \<bar>v\<bar>)) = clamp64 v" by (simp add: int_value_def sg_def digits_val_dec)
  ultimately show ?thesis using str2int_text by metis
qed

lemma str2dbl_not_nan: "str2dbl s = Some d \<Longrightarrow> \<not> isnan d"
  by (auto simp: str2dbl_def split: prod.splits if_splits)

lemma str2int_range: "str2int s = Some v \<Longrightarrow> - (2 ^ 63) \<le> v \<and> v < 2 ^ 63"
  by (auto simp: str2int_def strtoll_def clamp64_def Let_def split: prod.splits if_splits)

lemma str2_empty: "str2int [] = Some 0" "str2dbl [] = Some 0"
  by (simp_all add: eval_simps)

end
