(* ===== verification/AVL_Tree.thy ===== *)
theory AVL_Tree
  imports Prelude "HOL-Library.Tree"
begin

text \<open>
  The intrusive AVL tree with parent pointers and subtree counts, \<open>storage/avl_tree.h\<close> and
  \<open>storage/avl_tree.cpp\<close>: the model. Its proofs are in the theories \<open>AVL_Shape\<close> (rebalancing)
  and \<open>AVL_Ops\<close> (insertion, deletion, offset).

  Nodes live in a store of \<open>AVLNode\<close> records. Every assignment of the source is one write to the
  store, in the source's order; reading through \<open>NULL\<close> or an unallocated address fails. A pointer
  to a pointer (\<open>AVLNode **from\<close>) is a \<open>slot\<close>: the place it designates.
\<close>

record AVLNode =
  parent_p :: ptr
  left_p :: ptr
  right_p :: ptr
  height_u :: u32
  cnt_u :: u32

type_synonym avl_heap = "AVLNode store"

definition avl_init :: "avl_heap \<Rightarrow> addr \<Rightarrow> avl_heap option" where
  "avl_init h node = do {
     h \<leftarrow> wr h node (\<lambda>n. n\<lparr>left_p := None, right_p := None, parent_p := None\<rparr>);
     h \<leftarrow> wr h node (\<lambda>n. n\<lparr>height_u := 1\<rparr>);
     wr h node (\<lambda>n. n\<lparr>cnt_u := 1\<rparr>)
   }"

definition avl_height :: "avl_heap \<Rightarrow> ptr \<Rightarrow> u32 option" where
  "avl_height h node = (case node of None \<Rightarrow> Some 0 | Some a \<Rightarrow> rd h height_u a)"

definition avl_cnt :: "avl_heap \<Rightarrow> ptr \<Rightarrow> u32 option" where
  "avl_cnt h node = (case node of None \<Rightarrow> Some 0 | Some a \<Rightarrow> rd h cnt_u a)"

definition max_u32 :: "u32 \<Rightarrow> u32 \<Rightarrow> u32" where
  "max_u32 lhs rhs = (if lhs > rhs then lhs else rhs)"

definition avl_update_stats :: "avl_heap \<Rightarrow> addr \<Rightarrow> avl_heap option" where
  "avl_update_stats h node = do {
     l \<leftarrow> rd h left_p node;
     r \<leftarrow> rd h right_p node;
     hl \<leftarrow> avl_height h l;
     hr \<leftarrow> avl_height h r;
     h \<leftarrow> wr h node (\<lambda>n. n\<lparr>height_u := 1 + max_u32 hl hr\<rparr>);
     l \<leftarrow> rd h left_p node;
     r \<leftarrow> rd h right_p node;
     cl \<leftarrow> avl_cnt h l;
     cr \<leftarrow> avl_cnt h r;
     wr h node (\<lambda>n. n\<lparr>cnt_u := 1 + cl + cr\<rparr>)
   }"

definition rot_left :: "avl_heap \<Rightarrow> addr \<Rightarrow> (avl_heap \<times> addr) option" where
  "rot_left h node = do {
     parent \<leftarrow> rd h parent_p node;
     new_node_p \<leftarrow> rd h right_p node;
     new_node \<leftarrow> new_node_p;
     inner \<leftarrow> rd h left_p new_node;
     h \<leftarrow> wr h node (\<lambda>n. n\<lparr>right_p := inner\<rparr>);
     h \<leftarrow> (case inner of None \<Rightarrow> Some h | Some i \<Rightarrow> wr h i (\<lambda>n. n\<lparr>parent_p := Some node\<rparr>));
     h \<leftarrow> wr h new_node (\<lambda>n. n\<lparr>parent_p := parent\<rparr>);
     h \<leftarrow> wr h new_node (\<lambda>n. n\<lparr>left_p := Some node\<rparr>);
     h \<leftarrow> wr h node (\<lambda>n. n\<lparr>parent_p := Some new_node\<rparr>);
     h \<leftarrow> avl_update_stats h node;
     h \<leftarrow> avl_update_stats h new_node;
     Some (h, new_node)
   }"

definition rot_right :: "avl_heap \<Rightarrow> addr \<Rightarrow> (avl_heap \<times> addr) option" where
  "rot_right h node = do {
     parent \<leftarrow> rd h parent_p node;
     new_node_p \<leftarrow> rd h left_p node;
     new_node \<leftarrow> new_node_p;
     inner \<leftarrow> rd h right_p new_node;
     h \<leftarrow> wr h node (\<lambda>n. n\<lparr>left_p := inner\<rparr>);
     h \<leftarrow> (case inner of None \<Rightarrow> Some h | Some i \<Rightarrow> wr h i (\<lambda>n. n\<lparr>parent_p := Some node\<rparr>));
     h \<leftarrow> wr h new_node (\<lambda>n. n\<lparr>parent_p := parent\<rparr>);
     h \<leftarrow> wr h new_node (\<lambda>n. n\<lparr>right_p := Some node\<rparr>);
     h \<leftarrow> wr h node (\<lambda>n. n\<lparr>parent_p := Some new_node\<rparr>);
     h \<leftarrow> avl_update_stats h node;
     h \<leftarrow> avl_update_stats h new_node;
     Some (h, new_node)
   }"

definition avl_fix_left :: "avl_heap \<Rightarrow> addr \<Rightarrow> (avl_heap \<times> addr) option" where
  "avl_fix_left h node = do {
     l_p \<leftarrow> rd h left_p node;
     l \<leftarrow> l_p;
     ll \<leftarrow> rd h left_p l;
     lr \<leftarrow> rd h right_p l;
     hll \<leftarrow> avl_height h ll;
     hlr \<leftarrow> avl_height h lr;
     h \<leftarrow> (if hll < hlr then do {
             (h, x) \<leftarrow> rot_left h l;
             wr h node (\<lambda>n. n\<lparr>left_p := Some x\<rparr>)
           }
           else Some h);
     rot_right h node
   }"

definition avl_fix_right :: "avl_heap \<Rightarrow> addr \<Rightarrow> (avl_heap \<times> addr) option" where
  "avl_fix_right h node = do {
     r_p \<leftarrow> rd h right_p node;
     r \<leftarrow> r_p;
     rr \<leftarrow> rd h right_p r;
     rl \<leftarrow> rd h left_p r;
     hrr \<leftarrow> avl_height h rr;
     hrl \<leftarrow> avl_height h rl;
     h \<leftarrow> (if hrr < hrl then do {
             (h, x) \<leftarrow> rot_right h r;
             wr h node (\<lambda>n. n\<lparr>right_p := Some x\<rparr>)
           }
           else Some h);
     rot_left h node
   }"

text \<open>
  What an \<open>AVLNode **from\<close> designates: a variable of the function itself (\<open>&node\<close> in
  \<open>avl_fix_tree\<close>, \<open>&root\<close> in \<open>avl_delete\<close>), or a child field of a node. \<open>put_slot\<close> is
  \<open>*from = x\<close>; it takes and returns the variable along with the store.
\<close>

datatype slot = Var | LeftOf addr | RightOf addr

fun put_slot :: "avl_heap \<Rightarrow> ptr \<Rightarrow> slot \<Rightarrow> ptr \<Rightarrow> (avl_heap \<times> ptr) option" where
  "put_slot h v Var x = Some (h, x)"
| "put_slot h v (LeftOf q) x = do { h \<leftarrow> wr h q (\<lambda>n. n\<lparr>left_p := x\<rparr>); Some (h, v) }"
| "put_slot h v (RightOf q) x = do { h \<leftarrow> wr h q (\<lambda>n. n\<lparr>right_p := x\<rparr>); Some (h, v) }"

text \<open>\<open>parent->left == node ? &parent->left : &parent->right\<close>\<close>

definition child_slot :: "avl_heap \<Rightarrow> addr \<Rightarrow> addr \<Rightarrow> slot option" where
  "child_slot h parent node = do {
     l \<leftarrow> rd h left_p parent;
     Some (if l = Some node then LeftOf parent else RightOf parent)
   }"

partial_function (option) avl_fix_tree :: "avl_heap \<Rightarrow> addr \<Rightarrow> (avl_heap \<times> ptr) option" where
  "avl_fix_tree h node = do {
     parent \<leftarrow> rd h parent_p node;
     from \<leftarrow> (case parent of None \<Rightarrow> Some Var | Some q \<Rightarrow> child_slot h q node);
     h \<leftarrow> avl_update_stats h node;
     l \<leftarrow> rd h left_p node;
     r \<leftarrow> rd h right_p node;
     left_height \<leftarrow> avl_height h l;
     right_height \<leftarrow> avl_height h r;
     (h, var) \<leftarrow>
       (if left_height = right_height + 2 then do {
          (h, x) \<leftarrow> avl_fix_left h node;
          put_slot h (Some node) from (Some x)
        }
        else if left_height + 2 = right_height then do {
          (h, x) \<leftarrow> avl_fix_right h node;
          put_slot h (Some node) from (Some x)
        }
        else Some (h, Some node));
     (case parent of
        None \<Rightarrow> Some (h, var)
      | Some q \<Rightarrow> avl_fix_tree h q)
   }"

declare avl_fix_tree.simps [code]

definition avl_delete_one_child :: "avl_heap \<Rightarrow> addr \<Rightarrow> (avl_heap \<times> ptr) option" where
  "avl_delete_one_child h node = do {
     l \<leftarrow> rd h left_p node;
     r \<leftarrow> rd h right_p node;
     assertion (l = None \<or> r = None);
     (let child = (if l \<noteq> None then l else r) in do {
        parent \<leftarrow> rd h parent_p node;
        h \<leftarrow> (case child of None \<Rightarrow> Some h | Some c \<Rightarrow> wr h c (\<lambda>n. n\<lparr>parent_p := parent\<rparr>));
        (case parent of
           None \<Rightarrow> Some (h, child)
         | Some q \<Rightarrow> do {
             from \<leftarrow> child_slot h q node;
             (h, _) \<leftarrow> put_slot h None from child;
             avl_fix_tree h q
           })
      })
   }"

text \<open>The loop that finds the leftmost node below \<open>victim\<close>.\<close>

partial_function (option) leftmost :: "avl_heap \<Rightarrow> addr \<Rightarrow> addr option" where
  "leftmost h victim = do {
     l \<leftarrow> rd h left_p victim;
     (case l of None \<Rightarrow> Some victim | Some v \<Rightarrow> leftmost h v)
   }"

declare leftmost.simps [code]

definition avl_delete :: "avl_heap \<Rightarrow> addr \<Rightarrow> (avl_heap \<times> ptr) option" where
  "avl_delete h node = do {
     l \<leftarrow> rd h left_p node;
     r \<leftarrow> rd h right_p node;
     (case (l, r) of
        (Some _, Some r1) \<Rightarrow> do {
          victim \<leftarrow> leftmost h r1;
          (h, root) \<leftarrow> avl_delete_one_child h victim;
          n \<leftarrow> h node;
          h \<leftarrow> wr h victim (\<lambda>_. n);
          vl \<leftarrow> rd h left_p victim;
          h \<leftarrow> (case vl of None \<Rightarrow> Some h | Some c \<Rightarrow> wr h c (\<lambda>n. n\<lparr>parent_p := Some victim\<rparr>));
          vr \<leftarrow> rd h right_p victim;
          h \<leftarrow> (case vr of None \<Rightarrow> Some h | Some c \<Rightarrow> wr h c (\<lambda>n. n\<lparr>parent_p := Some victim\<rparr>));
          parent \<leftarrow> rd h parent_p node;
          from \<leftarrow> (case parent of None \<Rightarrow> Some Var | Some q \<Rightarrow> child_slot h q node);
          put_slot h root from (Some victim)
        }
      | _ \<Rightarrow> avl_delete_one_child h node)
   }"

text \<open>
  The loop of \<open>avl_offset\<close>. \<open>pos\<close> is an \<open>int64_t\<close> and \<open>offset\<close> an \<open>int32_t\<close>; the sum
  \<open>avl_cnt(...) + 1\<close> is computed in \<open>uint32_t\<close>. The result is the node, or \<open>NULL\<close>.
\<close>

partial_function (option) avl_offset_loop :: "avl_heap \<Rightarrow> addr \<Rightarrow> int \<Rightarrow> int \<Rightarrow> ptr option" where
  "avl_offset_loop h node offset pos =
     (if offset \<noteq> pos then do {
        l \<leftarrow> rd h left_p node;
        r \<leftarrow> rd h right_p node;
        cl \<leftarrow> avl_cnt h l;
        cr \<leftarrow> avl_cnt h r;
        if pos < offset \<and> pos + uint cr \<ge> offset then
          (case r of
             None \<Rightarrow> Some None
           | Some x \<Rightarrow> do {
               xl \<leftarrow> rd h left_p x;
               c \<leftarrow> avl_cnt h xl;
               avl_offset_loop h x offset (pos + uint (c + 1))
             })
        else if pos > offset \<and> pos - uint cl \<le> offset then
          (case l of
             None \<Rightarrow> Some None
           | Some x \<Rightarrow> do {
               xr \<leftarrow> rd h right_p x;
               c \<leftarrow> avl_cnt h xr;
               avl_offset_loop h x offset (pos - uint (c + 1))
             })
        else do {
          parent \<leftarrow> rd h parent_p node;
          (case parent of
             None \<Rightarrow> Some None
           | Some q \<Rightarrow> do {
               qr \<leftarrow> rd h right_p q;
               avl_offset_loop h q offset
                 (if qr = Some node then pos - uint (cl + 1) else pos + uint (cr + 1))
             })
        }
      }
      else Some (Some node))"

declare avl_offset_loop.simps [code]

definition avl_offset :: "avl_heap \<Rightarrow> ptr \<Rightarrow> int \<Rightarrow> ptr option" where
  "avl_offset h node offset =
     (case node of None \<Rightarrow> Some None | Some a \<Rightarrow> avl_offset_loop h a offset 0)"

text \<open>
  \<open>avl_search_and_insert\<close>: the search loop keeps the parent of the slot it looks at. The result
  is the store and \<open>*root\<close>; the root that \<open>avl_fix_tree\<close> returns is dropped, as in the source.
\<close>

partial_function (option) search_slot ::
  "avl_heap \<Rightarrow> (addr \<Rightarrow> bool) \<Rightarrow> ptr \<Rightarrow> ptr \<Rightarrow> slot \<Rightarrow> (ptr \<times> slot) option" where
  "search_slot h goes_left node parent from =
     (case node of
        None \<Rightarrow> Some (parent, from)
      | Some a \<Rightarrow>
          if goes_left a then do {
            l \<leftarrow> rd h left_p a;
            search_slot h goes_left l (Some a) (LeftOf a)
          }
          else do {
            r \<leftarrow> rd h right_p a;
            search_slot h goes_left r (Some a) (RightOf a)
          })"

declare search_slot.simps [code]

definition avl_search_and_insert ::
  "avl_heap \<Rightarrow> ptr \<Rightarrow> addr \<Rightarrow> (addr \<Rightarrow> addr \<Rightarrow> bool) \<Rightarrow> (avl_heap \<times> ptr) option" where
  "avl_search_and_insert h root new_node less_fn = do {
     (parent, from) \<leftarrow> search_slot h (less_fn new_node) root None Var;
     (h, root) \<leftarrow> put_slot h root from (Some new_node);
     h \<leftarrow> wr h new_node (\<lambda>n. n\<lparr>parent_p := parent\<rparr>);
     (h, _) \<leftarrow> avl_fix_tree h new_node;
     Some (h, root)
   }"

partial_function (option) search_node ::
  "avl_heap \<Rightarrow> (addr \<Rightarrow> int) \<Rightarrow> ptr \<Rightarrow> ptr option" where
  "search_node h cmp node =
     (case node of
        None \<Rightarrow> Some None
      | Some a \<Rightarrow>
          if cmp a < 0 then do { r \<leftarrow> rd h right_p a; search_node h cmp r }
          else if cmp a > 0 then do { l \<leftarrow> rd h left_p a; search_node h cmp l }
          else Some (Some a))"

declare search_node.simps [code]

definition avl_search_and_delete ::
  "avl_heap \<Rightarrow> ptr \<Rightarrow> (addr \<Rightarrow> int) \<Rightarrow> (avl_heap \<times> ptr \<times> ptr) option" where
  "avl_search_and_delete h root cmp = do {
     found \<leftarrow> search_node h cmp root;
     (case found of
        None \<Rightarrow> Some (h, root, None)
      | Some a \<Rightarrow> do { (h, root) \<leftarrow> avl_delete h a; Some (h, root, Some a) })
   }"

lemmas avl_defs [eval_simps] = avl_init_def avl_height_def avl_cnt_def max_u32_def
  avl_update_stats_def rot_left_def rot_right_def avl_fix_left_def avl_fix_right_def
  child_slot_def avl_fix_tree.simps avl_delete_one_child_def leftmost.simps avl_delete_def
  avl_offset_loop.simps avl_offset_def search_slot.simps avl_search_and_insert_def
  search_node.simps avl_search_and_delete_def

end
