(* ===== verification/Buffer_IO.thy ===== *)
theory Buffer_IO
  imports Prelude
begin

text \<open>
  The tunable constants (\<open>core/constants.h\<close>), the byte buffer (\<open>core/buffer_io.h\<close>) and the
  typed response encoding (\<open>net/serialize.h\<close>, \<open>net/serialize.cpp\<close>).

  A \<open>Buffer\<close> is a list of bytes. The source copies the object representation of an integer into
  the buffer; on the little-endian hosts the program is written for, that is the least significant
  byte first. A \<open>double\<close> is the 64-bit pattern of its IEEE 754 representation. The contract of
  such a fixed-width encoding is the locale \<open>byte_codec\<close>, with one interpretation per width.
\<close>

section \<open>Constants (core/constants.h)\<close>

definition k_max_msg :: nat where
  "k_max_msg = 33554432"

definition k_max_args :: nat where
  "k_max_args = 200 * 1000"

definition k_max_load_factor :: nat where
  "k_max_load_factor = 8"

definition k_rehashing_work :: nat where
  "k_rehashing_work = 128"

definition k_idle_timeout_ms :: u64 where
  "k_idle_timeout_ms = 15 * 1000"

definition k_max_works :: nat where
  "k_max_works = 2000"

declare k_max_msg_def [eval_simps] k_max_args_def [eval_simps] k_max_load_factor_def [eval_simps]
  k_rehashing_work_def [eval_simps] k_idle_timeout_ms_def [eval_simps] k_max_works_def [eval_simps]

section \<open>Object representation of integers\<close>

fun le_enc :: "nat \<Rightarrow> nat \<Rightarrow> bytes" where
  "le_enc 0 x = []"
| "le_enc (Suc n) x = of_nat (x mod 256) # le_enc n (x div 256)"

fun le_dec :: "bytes \<Rightarrow> nat" where
  "le_dec [] = 0"
| "le_dec (b # bs) = unat b + 256 * le_dec bs"

lemma length_le_enc [simp]: "length (le_enc n x) = n"
  by (induction n arbitrary: x) auto

lemma le_dec_enc: "le_dec (le_enc n x) = x mod 256 ^ n"
proof (induction n arbitrary: x)
  case (Suc n)
  have "le_dec (le_enc (Suc n) x) = x mod 256 + 256 * (x div 256 mod 256 ^ n)"
    by (simp add: Suc.IH unat_of_nat)
  also have "\<dots> = x mod 256 ^ Suc n"
    by (simp add: mod_mult2_eq)
  finally show ?case .
qed simp

lemma le_dec_less: "le_dec bs < 256 ^ length bs"
proof (induction bs)
  case (Cons b bs)
  have "unat b + 256 * le_dec bs < 256 + 256 * le_dec bs" by simp
  also have "\<dots> \<le> 256 * 256 ^ length bs" using Cons.IH by linarith
  finally show ?case by simp
qed simp

lemma le_enc_dec: "le_enc (length bs) (le_dec bs) = bs"
proof (induction bs)
  case (Cons b bs)
  from Cons.IH show ?case by simp
qed simp

lemma le_enc_numeral [eval_simps]:
  "le_enc (numeral k) x = of_nat (x mod 256) # le_enc (pred_numeral k) (x div 256)"
  by (simp only: numeral_eq_Suc le_enc.simps)

definition u32_bytes :: "u32 \<Rightarrow> bytes" where
  "u32_bytes v = le_enc 4 (unat v)"

definition u32_of_bytes :: "bytes \<Rightarrow> u32" where
  "u32_of_bytes bs = of_nat (le_dec bs)"

definition u64_bytes :: "u64 \<Rightarrow> bytes" where
  "u64_bytes v = le_enc 8 (unat v)"

definition u64_of_bytes :: "bytes \<Rightarrow> u64" where
  "u64_of_bytes bs = of_nat (le_dec bs)"

declare u32_bytes_def [eval_simps] u32_of_bytes_def [eval_simps]
  u64_bytes_def [eval_simps] u64_of_bytes_def [eval_simps]

section \<open>The contract of a fixed-width encoding\<close>

locale byte_codec =
  fixes enc :: "'a \<Rightarrow> bytes"
    and dec :: "bytes \<Rightarrow> 'a"
    and width :: nat
  assumes length_enc [simp]: "length (enc x) = width"
    and dec_enc [simp]: "dec (enc x) = x"
    and enc_dec: "length bs = width \<Longrightarrow> enc (dec bs) = bs"
begin

lemma dec_take_enc [simp]: "dec (take width (enc x @ rest)) = x"
  by simp

lemma drop_enc [simp]: "drop width (enc x @ rest) = rest"
  by simp

lemma enc_split: "width \<le> length bs \<Longrightarrow> enc (dec (take width bs)) @ drop width bs = bs"
  by (simp add: enc_dec)

lemma enc_eq_iff [simp]: "enc x = enc y \<longleftrightarrow> x = y"
  by (metis dec_enc)

end

lemma le_word_codec:
  assumes "(256 :: nat) ^ n = 2 ^ LENGTH('a)"
  shows "length (le_enc n (unat (w :: 'a::len word))) = n"
    and "(of_nat (le_dec (le_enc n (unat w))) :: 'a word) = w"
    and "length bs = n \<Longrightarrow> le_enc n (unat (of_nat (le_dec bs) :: 'a word)) = bs"
proof -
  show "length (le_enc n (unat w)) = n" by simp
  have "unat w < 256 ^ n" using unat_bound [of w] assms by simp
  then show "(of_nat (le_dec (le_enc n (unat w))) :: 'a word) = w"
    by (simp add: le_dec_enc)
  show "le_enc n (unat (of_nat (le_dec bs) :: 'a word)) = bs" if "length bs = n"
    using le_dec_less [of bs] that assms le_enc_dec [of bs] by (simp add: of_nat_inverse)
qed

interpretation u32c: byte_codec u32_bytes u32_of_bytes 4
  by unfold_locales
    (simp_all add: u32_bytes_def u32_of_bytes_def le_word_codec [of 4, where 'a = 32])

interpretation u64c: byte_codec u64_bytes u64_of_bytes 8
  by unfold_locales
    (simp_all add: u64_bytes_def u64_of_bytes_def le_word_codec [of 8, where 'a = 64])

section \<open>Buffer operations (core/buffer_io.h)\<close>

definition append_buffer :: "bytes \<Rightarrow> bytes \<Rightarrow> bytes" where
  "append_buffer buffer data = buffer @ data"

definition consume_buffer :: "bytes \<Rightarrow> nat \<Rightarrow> bytes" where
  "consume_buffer buffer len =
     (let len = (if len > length buffer then length buffer else len) in drop len buffer)"

definition append_buffer_u8 :: "bytes \<Rightarrow> u8 \<Rightarrow> bytes" where
  "append_buffer_u8 buffer v = buffer @ [v]"

definition append_buffer_u32 :: "bytes \<Rightarrow> u32 \<Rightarrow> bytes" where
  "append_buffer_u32 buffer v = append_buffer buffer (u32_bytes v)"

text \<open>An \<open>int64_t\<close> is stored in two's complement: as the 64-bit word it is congruent to.\<close>

definition append_buffer_i64 :: "bytes \<Rightarrow> int \<Rightarrow> bytes" where
  "append_buffer_i64 buffer v = append_buffer buffer (u64_bytes (word_of_int v))"

definition append_buffer_f64 :: "bytes \<Rightarrow> u64 \<Rightarrow> bytes" where
  "append_buffer_f64 buffer v = append_buffer buffer (u64_bytes v)"

definition append_buffer_bool :: "bytes \<Rightarrow> bool \<Rightarrow> bytes" where
  "append_buffer_bool buffer v = append_buffer buffer [if v then 1 else 0]"

definition append_buffer_string :: "bytes \<Rightarrow> bytes \<Rightarrow> bytes" where
  "append_buffer_string buffer v =
     append_buffer (append_buffer_u32 buffer (of_nat (length v))) v"

definition append_buffer_array :: "bytes \<Rightarrow> bytes \<Rightarrow> bytes" where
  "append_buffer_array buffer v =
     append_buffer (append_buffer_u32 buffer (of_nat (length v))) v"

text \<open>A \<open>std::map\<close> is the list of its items in the order of iteration.\<close>

definition append_buffer_map :: "bytes \<Rightarrow> (u8 \<times> u8) list \<Rightarrow> bytes" where
  "append_buffer_map buffer v =
     fold (\<lambda>(k, x) buf. append_buffer_u8 (append_buffer_u8 buf k) x) v
       (append_buffer_u32 buffer (of_nat (length v)))"

lemmas buffer_defs [eval_simps] = append_buffer_def append_buffer_u8_def append_buffer_u32_def
  append_buffer_i64_def append_buffer_f64_def append_buffer_bool_def append_buffer_string_def
  append_buffer_array_def append_buffer_map_def

declare consume_buffer_def [eval_simps]

lemma consume_buffer_drop [simp]: "consume_buffer buffer len = drop len buffer"
  by (simp add: consume_buffer_def)

section \<open>Typed responses (net/serialize.h, net/serialize.cpp)\<close>

definition ERR_UNKNOWN :: u32 where "ERR_UNKNOWN = 1"
definition ERR_TOO_BIG :: u32 where "ERR_TOO_BIG = 2"
definition ERR_BAD_TYP :: u32 where "ERR_BAD_TYP = 3"
definition ERR_BAD_ARG :: u32 where "ERR_BAD_ARG = 4"

definition TAG_NIL :: u8 where "TAG_NIL = 0"
definition TAG_ERR :: u8 where "TAG_ERR = 1"
definition TAG_STR :: u8 where "TAG_STR = 2"
definition TAG_INT :: u8 where "TAG_INT = 3"
definition TAG_DBL :: u8 where "TAG_DBL = 4"
definition TAG_BOOL :: u8 where "TAG_BOOL = 5"
definition TAG_ARR :: u8 where "TAG_ARR = 6"
definition TAG_MAP :: u8 where "TAG_MAP = 7"

lemmas tag_defs [eval_simps] = TAG_NIL_def TAG_ERR_def TAG_STR_def TAG_INT_def TAG_DBL_def
  TAG_BOOL_def TAG_ARR_def TAG_MAP_def

lemmas err_defs [eval_simps] = ERR_UNKNOWN_def ERR_TOO_BIG_def ERR_BAD_TYP_def ERR_BAD_ARG_def

definition out_nil :: "bytes \<Rightarrow> bytes" where
  "out_nil out = append_buffer_u8 out TAG_NIL"

definition out_err :: "bytes \<Rightarrow> u32 \<Rightarrow> bytes \<Rightarrow> bytes" where
  "out_err out code msg =
     append_buffer (append_buffer_u32 (append_buffer_u32 (append_buffer_u8 out TAG_ERR) code)
       (of_nat (length msg))) msg"

definition out_str :: "bytes \<Rightarrow> bytes \<Rightarrow> bytes" where
  "out_str out s =
     append_buffer (append_buffer_u32 (append_buffer_u8 out TAG_STR) (of_nat (length s))) s"

definition out_int :: "bytes \<Rightarrow> int \<Rightarrow> bytes" where
  "out_int out v = append_buffer_i64 (append_buffer_u8 out TAG_INT) v"

definition out_dbl :: "bytes \<Rightarrow> u64 \<Rightarrow> bytes" where
  "out_dbl out v = append_buffer_f64 (append_buffer_u8 out TAG_DBL) v"

definition out_bool :: "bytes \<Rightarrow> bool \<Rightarrow> bytes" where
  "out_bool out v = append_buffer_bool (append_buffer_u8 out TAG_BOOL) v"

definition out_arr :: "bytes \<Rightarrow> u32 \<Rightarrow> bytes" where
  "out_arr out n = append_buffer_u32 (append_buffer_u8 out TAG_ARR) n"

definition out_map :: "bytes \<Rightarrow> u32 \<Rightarrow> bytes" where
  "out_map out n = append_buffer_u32 (append_buffer_u8 out TAG_MAP) n"

lemmas out_defs [eval_simps] = out_nil_def out_err_def out_str_def out_int_def out_dbl_def
  out_bool_def out_arr_def out_map_def

section \<open>The wire format as a datatype\<close>

text \<open>
  A response is one typed value; arrays and maps hold the values that follow their header. \<open>ser\<close>
  gives the bytes of a value, and every \<open>out_*\<close> call appends the encoding of one value or, for
  \<open>out_arr\<close> and \<open>out_map\<close>, of one header.
\<close>

datatype resp =
    RNil
  | RErr u32 bytes
  | RStr bytes
  | RInt int
  | RDbl u64
  | RBool bool
  | RArr "resp list"
  | RMap "resp list"

fun ser :: "resp \<Rightarrow> bytes" where
  "ser RNil = [TAG_NIL]"
| "ser (RErr c m) = TAG_ERR # u32_bytes c @ u32_bytes (of_nat (length m)) @ m"
| "ser (RStr s) = TAG_STR # u32_bytes (of_nat (length s)) @ s"
| "ser (RInt v) = TAG_INT # u64_bytes (word_of_int v)"
| "ser (RDbl v) = TAG_DBL # u64_bytes v"
| "ser (RBool b) = [TAG_BOOL, if b then 1 else 0]"
| "ser (RArr vs) = TAG_ARR # u32_bytes (of_nat (length vs)) @ concat (map ser vs)"
| "ser (RMap vs) = TAG_MAP # u32_bytes (of_nat (length vs)) @ concat (map ser vs)"

lemma out_ser [simp]:
  "out_nil out = out @ ser RNil"
  "out_err out c m = out @ ser (RErr c m)"
  "out_str out s = out @ ser (RStr s)"
  "out_int out v = out @ ser (RInt v)"
  "out_dbl out d = out @ ser (RDbl d)"
  "out_bool out b = out @ ser (RBool b)"
  by (simp_all add: out_defs buffer_defs)

lemma out_arr_ser: "out_arr out (of_nat (length vs)) @ concat (map ser vs) = out @ ser (RArr vs)"
  by (simp add: out_defs buffer_defs)

lemma out_map_ser: "out_map out (of_nat (length vs)) @ concat (map ser vs) = out @ ser (RMap vs)"
  by (simp add: out_defs buffer_defs)

lemma ser_nonempty: "0 < length (ser v)"
  by (cases v) auto

lemma length_le_ser: "length vs \<le> length (concat (map ser vs))"
proof (induction vs)
  case (Cons v vs)
  then show ?case using ser_nonempty [of v] by (simp del: length_greater_0_conv)
qed simp

end
