(* ===== verification/Hashtable.thy ===== *)
theory Hashtable
  imports Buffer_IO
begin

text \<open>
  The intrusive chaining hash table and the map with progressive rehashing,
  \<open>storage/hashtable.h\<close> and \<open>storage/hashtable.cpp\<close>: the model.

  Nodes live in a store of \<open>HNode\<close> records. The array of slots is part of the \<open>HTable\<close> value,
  with \<open>None\<close> for \<open>tab == NULL\<close>; allocation succeeds. A pointer to a pointer (\<open>HNode **from\<close>) is
  an \<open>hlink\<close>: a slot of the table at hand or the \<open>next\<close> field of a node. A key is passed as its hash
  code and the predicate \<open>eq\<close>, the comparison callback applied to the key; the callback reads the
  structure around the node and may fail.
\<close>

unbundle bit_operations_syntax

section \<open>Data\<close>

record HNode =
  next_p :: ptr
  hash_code :: u64

record HTable =
  tab :: "ptr list option"
  tmask :: nat
  tsize :: nat

record HMap =
  older :: HTable
  newer :: HTable
  migration_pos :: nat

type_synonym hn_heap = "HNode store"

definition HTable0 :: HTable where
  "HTable0 = \<lparr>tab = None, tmask = 0, tsize = 0\<rparr>"

definition HMap0 :: HMap where
  "HMap0 = \<lparr>older = HTable0, newer = HTable0, migration_pos = 0\<rparr>"

datatype hlink = Slot nat | NextOf addr

fun rd_link :: "hn_heap \<Rightarrow> HTable \<Rightarrow> hlink \<Rightarrow> ptr option" where
  "rd_link h ht (Slot i) = do { t \<leftarrow> tab ht; vec_get t i }"
| "rd_link h ht (NextOf a) = rd h next_p a"

fun wr_link :: "hn_heap \<Rightarrow> HTable \<Rightarrow> hlink \<Rightarrow> ptr \<Rightarrow> (hn_heap \<times> HTable) option" where
  "wr_link h ht (Slot i) p = do { t \<leftarrow> tab ht; t \<leftarrow> vec_set t i p; Some (h, ht\<lparr>tab := Some t\<rparr>) }"
| "wr_link h ht (NextOf a) p = do { h \<leftarrow> wr h a (\<lambda>n. n\<lparr>next_p := p\<rparr>); Some (h, ht) }"

section \<open>One table\<close>

definition h_init :: "nat \<Rightarrow> HTable option" where
  "h_init n = do {
     assertion (n > 0 \<and> n AND (n - 1) = 0);
     Some \<lparr>tab = Some (replicate n None), tmask = n - 1, tsize = 0\<rparr>
   }"

definition bucket :: "u64 \<Rightarrow> HTable \<Rightarrow> nat" where
  "bucket hc ht = unat (hc AND of_nat (tmask ht))"

partial_function (option) h_lookup_loop ::
  "hn_heap \<Rightarrow> HTable \<Rightarrow> u64 \<Rightarrow> (addr \<Rightarrow> bool option) \<Rightarrow> hlink \<Rightarrow> hlink option option" where
  "h_lookup_loop h ht hc eq from = do {
     curr \<leftarrow> rd_link h ht from;
     (case curr of
        None \<Rightarrow> Some None
      | Some a \<Rightarrow> do {
          c \<leftarrow> rd h hash_code a;
          e \<leftarrow> (if c = hc then eq a else Some False);
          if e then Some (Some from) else h_lookup_loop h ht hc eq (NextOf a)
        })
   }"

declare h_lookup_loop.simps [code]

definition h_lookup ::
  "hn_heap \<Rightarrow> HTable \<Rightarrow> u64 \<Rightarrow> (addr \<Rightarrow> bool option) \<Rightarrow> hlink option option" where
  "h_lookup h ht hc eq =
     (if tab ht = None then Some None else h_lookup_loop h ht hc eq (Slot (bucket hc ht)))"

definition h_insert :: "hn_heap \<Rightarrow> HTable \<Rightarrow> addr \<Rightarrow> (hn_heap \<times> HTable) option" where
  "h_insert h ht node = do {
     hc \<leftarrow> rd h hash_code node;
     t \<leftarrow> tab ht;
     next \<leftarrow> vec_get t (bucket hc ht);
     h \<leftarrow> wr h node (\<lambda>n. n\<lparr>next_p := next\<rparr>);
     t \<leftarrow> vec_set t (bucket hc ht) (Some node);
     Some (h, ht\<lparr>tab := Some t, tsize := wrap64 (tsize ht + 1)\<rparr>)
   }"

definition h_detach :: "hn_heap \<Rightarrow> HTable \<Rightarrow> hlink \<Rightarrow> (hn_heap \<times> HTable \<times> addr) option" where
  "h_detach h ht node = do {
     p \<leftarrow> rd_link h ht node;
     target \<leftarrow> p;
     next \<leftarrow> rd h next_p target;
     (h, ht) \<leftarrow> wr_link h ht node next;
     Some (h, ht\<lparr>tsize := wrap64 (tsize ht + npos)\<rparr>, target)
   }"

text \<open>The callback of \<open>h_foreach\<close> threads the state behind its \<open>void *args\<close>.\<close>

partial_function (option) foreach_chain ::
  "hn_heap \<Rightarrow> (addr \<Rightarrow> 's \<Rightarrow> (bool \<times> 's) option) \<Rightarrow> ptr \<Rightarrow> 's \<Rightarrow> (bool \<times> 's) option" where
  "foreach_chain h f node s =
     (case node of
        None \<Rightarrow> Some (True, s)
      | Some a \<Rightarrow> do {
          (go, s) \<leftarrow> f a s;
          if \<not> go then Some (False, s)
          else do { next \<leftarrow> rd h next_p a; foreach_chain h f next s }
        })"

declare foreach_chain.simps [code]

partial_function (option) foreach_slots ::
  "hn_heap \<Rightarrow> HTable \<Rightarrow> (addr \<Rightarrow> 's \<Rightarrow> (bool \<times> 's) option) \<Rightarrow> nat \<Rightarrow> 's \<Rightarrow> (bool \<times> 's) option" where
  "foreach_slots h ht f i s =
     (if i \<le> tmask ht then do {
        t \<leftarrow> tab ht;
        head \<leftarrow> vec_get t i;
        (go, s) \<leftarrow> foreach_chain h f head s;
        if \<not> go then Some (False, s) else foreach_slots h ht f (wrap64 (i + 1)) s
      }
      else Some (True, s))"

declare foreach_slots.simps [code]

definition h_foreach ::
  "hn_heap \<Rightarrow> HTable \<Rightarrow> (addr \<Rightarrow> 's \<Rightarrow> (bool \<times> 's) option) \<Rightarrow> 's \<Rightarrow> (bool \<times> 's) option" where
  "h_foreach h ht f s = (if tab ht = None then Some (True, s) else foreach_slots h ht f 0 s)"

section \<open>The map\<close>

definition hm_trigger_rehash :: "HMap \<Rightarrow> HMap option" where
  "hm_trigger_rehash m = do {
     assertion (tab (older m) = None);
     n \<leftarrow> h_init (wrap64 (wrap64 (tsize (newer m) + 1) * 2));
     Some (m\<lparr>older := newer m, newer := n, migration_pos := 0\<rparr>)
   }"

partial_function (option) help_loop :: "hn_heap \<Rightarrow> HMap \<Rightarrow> nat \<Rightarrow> (hn_heap \<times> HMap) option" where
  "help_loop h m work =
     (if work < k_rehashing_work \<and> tsize (older m) > 0 then do {
        head \<leftarrow> rd_link h (older m) (Slot (migration_pos m));
        if head = None then help_loop h (m\<lparr>migration_pos := wrap64 (migration_pos m + 1)\<rparr>) work
        else do {
          (h, o', a) \<leftarrow> h_detach h (older m) (Slot (migration_pos m));
          (h, n') \<leftarrow> h_insert h (newer m) a;
          help_loop h (m\<lparr>older := o', newer := n'\<rparr>) (work + 1)
        }
      }
      else Some (h, m))"

declare help_loop.simps [code]

definition hm_help_rehashing :: "hn_heap \<Rightarrow> HMap \<Rightarrow> (hn_heap \<times> HMap) option" where
  "hm_help_rehashing h m = do {
     (h, m) \<leftarrow> help_loop h m 0;
     Some (h, if tsize (older m) = 0 \<and> tab (older m) \<noteq> None then m\<lparr>older := HTable0\<rparr> else m)
   }"

definition hm_lookup ::
  "hn_heap \<Rightarrow> HMap \<Rightarrow> u64 \<Rightarrow> (addr \<Rightarrow> bool option) \<Rightarrow> (hn_heap \<times> HMap \<times> ptr) option" where
  "hm_lookup h m hc eq = do {
     (h, m) \<leftarrow> hm_help_rehashing h m;
     from \<leftarrow> h_lookup h (newer m) hc eq;
     (case from of
        Some l \<Rightarrow> do { p \<leftarrow> rd_link h (newer m) l; Some (h, m, p) }
      | None \<Rightarrow> do {
          from \<leftarrow> h_lookup h (older m) hc eq;
          (case from of
             Some l \<Rightarrow> do { p \<leftarrow> rd_link h (older m) l; Some (h, m, p) }
           | None \<Rightarrow> Some (h, m, None))
        })
   }"

definition hm_insert :: "hn_heap \<Rightarrow> HMap \<Rightarrow> addr \<Rightarrow> (hn_heap \<times> HMap) option" where
  "hm_insert h m node = do {
     m \<leftarrow> (if tab (newer m) = None then do { t \<leftarrow> h_init 4; Some (m\<lparr>newer := t\<rparr>) } else Some m);
     (h, t) \<leftarrow> h_insert h (newer m) node;
     (let m = m\<lparr>newer := t\<rparr> in do {
        m \<leftarrow> (if tab (older m) = None then
               (let threshold = wrap64 (wrap64 (tmask (newer m) + 1) * k_max_load_factor) in
                if tsize (newer m) \<ge> threshold then hm_trigger_rehash m else Some m)
             else Some m);
        hm_help_rehashing h m
      })
   }"

definition hm_delete ::
  "hn_heap \<Rightarrow> HMap \<Rightarrow> u64 \<Rightarrow> (addr \<Rightarrow> bool option) \<Rightarrow> (hn_heap \<times> HMap \<times> ptr) option" where
  "hm_delete h m hc eq = do {
     (h, m) \<leftarrow> hm_help_rehashing h m;
     from \<leftarrow> h_lookup h (newer m) hc eq;
     (case from of
        Some l \<Rightarrow> do { (h, t, a) \<leftarrow> h_detach h (newer m) l; Some (h, m\<lparr>newer := t\<rparr>, Some a) }
      | None \<Rightarrow> do {
          from \<leftarrow> h_lookup h (older m) hc eq;
          (case from of
             Some l \<Rightarrow> do { (h, t, a) \<leftarrow> h_detach h (older m) l; Some (h, m\<lparr>older := t\<rparr>, Some a) }
           | None \<Rightarrow> Some (h, m, None))
        })
   }"

definition hm_clear :: "HMap \<Rightarrow> HMap" where
  "hm_clear m = HMap0"

definition hm_size :: "HMap \<Rightarrow> nat" where
  "hm_size m = wrap64 (tsize (newer m) + tsize (older m))"

definition hm_foreach ::
  "hn_heap \<Rightarrow> HMap \<Rightarrow> (addr \<Rightarrow> 's \<Rightarrow> (bool \<times> 's) option) \<Rightarrow> 's \<Rightarrow> 's option" where
  "hm_foreach h m f s = do {
     (go, s) \<leftarrow> h_foreach h (newer m) f s;
     if go then do { (_, s) \<leftarrow> h_foreach h (older m) f s; Some s } else Some s
   }"

lemmas hashtable_defs [eval_simps] = HTable0_def HMap0_def h_init_def bucket_def
  h_lookup_loop.simps h_lookup_def h_insert_def h_detach_def foreach_chain.simps
  foreach_slots.simps h_foreach_def hm_trigger_rehash_def help_loop.simps
  hm_help_rehashing_def hm_lookup_def hm_insert_def hm_delete_def hm_clear_def hm_size_def
  hm_foreach_def

end
