(* ===== verification/Sorted_Set.thy ===== *)
theory Sorted_Set
  imports Common AVL_Tree Hashtable
begin

text \<open>
  The sorted set, \<open>storage/sorted_set.h\<close> and the first half of \<open>storage/sorted_set.cpp\<close>: the
  model. A \<open>ZNode\<close> is in two structures at once, a tree ordered by score and name and a hash map by
  name; both are intrusive, so the node's tree part, hash part and payload are three stores indexed by
  the same address. The memory \<open>mem\<close> holds the three stores and the allocator; \<open>malloc\<close> returns an
  address never used before and succeeds, \<open>free\<close> removes the object, so that a later access to it
  fails. The name and its length are one list of bytes; the terminating NUL that \<open>znode_new\<close> adds is
  outside the list and no function reads it.
\<close>

section \<open>Data\<close>

record ZNode =
  score :: u64
  name :: bytes

record ZSet =
  root_p :: ptr
  zmap :: HMap

record mem =
  avl :: avl_heap
  hns :: hn_heap
  zns :: "ZNode store"
  brk :: nat

definition k_empty_zset :: ZSet where
  "k_empty_zset = \<lparr>root_p = None, zmap = HMap0\<rparr>"

section \<open>Nodes\<close>

definition znode_new :: "mem \<Rightarrow> bytes \<Rightarrow> u64 \<Rightarrow> (mem \<times> addr) option" where
  "znode_new m nm sc =
     (let a = brk m;
          h = (avl m)(a \<mapsto> \<lparr>parent_p = None, left_p = None, right_p = None, height_u = 0, cnt_u = 0\<rparr>)
      in do {
        h \<leftarrow> avl_init h a;
        Some (m\<lparr>avl := h,
                hns := (hns m)(a \<mapsto> \<lparr>next_p = None, hash_code = string_hash nm\<rparr>),
                zns := (zns m)(a \<mapsto> \<lparr>score = sc, name = nm\<rparr>),
                brk := a + 1\<rparr>, a)
      })"

definition znode_del :: "mem \<Rightarrow> addr \<Rightarrow> mem option" where
  "znode_del m a = do {
     _ \<leftarrow> zns m a;
     Some (m\<lparr>avl := (avl m)(a := None), hns := (hns m)(a := None), zns := (zns m)(a := None)\<rparr>)
   }"

section \<open>Order\<close>

fun memcmp :: "bytes \<Rightarrow> bytes \<Rightarrow> nat \<Rightarrow> int" where
  "memcmp (a # as) (b # bs) (Suc n) = (if a < b then -1 else if a > b then 1 else memcmp as bs n)"
| "memcmp _ _ _ = 0"

definition min_len :: "nat \<Rightarrow> nat \<Rightarrow> nat" where
  "min_len lhs rhs = (if lhs < rhs then lhs else rhs)"

definition zless :: "ZNode \<Rightarrow> u64 \<Rightarrow> bytes \<Rightarrow> bool" where
  "zless zl sc nm =
     (if \<not> dbl_eq (score zl) sc then dbl_lt (score zl) sc
      else
        (let rv = memcmp (name zl) nm (min_len (length (name zl)) (length nm))
         in if rv \<noteq> 0 then rv < 0 else length (name zl) < length nm))"

definition zless_key :: "mem \<Rightarrow> addr \<Rightarrow> u64 \<Rightarrow> bytes \<Rightarrow> bool option" where
  "zless_key m lhs sc nm = do { zl \<leftarrow> zns m lhs; Some (zless zl sc nm) }"

definition zless_node :: "mem \<Rightarrow> addr \<Rightarrow> addr \<Rightarrow> bool option" where
  "zless_node m lhs rhs = do { zr \<leftarrow> zns m rhs; zless_key m lhs (score zr) (name zr) }"

section \<open>Operations\<close>

partial_function (option) tree_slot :: "mem \<Rightarrow> addr \<Rightarrow> ptr \<Rightarrow> ptr \<Rightarrow> slot \<Rightarrow> (ptr \<times> slot) option" where
  "tree_slot m node at parent from =
     (case at of
        None \<Rightarrow> Some (parent, from)
      | Some p \<Rightarrow> do {
          lt \<leftarrow> zless_node m node p;
          if lt then do { l \<leftarrow> rd (avl m) left_p p; tree_slot m node l (Some p) (LeftOf p) }
          else do { r \<leftarrow> rd (avl m) right_p p; tree_slot m node r (Some p) (RightOf p) }
        })"

declare tree_slot.simps [code]

definition tree_insert :: "mem \<Rightarrow> ZSet \<Rightarrow> addr \<Rightarrow> (mem \<times> ZSet) option" where
  "tree_insert m z node = do {
     (parent, from) \<leftarrow> tree_slot m node (root_p z) None Var;
     (h, r) \<leftarrow> put_slot (avl m) (root_p z) from (Some node);
     h \<leftarrow> wr h node (\<lambda>n. n\<lparr>parent_p := parent\<rparr>);
     (h, r) \<leftarrow> avl_fix_tree h node;
     Some (m\<lparr>avl := h\<rparr>, z\<lparr>root_p := r\<rparr>)
   }"

definition zset_update :: "mem \<Rightarrow> ZSet \<Rightarrow> addr \<Rightarrow> u64 \<Rightarrow> (mem \<times> ZSet) option" where
  "zset_update m z node sc = do {
     s \<leftarrow> rd (zns m) score node;
     if dbl_eq s sc then Some (m, z)
     else do {
       (h, r) \<leftarrow> avl_delete (avl m) node;
       h \<leftarrow> avl_init h node;
       zn \<leftarrow> wr (zns m) node (\<lambda>n. n\<lparr>score := sc\<rparr>);
       tree_insert (m\<lparr>avl := h, zns := zn\<rparr>) (z\<lparr>root_p := r\<rparr>) node
     }
   }"

text \<open>The comparison callback \<open>hcmp\<close>, applied to a key with the given name.\<close>

definition hcmp :: "mem \<Rightarrow> bytes \<Rightarrow> addr \<Rightarrow> bool option" where
  "hcmp m nm node = do {
     n \<leftarrow> rd (zns m) name node;
     Some (if length n \<noteq> length nm then False else memcmp n nm (length n) = 0)
   }"

definition zset_lookup :: "mem \<Rightarrow> ZSet \<Rightarrow> bytes \<Rightarrow> (mem \<times> ZSet \<times> ptr) option" where
  "zset_lookup m z nm =
     (if root_p z = None then Some (m, z, None)
      else do {
        (h, hm, p) \<leftarrow> hm_lookup (hns m) (zmap z) (string_hash nm) (hcmp m nm);
        Some (m\<lparr>hns := h\<rparr>, z\<lparr>zmap := hm\<rparr>, p)
      })"

definition zset_insert :: "mem \<Rightarrow> ZSet \<Rightarrow> bytes \<Rightarrow> u64 \<Rightarrow> (mem \<times> ZSet \<times> bool) option" where
  "zset_insert m z nm sc = do {
     (m, z, p) \<leftarrow> zset_lookup m z nm;
     (case p of
        Some node \<Rightarrow> do { (m, z) \<leftarrow> zset_update m z node sc; Some (m, z, False) }
      | None \<Rightarrow> do {
          (m, node) \<leftarrow> znode_new m nm sc;
          (h, hm) \<leftarrow> hm_insert (hns m) (zmap z) node;
          (m, z) \<leftarrow> tree_insert (m\<lparr>hns := h\<rparr>) (z\<lparr>zmap := hm\<rparr>) node;
          Some (m, z, True)
        })
   }"

definition zset_delete :: "mem \<Rightarrow> ZSet \<Rightarrow> addr \<Rightarrow> (mem \<times> ZSet) option" where
  "zset_delete m z node = do {
     hc \<leftarrow> rd (hns m) hash_code node;
     nm \<leftarrow> rd (zns m) name node;
     (h, hm, found) \<leftarrow> hm_delete (hns m) (zmap z) hc (hcmp m nm);
     assertion (found \<noteq> None);
     (t, r) \<leftarrow> avl_delete (avl m) node;
     m \<leftarrow> znode_del (m\<lparr>hns := h, avl := t\<rparr>) node;
     Some (m, z\<lparr>zmap := hm, root_p := r\<rparr>)
   }"

partial_function (option) seek_loop :: "mem \<Rightarrow> u64 \<Rightarrow> bytes \<Rightarrow> ptr \<Rightarrow> ptr \<Rightarrow> ptr option" where
  "seek_loop m sc nm node found =
     (case node of
        None \<Rightarrow> Some found
      | Some a \<Rightarrow> do {
          lt \<leftarrow> zless_key m a sc nm;
          if lt then do { r \<leftarrow> rd (avl m) right_p a; seek_loop m sc nm r found }
          else do { l \<leftarrow> rd (avl m) left_p a; seek_loop m sc nm l (Some a) }
        })"

declare seek_loop.simps [code]

definition zset_seek_greater_equal :: "mem \<Rightarrow> ZSet \<Rightarrow> u64 \<Rightarrow> bytes \<Rightarrow> ptr option" where
  "zset_seek_greater_equal m z sc nm = seek_loop m sc nm (root_p z) None"

text \<open>The \<open>int64_t\<close> offset is converted to the \<open>int32_t\<close> parameter of \<open>avl_offset\<close>.\<close>

definition znode_offset :: "mem \<Rightarrow> ptr \<Rightarrow> int \<Rightarrow> ptr option" where
  "znode_offset m node offset =
     (case node of None \<Rightarrow> Some None | Some a \<Rightarrow> avl_offset (avl m) (Some a) (int32_of offset))"

partial_function (option) tree_dispose :: "mem \<Rightarrow> ptr \<Rightarrow> mem option" where
  "tree_dispose m node =
     (case node of
        None \<Rightarrow> Some m
      | Some a \<Rightarrow> do {
          l \<leftarrow> rd (avl m) left_p a;
          m \<leftarrow> tree_dispose m l;
          r \<leftarrow> rd (avl m) right_p a;
          m \<leftarrow> tree_dispose m r;
          znode_del m a
        })"

declare tree_dispose.simps [code]

definition zset_clear :: "mem \<Rightarrow> ZSet \<Rightarrow> (mem \<times> ZSet) option" where
  "zset_clear m z =
     (let z = z\<lparr>zmap := hm_clear (zmap z)\<rparr> in do {
        m \<leftarrow> tree_dispose m (root_p z);
        Some (m, z\<lparr>root_p := None\<rparr>)
      })"

lemmas sorted_set_defs [eval_simps] = k_empty_zset_def znode_new_def znode_del_def min_len_def zless_def
  zless_key_def zless_node_def tree_slot.simps tree_insert_def zset_update_def hcmp_def
  zset_lookup_def zset_insert_def zset_delete_def seek_loop.simps zset_seek_greater_equal_def
  znode_offset_def tree_dispose.simps zset_clear_def

end
