(* ===== verification/Min_Heap.thy ===== *)
theory Min_Heap
  imports Prelude
begin

text \<open>
  The array min-heap of expiration times, \<open>storage/heap.h\<close> and \<open>storage/heap.cpp\<close>.

  A \<open>HeapItem\<close> holds a timestamp and a pointer \<open>ref\<close> to the \<open>size_t\<close> in which its owner keeps
  the item's index; those cells are the store \<open>refs\<close>. Every operation takes and returns the
  vector and the cells.

  The invariant is the pair \<open>heap_ok\<close> (no item is before its parent) and \<open>refs_ok\<close> (the cell
  of every item holds the item's index). All operations keep both, return, and change the
  multiset of items in the way their names say; the locale \<open>indexed_pq\<close> states what the callers
  rely on.
\<close>

section \<open>Model\<close>

record HeapItem =
  val :: u64
  ref :: ptr

type_synonym refs = "nat store"

definition heap_parent :: "nat \<Rightarrow> nat" where
  "heap_parent pos = wrap64 (wrap64 (pos + 1) div 2 + (2 ^ 64 - 1))"

definition left_child :: "nat \<Rightarrow> nat" where
  "left_child pos = wrap64 (pos * 2 + 1)"

definition right_child :: "nat \<Rightarrow> nat" where
  "right_child pos = wrap64 (pos * 2 + 2)"

text \<open>The assignment \<open>*item.ref = pos\<close>.\<close>

definition set_ref :: "refs \<Rightarrow> HeapItem \<Rightarrow> nat \<Rightarrow> refs option" where
  "set_ref refs item pos = do { a \<leftarrow> ref item; wr refs a (\<lambda>_. pos) }"

partial_function (option) heap_up_loop ::
  "HeapItem list \<Rightarrow> refs \<Rightarrow> nat \<Rightarrow> HeapItem \<Rightarrow> (HeapItem list \<times> refs \<times> nat) option" where
  "heap_up_loop heap refs pos temp =
     (if pos > 0 then do {
        p \<leftarrow> vec_get heap (heap_parent pos);
        if val p > val temp then do {
          heap \<leftarrow> vec_set heap pos p;
          refs \<leftarrow> set_ref refs p pos;
          heap_up_loop heap refs (heap_parent pos) temp
        }
        else Some (heap, refs, pos)
      }
      else Some (heap, refs, pos))"

declare heap_up_loop.simps [code]

definition heap_up :: "HeapItem list \<Rightarrow> refs \<Rightarrow> nat \<Rightarrow> (HeapItem list \<times> refs) option" where
  "heap_up heap refs pos = do {
     temp \<leftarrow> vec_get heap pos;
     (heap, refs, pos) \<leftarrow> heap_up_loop heap refs pos temp;
     heap \<leftarrow> vec_set heap pos temp;
     refs \<leftarrow> set_ref refs temp pos;
     Some (heap, refs)
   }"

text \<open>The choice of the smaller child inside the loop of \<open>heap_down\<close>: its position.\<close>

definition smallest_child :: "HeapItem list \<Rightarrow> nat \<Rightarrow> nat \<Rightarrow> HeapItem \<Rightarrow> nat option" where
  "smallest_child heap pos len temp = do {
     (sp, sv) \<leftarrow>
       (if left_child pos < len then do {
          l \<leftarrow> vec_get heap (left_child pos);
          Some (if val l < val temp then (left_child pos, val l) else (pos, val temp))
        }
        else Some (pos, val temp));
     (if right_child pos < len then do {
        r \<leftarrow> vec_get heap (right_child pos);
        Some (if val r < sv then right_child pos else sp)
      }
      else Some sp)
   }"

partial_function (option) heap_down_loop ::
  "HeapItem list \<Rightarrow> refs \<Rightarrow> nat \<Rightarrow> nat \<Rightarrow> HeapItem \<Rightarrow> (HeapItem list \<times> refs \<times> nat) option" where
  "heap_down_loop heap refs pos len temp = do {
     sp \<leftarrow> smallest_child heap pos len temp;
     if sp = pos then Some (heap, refs, pos)
     else do {
       c \<leftarrow> vec_get heap sp;
       heap \<leftarrow> vec_set heap pos c;
       refs \<leftarrow> set_ref refs c pos;
       heap_down_loop heap refs sp len temp
     }
   }"

declare heap_down_loop.simps [code]

definition heap_down :: "HeapItem list \<Rightarrow> refs \<Rightarrow> nat \<Rightarrow> nat \<Rightarrow> (HeapItem list \<times> refs) option" where
  "heap_down heap refs pos len = do {
     temp \<leftarrow> vec_get heap pos;
     (heap, refs, pos) \<leftarrow> heap_down_loop heap refs pos len temp;
     heap \<leftarrow> vec_set heap pos temp;
     refs \<leftarrow> set_ref refs temp pos;
     Some (heap, refs)
   }"

definition heap_update :: "HeapItem list \<Rightarrow> refs \<Rightarrow> nat \<Rightarrow> nat \<Rightarrow> (HeapItem list \<times> refs) option" where
  "heap_update heap refs pos len = do {
     up \<leftarrow> (if pos > 0 then do {
              p \<leftarrow> vec_get heap (heap_parent pos);
              i \<leftarrow> vec_get heap pos;
              Some (val p > val i)
            }
            else Some False);
     if up then heap_up heap refs pos else heap_down heap refs pos len
   }"

definition heap_upsert ::
  "HeapItem list \<Rightarrow> refs \<Rightarrow> nat \<Rightarrow> HeapItem \<Rightarrow> (HeapItem list \<times> refs) option" where
  "heap_upsert heap refs pos item =
     (let (heap, pos) = (if pos < length heap then (heap[pos := item], pos)
                         else (heap @ [item], length heap))
      in do {
        i \<leftarrow> vec_get heap pos;
        refs \<leftarrow> set_ref refs i pos;
        heap_update heap refs pos (length heap)
      })"

definition heap_delete :: "HeapItem list \<Rightarrow> refs \<Rightarrow> nat \<Rightarrow> (HeapItem list \<times> refs) option" where
  "heap_delete heap refs pos = do {
     b \<leftarrow> (if heap = [] then None else Some (last heap));
     heap \<leftarrow> vec_set heap pos b;
     (let heap = butlast heap in
      if pos < length heap then do {
        i \<leftarrow> vec_get heap pos;
        refs \<leftarrow> set_ref refs i pos;
        heap_update heap refs pos (length heap)
      }
      else Some (heap, refs))
   }"

lemmas heap_defs [eval_simps] = heap_parent_def left_child_def right_child_def set_ref_def
  heap_up_loop.simps heap_up_def smallest_child_def heap_down_loop.simps heap_down_def
  heap_update_def heap_upsert_def heap_delete_def

section \<open>Invariants\<close>

text \<open>The parent of a position, as arithmetic without the machine's wrap-around.\<close>

definition par :: "nat \<Rightarrow> nat" where
  "par i = (i - 1) div 2"

definition heap_ok :: "HeapItem list \<Rightarrow> bool" where
  "heap_ok h \<longleftrightarrow> (\<forall>i < length h. 0 < i \<longrightarrow> val (h ! par i) \<le> val (h ! i))"

definition refs_ok :: "HeapItem list \<Rightarrow> refs \<Rightarrow> bool" where
  "refs_ok h refs \<longleftrightarrow> (\<forall>i < length h. \<exists>a. ref (h ! i) = Some a \<and> refs a = Some i)"

definition small_heap :: "HeapItem list \<Rightarrow> bool" where
  "small_heap h \<longleftrightarrow> length h < 2 ^ 62"

text \<open>The addresses of the cells that the items of a heap refer to.\<close>

definition cells :: "HeapItem list \<Rightarrow> addr set" where
  "cells h = {a. \<exists>x \<in> set h. ref x = Some a}"

text \<open>
  The invariants of the two loops, for the array \<open>h\<close> in which the item being moved stands at the
  hole \<open>pos\<close>: the order may fail only between \<open>pos\<close> and its parent (going up) or between
  \<open>pos\<close> and its children (going down), and the children of \<open>pos\<close> are not before its parent.
\<close>

definition bridge :: "HeapItem list \<Rightarrow> nat \<Rightarrow> bool" where
  "bridge h pos \<longleftrightarrow>
     (\<forall>i < length h. 0 < i \<longrightarrow> par i = pos \<longrightarrow> 0 < pos \<longrightarrow> val (h ! par pos) \<le> val (h ! i))"

definition up_ok :: "HeapItem list \<Rightarrow> nat \<Rightarrow> bool" where
  "up_ok h pos \<longleftrightarrow> bridge h pos \<and>
     (\<forall>i < length h. 0 < i \<longrightarrow> i \<noteq> pos \<longrightarrow> val (h ! par i) \<le> val (h ! i))"

definition down_ok :: "HeapItem list \<Rightarrow> nat \<Rightarrow> bool" where
  "down_ok h pos \<longleftrightarrow> bridge h pos \<and>
     (\<forall>i < length h. 0 < i \<longrightarrow> par i \<noteq> pos \<longrightarrow> val (h ! par i) \<le> val (h ! i))"

definition hole_refs :: "HeapItem list \<Rightarrow> refs \<Rightarrow> nat \<Rightarrow> bool" where
  "hole_refs h refs pos \<longleftrightarrow>
     (\<forall>i < length h. i \<noteq> pos \<longrightarrow> (\<exists>a. ref (h ! i) = Some a \<and> refs a = Some i \<and> ref (h ! pos) \<noteq> Some a))
     \<and> (\<exists>a j. ref (h ! pos) = Some a \<and> refs a = Some j)"

lemma heap_okD: "heap_ok h \<Longrightarrow> i < length h \<Longrightarrow> 0 < i \<Longrightarrow> val (h ! par i) \<le> val (h ! i)"
  by (simp add: heap_ok_def)

lemma refs_okD: "refs_ok h refs \<Longrightarrow> i < length h \<Longrightarrow> \<exists>a. ref (h ! i) = Some a \<and> refs a = Some i"
  by (simp add: refs_ok_def)

lemma refs_ok_at: "refs_ok h refs \<Longrightarrow> i < length h \<Longrightarrow> ref (h ! i) = Some a \<Longrightarrow> refs a = Some i"
  by (auto dest: refs_okD)

section \<open>Position arithmetic\<close>

lemma heap_parent_par: "0 < pos \<Longrightarrow> pos < 2 ^ 62 \<Longrightarrow> heap_parent pos = par pos"
proof -
  assume pos: "0 < pos" "pos < 2 ^ 62"
  have "(pos + 1) div 2 + (2 ^ 64 - 1) = par pos + 2 ^ 64"
    using pos by (simp add: par_def)
  moreover have "par pos < 2 ^ 64" using pos by (simp add: par_def)
  ultimately show ?thesis using pos by (simp add: heap_parent_def wrap64_def)
qed

lemma left_child_eq: "pos < 2 ^ 62 \<Longrightarrow> left_child pos = 2 * pos + 1"
  by (simp add: left_child_def)

lemma right_child_eq: "pos < 2 ^ 62 \<Longrightarrow> right_child pos = 2 * pos + 2"
  by (simp add: right_child_def)

lemma par_less: "0 < i \<Longrightarrow> par i < i"
  by (simp add: par_def)

lemma par_children: "0 < i \<Longrightarrow> par i = p \<longleftrightarrow> i = 2 * p + 1 \<or> i = 2 * p + 2"
  unfolding par_def by presburger

section \<open>Moving the hole\<close>

text \<open>Exchanging the item at the hole with the item at \<open>k\<close>.\<close>

definition exch :: "HeapItem list \<Rightarrow> nat \<Rightarrow> nat \<Rightarrow> HeapItem list" where
  "exch h i k = h[i := h ! k, k := h ! i]"

lemma length_exch [simp]: "length (exch h i k) = length h"
  by (simp add: exch_def)

lemma nth_exch:
  "i < length h \<Longrightarrow> k < length h \<Longrightarrow> j < length h \<Longrightarrow>
   exch h i k ! j = (if j = k then h ! i else if j = i then h ! k else h ! j)"
  by (simp add: exch_def nth_list_update)

lemma mset_exch [simp]: "i < length h \<Longrightarrow> k < length h \<Longrightarrow> mset (exch h i k) = mset h"
  by (simp add: exch_def mset_swap)

lemma cells_mset: "mset h = mset h' \<Longrightarrow> cells h = cells h'"
  unfolding cells_def by (metis set_mset_mset)

lemma exch_hole:
  "pos < length h \<Longrightarrow> k < length h \<Longrightarrow> k \<noteq> pos \<Longrightarrow>
   (h[pos := h ! k])[k := t] = exch (h[pos := t]) pos k"
  by (simp add: exch_def list_update_swap)

lemma up_ok_exch:
  assumes "up_ok h pos" "0 < pos" "pos < length h" "val (h ! pos) < val (h ! par pos)"
  shows "up_ok (exch h pos (par pos)) (par pos)"
proof -
  have lt: "par pos < pos" using assms(2) by (rule par_less)
  show ?thesis
    unfolding up_ok_def bridge_def
  proof (intro conjI allI impI)
    fix i assume i: "i < length (exch h pos (par pos))" "0 < i" "par i = par pos" "0 < par pos"
    have "val (h ! par (par pos)) \<le> val (h ! par pos)"
      using assms lt i by (simp add: up_ok_def)
    moreover have "val (h ! par i) \<le> val (h ! i)" if "i \<noteq> pos"
      using assms(1) i(1,2) that by (simp add: up_ok_def)
    moreover have "par (par pos) < par pos" using i(4) by (rule par_less)
    ultimately show "val (exch h pos (par pos) ! par (par pos)) \<le> val (exch h pos (par pos) ! i)"
      using i lt assms(3) par_less [OF i(2)] by (auto simp: nth_exch)
  next
    fix i assume i: "i < length (exch h pos (par pos))" "0 < i" "i \<noteq> par pos"
    have "val (h ! par i) \<le> val (h ! i)" if "i \<noteq> pos"
      using assms i that by (simp add: up_ok_def)
    moreover have "val (h ! par pos) \<le> val (h ! i)" if "par i = pos"
      using assms i that by (simp add: up_ok_def bridge_def)
    ultimately show "val (exch h pos (par pos) ! par i) \<le> val (exch h pos (par pos) ! i)"
      using i lt assms(3,4) par_less [OF i(2)] by (auto simp: nth_exch)
  qed
qed

lemma up_ok_done:
  "up_ok h pos \<Longrightarrow> pos = 0 \<or> val (h ! par pos) \<le> val (h ! pos) \<Longrightarrow> heap_ok h"
  by (auto simp: up_ok_def heap_ok_def)

lemma hole_refs_exch:
  assumes "hole_refs h refs pos" "pos < length h" "k < length h" "k \<noteq> pos"
    and a: "ref (h ! k) = Some a"
  shows "hole_refs (exch h pos k) (refs(a \<mapsto> pos)) k"
proof -
  have ra: "refs a = Some k" "ref (h ! pos) \<noteq> Some a"
    using assms by (auto simp: hole_refs_def)
  have other: "\<exists>b. ref (h ! i) = Some b \<and> refs b = Some i \<and> ref (h ! pos) \<noteq> Some b \<and> b \<noteq> a"
    if "i < length h" "i \<noteq> pos" "i \<noteq> k" for i
  proof -
    from that assms(1) obtain b where "ref (h ! i) = Some b" "refs b = Some i" "ref (h ! pos) \<noteq> Some b"
      by (auto simp: hole_refs_def)
    with ra that show ?thesis by auto
  qed
  from assms(1) obtain c j where c: "ref (h ! pos) = Some c" "refs c = Some j"
    by (auto simp: hole_refs_def)
  show ?thesis
    unfolding hole_refs_def
    using assms ra c by (auto simp: nth_exch dest!: other)
qed

lemma set_ref_Some:
  "ref x = Some a \<Longrightarrow> refs a = Some j \<Longrightarrow> set_ref refs x pos = Some (refs(a \<mapsto> pos))"
  by (simp add: set_ref_def)

text \<open>What a loop promises about the array it leaves, with the moved item put into the hole.\<close>

definition settled :: "HeapItem list \<Rightarrow> refs \<Rightarrow> HeapItem \<Rightarrow> HeapItem list \<Rightarrow> refs \<Rightarrow> nat \<Rightarrow> bool" where
  "settled h refs temp heap' refs' pos' \<longleftrightarrow>
     pos' < length heap' \<and> heap_ok (heap'[pos' := temp]) \<and> hole_refs (heap'[pos' := temp]) refs' pos'
     \<and> mset (heap'[pos' := temp]) = mset h \<and> (\<forall>a. a \<notin> cells h \<longrightarrow> refs' a = refs a)"

lemma settled_trans:
  assumes "settled h' (refs(a \<mapsto> pos)) temp heap' refs' pos'" "mset h' = mset h" "a \<in> cells h"
  shows "settled h refs temp heap' refs' pos'"
  using assms cells_mset [OF assms(2)] by (auto simp: settled_def)

lemma in_cells: "k < length h \<Longrightarrow> ref (h ! k) = Some a \<Longrightarrow> a \<in> cells h"
  by (auto simp: cells_def intro!: bexI [of _ "h ! k"])

lemma heap_up_loop_correct:
  assumes "up_ok (heap[pos := temp]) pos" "hole_refs (heap[pos := temp]) refs pos"
    "pos < length heap" "small_heap heap"
  shows "\<exists>heap' refs' pos'. heap_up_loop heap refs pos temp = Some (heap', refs', pos')
    \<and> settled (heap[pos := temp]) refs temp heap' refs' pos'"
  using assms
proof (induction pos arbitrary: heap refs rule: less_induct)
  case (less pos)
  let ?h = "heap[pos := temp]"
  show ?case
  proof (cases "0 < pos \<and> val temp < val (heap ! par pos)")
    case False
    have "heap[pos := temp] ! par pos = heap ! par pos" if "0 < pos"
      using par_less [OF that] by simp
    with False less.prems(3) have "heap_ok ?h"
      by (intro up_ok_done [OF less.prems(1)]) (cases "pos = 0"; simp add: not_less)
    with False less.prems show ?thesis
      by (subst heap_up_loop.simps)
        (auto simp: settled_def small_heap_def heap_parent_par dest: par_less)
  next
    case True
    let ?k = "par pos" and ?p = "heap ! par pos"
    have lt: "?k < pos" "?k < length heap" using True less.prems(3) par_less [of pos] by simp_all
    from less.prems(2) lt obtain a where a: "ref ?p = Some a" "refs a = Some ?k"
      by (auto simp: hole_refs_def)
    have sw: "(heap[pos := ?p])[?k := temp] = exch ?h pos ?k"
      using lt less.prems(3) exch_hole [of pos heap ?k temp] by simp
    have "\<exists>heap' refs' pos'. heap_up_loop (heap[pos := ?p]) (refs(a \<mapsto> pos)) ?k temp
        = Some (heap', refs', pos')
        \<and> settled ((heap[pos := ?p])[?k := temp]) (refs(a \<mapsto> pos)) temp heap' refs' pos'"
    proof (rule less.IH [OF lt(1)])
      show "up_ok ((heap[pos := ?p])[?k := temp]) ?k"
        unfolding sw using less.prems True lt by (intro up_ok_exch) auto
      show "hole_refs ((heap[pos := ?p])[?k := temp]) (refs(a \<mapsto> pos)) ?k"
        unfolding sw using less.prems a lt by (intro hole_refs_exch) auto
    qed (use lt less.prems in \<open>auto simp: small_heap_def\<close>)
    then obtain heap' refs' pos' where
      loop: "heap_up_loop (heap[pos := ?p]) (refs(a \<mapsto> pos)) ?k temp = Some (heap', refs', pos')" and
      set: "settled (exch ?h pos ?k) (refs(a \<mapsto> pos)) temp heap' refs' pos'"
      unfolding sw by blast
    have "settled ?h refs temp heap' refs' pos'"
      using lt less.prems(3) a in_cells [of ?k ?h a] by (intro settled_trans [OF set]) auto
    with loop True lt less.prems a show ?thesis
      by (subst heap_up_loop.simps) (simp add: heap_parent_par small_heap_def set_ref_Some)
  qed
qed

lemma down_ok_exch:
  assumes "down_ok h pos" "pos < length h" "k < length h" "0 < k" "par k = pos"
    "val (h ! k) < val (h ! pos)"
    and least: "\<And>i. i < length h \<Longrightarrow> 0 < i \<Longrightarrow> par i = pos \<Longrightarrow> val (h ! k) \<le> val (h ! i)"
  shows "down_ok (exch h pos k) k"
proof -
  have lt: "pos < k" using par_less [OF assms(4)] assms(5) by simp
  have keep: "val (h ! par i) \<le> val (h ! i)" if "i < length h" "0 < i" "par i \<noteq> pos" for i
    using assms(1) that by (simp add: down_ok_def)
  show ?thesis
    unfolding down_ok_def bridge_def
  proof (intro conjI allI impI)
    fix i assume i: "i < length (exch h pos k)" "0 < i" "par i = k" "0 < k"
    have "i \<noteq> k" "i \<noteq> pos" using par_less [OF i(2)] i(3) lt by auto
    with i keep [of i] lt assms(2,3,5) show "val (exch h pos k ! par k) \<le> val (exch h pos k ! i)"
      by (auto simp: nth_exch)
  next
    fix i assume i: "i < length (exch h pos k)" "0 < i" "par i \<noteq> k"
    have pl: "par i < length h" using par_less [OF i(2)] i(1) by simp
    have "val (h ! par pos) \<le> val (h ! k)" if "i = pos"
      using assms(1,3,4,5) i(2) that by (simp add: down_ok_def bridge_def)
    moreover have "val (h ! k) \<le> val (h ! i)" if "par i = pos"
      using least i(1,2) that by simp
    moreover have "par i \<noteq> i" using par_less [OF i(2)] by simp
    ultimately show "val (exch h pos k ! par i) \<le> val (exch h pos k ! i)"
      using i keep [of i] assms(2,3,5,6) pl by (auto simp: nth_exch)
  qed
qed

lemma smallest_child_correct:
  assumes "small_heap heap" "pos < length heap"
  shows "\<exists>k. smallest_child heap pos (length heap) temp = Some k \<and> k < length heap
    \<and> (k = pos \<and> (\<forall>i < length heap. 0 < i \<longrightarrow> par i = pos \<longrightarrow> val temp \<le> val (heap ! i))
       \<or> 0 < k \<and> par k = pos \<and> val (heap ! k) < val temp
         \<and> (\<forall>i < length heap. 0 < i \<longrightarrow> par i = pos \<longrightarrow> val (heap ! k) \<le> val (heap ! i)))"
proof -
  have lc: "left_child pos = 2 * pos + 1" and rc: "right_child pos = 2 * pos + 2"
    using assms by (simp_all add: small_heap_def left_child_eq right_child_eq)
  have kids: "0 < i \<and> par i = pos \<longleftrightarrow> i = 2 * pos + 1 \<or> i = 2 * pos + 2" for i
    using par_children [of i pos] by auto
  let ?l = "2 * pos + 1" and ?r = "2 * pos + 2"
  show ?thesis
  proof (cases "?r < length heap")
    case True
    then show ?thesis
      unfolding smallest_child_def lc rc imp_conjL [symmetric] conj_assoc [symmetric] kids
      by (auto simp: kids not_less)
  next
    case False
    then show ?thesis
      unfolding smallest_child_def lc rc imp_conjL [symmetric] conj_assoc [symmetric] kids
      using assms(2) by (auto simp: kids not_less)
  qed
qed

lemma down_ok_done:
  "down_ok h pos \<Longrightarrow>
   (\<forall>i < length h. 0 < i \<longrightarrow> par i = pos \<longrightarrow> val (h ! pos) \<le> val (h ! i)) \<Longrightarrow> heap_ok h"
  by (auto simp: down_ok_def heap_ok_def)

lemma heap_down_loop_correct:
  assumes "down_ok (heap[pos := temp]) pos" "hole_refs (heap[pos := temp]) refs pos"
    "pos < length heap" "small_heap heap"
  shows "\<exists>heap' refs' pos'. heap_down_loop heap refs pos (length heap) temp
      = Some (heap', refs', pos') \<and> settled (heap[pos := temp]) refs temp heap' refs' pos'"
  using assms
proof (induction "length heap - pos" arbitrary: heap refs pos rule: less_induct)
  case less
  let ?h = "heap[pos := temp]"
  have kid: "?h ! i = heap ! i" if "0 < i" "par i = pos" for i
    using par_less [of i] that by simp
  from smallest_child_correct [OF less.prems(4,3)] obtain k where
    k: "smallest_child heap pos (length heap) temp = Some k" "k < length heap" and
    kc: "k = pos \<and> (\<forall>i < length heap. 0 < i \<longrightarrow> par i = pos \<longrightarrow> val temp \<le> val (heap ! i))
       \<or> 0 < k \<and> par k = pos \<and> val (heap ! k) < val temp
         \<and> (\<forall>i < length heap. 0 < i \<longrightarrow> par i = pos \<longrightarrow> val (heap ! k) \<le> val (heap ! i))"
    by blast
  show ?case
  proof (cases "k = pos")
    case True
    with kc have "\<forall>i < length heap. 0 < i \<longrightarrow> par i = pos \<longrightarrow> val temp \<le> val (heap ! i)"
      using par_less [of k] by auto
    with less.prems(3) kid have "heap_ok ?h"
      by (intro down_ok_done [OF less.prems(1)]) simp
    with True k less.prems show ?thesis
      by (subst heap_down_loop.simps) (simp add: settled_def)
  next
    case False
    with kc have kk: "0 < k" "par k = pos" "val (heap ! k) < val temp" and
      least: "\<And>i. i < length heap \<Longrightarrow> 0 < i \<Longrightarrow> par i = pos \<Longrightarrow> val (heap ! k) \<le> val (heap ! i)"
      by auto
    have lt: "pos < k" using par_less [OF kk(1)] kk(2) by simp
    let ?c = "heap ! k"
    from less.prems(2) lt k(2) False obtain a where a: "ref ?c = Some a" "refs a = Some k"
      by (auto simp: hole_refs_def)
    have sw: "(heap[pos := ?c])[k := temp] = exch ?h pos k"
      using False k(2) less.prems(3) exch_hole [of pos heap k temp] by simp
    have "\<exists>heap' refs' pos'. heap_down_loop (heap[pos := ?c]) (refs(a \<mapsto> pos)) k
          (length (heap[pos := ?c])) temp = Some (heap', refs', pos')
        \<and> settled ((heap[pos := ?c])[k := temp]) (refs(a \<mapsto> pos)) temp heap' refs' pos'"
    proof (rule less.hyps)
      show "down_ok ((heap[pos := ?c])[k := temp]) k"
        unfolding sw using less.prems kk k lt least kid by (intro down_ok_exch) auto
      show "hole_refs ((heap[pos := ?c])[k := temp]) (refs(a \<mapsto> pos)) k"
        unfolding sw using less.prems a lt k by (intro hole_refs_exch) auto
    qed (use lt k less.prems in \<open>auto simp: small_heap_def\<close>)
    then obtain heap' refs' pos' where
      loop: "heap_down_loop (heap[pos := ?c]) (refs(a \<mapsto> pos)) k (length heap) temp
        = Some (heap', refs', pos')" and
      set: "settled (exch ?h pos k) (refs(a \<mapsto> pos)) temp heap' refs' pos'"
      unfolding sw by auto
    have "settled ?h refs temp heap' refs' pos'"
      using lt k less.prems(3) a in_cells [of k ?h a] by (intro settled_trans [OF set]) auto
    with loop k False less.prems a show ?thesis
      by (subst heap_down_loop.simps) (simp add: set_ref_Some)
  qed
qed

section \<open>Operations\<close>

text \<open>What every operation promises: it returns, and the invariant holds of its result.\<close>

definition repaired :: "HeapItem list \<Rightarrow> refs \<Rightarrow> (HeapItem list \<times> refs) option \<Rightarrow> bool" where
  "repaired h refs res \<longleftrightarrow> (\<exists>h' refs'. res = Some (h', refs') \<and> heap_ok h' \<and> refs_ok h' refs'
     \<and> mset h' = mset h \<and> (\<forall>a. a \<notin> cells h \<longrightarrow> refs' a = refs a))"

lemma settled_repaired:
  assumes "settled h refs temp heap' refs' pos'"
  shows "repaired h refs (do {
     heap \<leftarrow> vec_set heap' pos' temp;
     refs \<leftarrow> set_ref refs' temp pos';
     Some (heap, refs)
   })"
proof -
  let ?h = "heap'[pos' := temp]"
  from assms have lt: "pos' < length heap'" and ok: "heap_ok ?h" and
    hr: "hole_refs ?h refs' pos'" and ms: "mset ?h = mset h" and
    fr: "\<forall>a. a \<notin> cells h \<longrightarrow> refs' a = refs a"
    by (auto simp: settled_def)
  from hr lt obtain a j where a: "ref temp = Some a" "refs' a = Some j"
    by (auto simp: hole_refs_def)
  have "refs_ok ?h (refs'(a \<mapsto> pos'))"
    using hr lt a unfolding hole_refs_def refs_ok_def by (fastforce simp: nth_list_update)
  moreover have "a \<in> cells h"
    using in_cells [of pos' ?h a] lt a cells_mset [OF ms] by simp
  ultimately show ?thesis
    using lt a ok ms fr by (auto simp: repaired_def set_ref_Some)
qed

lemma heap_up_correct:
  assumes "up_ok heap pos" "hole_refs heap refs pos" "pos < length heap" "small_heap heap"
  shows "repaired heap refs (heap_up heap refs pos)"
proof -
  from heap_up_loop_correct [of heap pos "heap ! pos" refs] assms obtain heap' refs' pos' where
    "heap_up_loop heap refs pos (heap ! pos) = Some (heap', refs', pos')"
    "settled heap refs (heap ! pos) heap' refs' pos'"
    by auto
  with settled_repaired assms(3) show ?thesis by (simp add: heap_up_def)
qed

lemma heap_down_correct:
  assumes "down_ok heap pos" "hole_refs heap refs pos" "pos < length heap" "small_heap heap"
  shows "repaired heap refs (heap_down heap refs pos (length heap))"
proof -
  from heap_down_loop_correct [of heap pos "heap ! pos" refs] assms obtain heap' refs' pos' where
    "heap_down_loop heap refs pos (length heap) (heap ! pos) = Some (heap', refs', pos')"
    "settled heap refs (heap ! pos) heap' refs' pos'"
    by auto
  with settled_repaired assms(3) show ?thesis by (simp add: heap_down_def)
qed

text \<open>
  \<open>heap_update\<close> repairs a heap in which one item was overwritten: the order holds away from
  \<open>pos\<close>, and the parent of \<open>pos\<close> is not after the children of \<open>pos\<close>.
\<close>

definition changed_at :: "HeapItem list \<Rightarrow> nat \<Rightarrow> bool" where
  "changed_at h pos \<longleftrightarrow> bridge h pos \<and> (\<forall>i < length h. 0 < i \<longrightarrow> i \<noteq> pos \<longrightarrow> par i \<noteq> pos \<longrightarrow>
     val (h ! par i) \<le> val (h ! i))"

lemma heap_update_correct:
  assumes ch: "changed_at heap pos" and rest: "hole_refs heap refs pos" "pos < length heap" "small_heap heap"
  shows "repaired heap refs (heap_update heap refs pos (length heap))"
proof (cases "0 < pos \<and> val (heap ! pos) < val (heap ! par pos)")
  case True
  have "val (heap ! par i) \<le> val (heap ! i)" if "i < length heap" "0 < i" "i \<noteq> pos" for i
  proof (cases "par i = pos")
    case kid: True
    with ch True that have "val (heap ! par pos) \<le> val (heap ! i)"
      by (simp add: changed_at_def bridge_def)
    moreover from True have "val (heap ! pos) \<le> val (heap ! par pos)" by (auto intro: less_imp_le)
    ultimately show ?thesis using kid by (metis order.trans)
  qed (use ch that in \<open>simp add: changed_at_def\<close>)
  with ch have "up_ok heap pos" by (simp add: changed_at_def up_ok_def)
  from heap_up_correct [OF this rest] True rest par_less [of pos] show ?thesis
    by (simp add: heap_update_def heap_parent_par small_heap_def)
next
  case False
  have "down_ok heap pos"
    using ch False unfolding changed_at_def down_ok_def by (auto simp: not_less)
  from heap_down_correct [OF this rest] False rest par_less [of pos] show ?thesis
    by (cases "0 < pos") (simp_all add: heap_update_def heap_parent_par small_heap_def)
qed

lemma changed_at_update:
  assumes "heap_ok h" "pos < length h"
  shows "changed_at (h[pos := x]) pos"
proof -
  have "val (h ! par pos) \<le> val (h ! i)" if "i < length h" "0 < i" "par i = pos" "0 < pos" for i
    using heap_okD [OF assms(1) that(1,2)] heap_okD [OF assms(1,2) that(4)] that(3)
    by (metis order.trans)
  moreover have "par pos \<noteq> pos" if "0 < pos" using par_less [OF that] by simp
  moreover have "i \<noteq> pos" if "0 < i" "par i = pos" for i using par_less [of i] that by auto
  ultimately show ?thesis
    using assms by (auto simp: changed_at_def bridge_def heap_ok_def nth_list_update)
qed

lemma changed_at_butlast:
  assumes "changed_at h pos"
  shows "changed_at (butlast h) pos"
proof -
  have "par i < length h - 1" if "i < length h - 1" "0 < i" for i
    using par_less [OF that(2)] that(1) by simp
  moreover have "par pos < length h - 1" if "0 < pos" "i < length h - 1" "0 < i" "par i = pos" for i
    using par_less [of i] par_less [of pos] that by simp
  ultimately show ?thesis
    using assms by (simp add: changed_at_def bridge_def nth_butlast)
qed

lemma changed_at_append: "heap_ok h \<Longrightarrow> changed_at (h @ [x]) (length h)"
proof -
  assume "heap_ok h"
  have pl: "par i < length h" if "i < length (h @ [x])" "0 < i" for i
    using par_less [OF that(2)] that(1) by simp
  then have "bridge (h @ [x]) (length h)" unfolding bridge_def by (metis less_irrefl)
  with pl \<open>heap_ok h\<close> show ?thesis
    by (auto simp: changed_at_def nth_append less_Suc_eq dest: heap_okD)
qed

lemma heap_ok_butlast: "heap_ok h \<Longrightarrow> heap_ok (butlast h)"
  unfolding heap_ok_def
proof (intro allI impI)
  fix i assume h: "\<forall>i < length h. 0 < i \<longrightarrow> val (h ! par i) \<le> val (h ! i)"
    and i: "i < length (butlast h)" "0 < i"
  with par_less [OF i(2)] show "val (butlast h ! par i) \<le> val (butlast h ! i)"
    by (simp add: nth_butlast)
qed

lemma refs_ok_butlast: "refs_ok h refs \<Longrightarrow> refs_ok (butlast h) refs"
  by (simp add: refs_ok_def nth_butlast)

lemma hole_refs_update:
  assumes "refs_ok h refs" "pos < length h" "ref (h ! pos) = Some a" "ref x = Some a"
  shows "hole_refs (h[pos := x]) (refs(a \<mapsto> pos)) pos"
  unfolding hole_refs_def
proof (intro conjI allI impI)
  fix i assume i: "i < length (h[pos := x])" "i \<noteq> pos"
  with assms obtain b where "ref (h ! i) = Some b" "refs b = Some i" "refs a = Some pos"
    using refs_okD [OF assms(1), of i] refs_ok_at [OF assms(1-3)] by auto
  with i assms show "\<exists>b. ref (h[pos := x] ! i) = Some b \<and> (refs(a \<mapsto> pos)) b = Some i
      \<and> ref (h[pos := x] ! pos) \<noteq> Some b"
    by auto
qed (use assms in auto)

lemma hole_refs_append:
  assumes "refs_ok h refs" "a \<notin> cells h" "ref x = Some a"
  shows "hole_refs (h @ [x]) (refs(a \<mapsto> length h)) (length h)"
  unfolding hole_refs_def
proof (intro conjI allI impI)
  fix i assume i: "i < length (h @ [x])" "i \<noteq> length h"
  with assms obtain b where "ref (h ! i) = Some b" "refs b = Some i" "b \<noteq> a"
    using in_cells [of i h] refs_okD [OF assms(1), of i] by auto
  with i assms show "\<exists>b. ref ((h @ [x]) ! i) = Some b \<and> (refs(a \<mapsto> length h)) b = Some i
      \<and> ref ((h @ [x]) ! length h) \<noteq> Some b"
    by (auto simp: nth_append)
qed (use assms in auto)

lemma repaired_upd:
  assumes "repaired h (refs(a \<mapsto> pos)) res" "a \<in> cells h"
  shows "repaired h refs res"
  using assms by (auto simp: repaired_def)

lemma heap_upsert_update:
  assumes "heap_ok h" "refs_ok h refs" "small_heap h" "pos < length h"
    and "ref (h ! pos) = Some a" "ref item = Some a"
  shows "repaired (h[pos := item]) refs (heap_upsert h refs pos item)"
proof -
  have ra: "refs a = Some pos" using assms by (blast intro: refs_ok_at)
  have "repaired (h[pos := item]) (refs(a \<mapsto> pos))
      (heap_update (h[pos := item]) (refs(a \<mapsto> pos)) pos (length (h[pos := item])))"
    using assms
    by (intro heap_update_correct changed_at_update hole_refs_update) (auto simp: small_heap_def)
  then have "repaired (h[pos := item]) refs
      (heap_update (h[pos := item]) (refs(a \<mapsto> pos)) pos (length (h[pos := item])))"
    using in_cells [of pos "h[pos := item]" a] assms(4,6) by (auto intro: repaired_upd)
  with assms ra show ?thesis by (simp add: heap_upsert_def set_ref_Some)
qed

lemma heap_upsert_insert:
  assumes "heap_ok h" "refs_ok h refs" "small_heap (h @ [item])" "length h \<le> pos"
    and "ref item = Some a" "refs a = Some j" "a \<notin> cells h"
  shows "repaired (h @ [item]) refs (heap_upsert h refs pos item)"
proof -
  have "repaired (h @ [item]) (refs(a \<mapsto> length h))
      (heap_update (h @ [item]) (refs(a \<mapsto> length h)) (length h) (length (h @ [item])))"
    using assms by (intro heap_update_correct changed_at_append hole_refs_append) auto
  then have "repaired (h @ [item]) refs
      (heap_update (h @ [item]) (refs(a \<mapsto> length h)) (length h) (length (h @ [item])))"
    using in_cells [of "length h" "h @ [item]" a] assms(5) by (auto intro: repaired_upd)
  with assms show ?thesis by (simp add: heap_upsert_def set_ref_Some)
qed

lemma mset_delete_last:
  assumes "pos < length h"
  shows "add_mset (h ! pos) (mset (butlast (h[pos := last h]))) = mset h"
proof -
  from assms obtain ys z where h: "h = ys @ [z]" by (cases h rule: rev_cases) auto
  show ?thesis
  proof (cases "pos = length ys")
    case True
    with h show ?thesis by simp
  next
    case False
    with h assms show ?thesis
      by (simp add: list_update_append mset_update nth_append)
  qed
qed

lemma heap_delete_correct:
  assumes ok: "heap_ok h" "refs_ok h refs" "small_heap h" and pos: "pos < length h"
  shows "\<exists>h' refs'. heap_delete h refs pos = Some (h', refs') \<and> heap_ok h' \<and> refs_ok h' refs'
    \<and> add_mset (h ! pos) (mset h') = mset h \<and> (\<forall>a. a \<notin> cells h' \<longrightarrow> refs' a = refs a)"
proof -
  let ?n = "length h - 1" and ?h = "butlast (h[pos := last h])"
  have ne: "h \<noteq> []" and len: "length ?h = ?n" using pos by auto
  have nth: "?h ! i = (if i = pos then h ! ?n else h ! i)" if "i < ?n" for i
    using that ne by (simp add: nth_butlast nth_list_update last_conv_nth)
  show ?thesis
  proof (cases "pos < ?n")
    case False
    with pos have "pos = ?n" by simp
    with pos ne have "?h = butlast h" by (simp add: last_conv_nth)
    moreover have "heap_ok (butlast h)" "refs_ok (butlast h) refs"
      using ok by (simp_all add: heap_ok_butlast refs_ok_butlast)
    ultimately show ?thesis
      using False ne pos mset_delete_last [OF pos] by (auto simp: heap_delete_def)
  next
    case True
    obtain b where b: "ref (h ! ?n) = Some b" "refs b = Some ?n"
      using refs_okD [OF ok(2), of ?n] ne by auto
    have "hole_refs ?h (refs(b \<mapsto> pos)) pos"
      unfolding hole_refs_def
    proof (intro conjI allI impI)
      fix i assume i: "i < length ?h" "i \<noteq> pos"
      then have "i < length h" by simp
      with refs_okD [OF ok(2)] obtain a where "ref (h ! i) = Some a" "refs a = Some i"
        by auto
      with i b True nth len show
        "\<exists>a. ref (?h ! i) = Some a \<and> (refs(b \<mapsto> pos)) a = Some i \<and> ref (?h ! pos) \<noteq> Some a"
        by (intro exI [of _ a]) auto
    qed (use b nth True in auto)
    moreover have "small_heap ?h" using ok(3) by (simp add: small_heap_def)
    ultimately have "repaired ?h (refs(b \<mapsto> pos)) (heap_update ?h (refs(b \<mapsto> pos)) pos (length ?h))"
      using True len ok(1) pos
      by (intro heap_update_correct changed_at_butlast changed_at_update) auto
    then have "repaired ?h refs (heap_update ?h (refs(b \<mapsto> pos)) pos (length ?h))"
      using in_cells [of pos ?h b] True len nth b(1) by (auto intro: repaired_upd)
    moreover have "heap_delete h refs pos = heap_update ?h (refs(b \<mapsto> pos)) pos (length ?h)"
      using True ne pos b nth [OF True] by (simp add: heap_delete_def set_ref_Some)
    ultimately obtain h' refs' where
      "heap_delete h refs pos = Some (h', refs')" "heap_ok h'" "refs_ok h' refs'"
      "mset h' = mset ?h" "\<forall>a. a \<notin> cells ?h \<longrightarrow> refs' a = refs a"
      by (auto simp: repaired_def)
    then show ?thesis
      using mset_delete_last [OF pos] cells_mset [of h' ?h] by auto
  qed
qed

lemma heap_root_min:
  assumes "heap_ok h" "i < length h"
  shows "val (h ! 0) \<le> val (h ! i)"
  using assms(2)
proof (induction i rule: less_induct)
  case (less i)
  show ?case
  proof (cases "i = 0")
    case False
    then have i: "0 < i" "par i < i" "par i < length h"
      using par_less [of i] less.prems by simp_all
    from less.IH [OF i(2,3)] heap_okD [OF assms(1) less.prems i(1)] show ?thesis
      by (rule order.trans)
  qed simp
qed

section \<open>The contract of an indexed priority queue\<close>

text \<open>Removing the head \<open>n\<close> times: the items in the order of removal, and what is left.\<close>

fun drain :: "('q \<Rightarrow> 'i list) \<Rightarrow> ('q \<Rightarrow> nat \<Rightarrow> 'q option) \<Rightarrow> nat \<Rightarrow> 'q \<Rightarrow> ('i list \<times> 'q) option" where
  "drain items del 0 q = Some ([], q)"
| "drain items del (Suc n) q =
     (case items q of
        [] \<Rightarrow> Some ([], q)
      | x # _ \<Rightarrow> do { q' \<leftarrow> del q 0; (xs, q'') \<leftarrow> drain items del n q'; Some (x # xs, q'') })"

locale indexed_pq =
  fixes inv :: "'q \<Rightarrow> bool"
    and items :: "'q \<Rightarrow> 'i list"
    and key :: "'i \<Rightarrow> 'k::linorder"
    and del :: "'q \<Rightarrow> nat \<Rightarrow> 'q option"
  assumes head_least: "inv q \<Longrightarrow> i < length (items q) \<Longrightarrow> key (items q ! 0) \<le> key (items q ! i)"
    and del_returns: "inv q \<Longrightarrow> pos < length (items q) \<Longrightarrow> \<exists>q'. del q pos = Some q'"
    and del_inv: "inv q \<Longrightarrow> pos < length (items q) \<Longrightarrow> del q pos = Some q' \<Longrightarrow> inv q'"
    and del_items: "inv q \<Longrightarrow> pos < length (items q) \<Longrightarrow> del q pos = Some q' \<Longrightarrow>
      mset (items q) = add_mset (items q ! pos) (mset (items q'))"
begin

lemma head_le_rest:
  assumes "inv q" "items q = x # xs" "y \<in># mset (items q)"
  shows "key x \<le> key y"
proof -
  from assms(3) obtain i where "i < length (items q)" "y = items q ! i"
    by (auto simp: in_set_conv_nth)
  with head_least [OF assms(1), of i] assms(2) show ?thesis by simp
qed

lemma drain_sorted:
  assumes "inv q"
  shows "\<exists>xs q'. drain items del n q = Some (xs, q') \<and> inv q'
    \<and> mset (items q) = mset xs + mset (items q') \<and> length xs = min n (length (items q))
    \<and> sorted (map key xs) \<and> (\<forall>x \<in> set xs. \<forall>y \<in># mset (items q'). key x \<le> key y)"
  using assms
proof (induction n arbitrary: q)
  case (Suc n)
  show ?case
  proof (cases "items q")
    case Nil
    with Suc.prems show ?thesis by simp
  next
    case (Cons x rest)
    then have lt: "0 < length (items q)" by simp
    from del_returns [OF Suc.prems lt] obtain q1 where q1: "del q 0 = Some q1" by blast
    note inv1 = del_inv [OF Suc.prems lt q1]
    have ms: "mset (items q) = add_mset x (mset (items q1))"
      using del_items [OF Suc.prems lt q1] Cons by simp
    from Suc.IH [OF inv1] obtain xs q' where
      xs: "drain items del n q1 = Some (xs, q')" "inv q'"
        "mset (items q1) = mset xs + mset (items q')" "length xs = min n (length (items q1))"
        "sorted (map key xs)" "\<forall>x \<in> set xs. \<forall>y \<in># mset (items q'). key x \<le> key y"
      by blast
    have least: "key x \<le> key y" if "y \<in># mset (items q1)" for y
      using head_le_rest [OF Suc.prems Cons, of y] that ms by simp
    have "length (items q) = Suc (length (items q1))"
      using arg_cong [OF ms, of size] by simp
    with xs ms q1 Cons least show ?thesis by auto
  qed
qed simp

end

abbreviation heap_state_ok :: "HeapItem list \<times> refs \<Rightarrow> bool" where
  "heap_state_ok q \<equiv> heap_ok (fst q) \<and> refs_ok (fst q) (snd q) \<and> small_heap (fst q)"

lemma heap_delete_small:
  assumes "add_mset x (mset h') = mset h" "small_heap h"
  shows "small_heap h'"
  using arg_cong [OF assms(1), of size] assms(2) by (simp add: small_heap_def)

interpretation ttl: indexed_pq heap_state_ok fst val "\<lambda>q pos. heap_delete (fst q) (snd q) pos"
proof (unfold_locales, goal_cases)
  case (1 q i)
  then show ?case by (simp add: heap_root_min)
next
  case (2 q pos)
  then show ?case using heap_delete_correct [of "fst q" "snd q" pos] by auto
next
  case (3 q pos q')
  then show ?case
    using heap_delete_correct [of "fst q" "snd q" pos] by (auto dest: heap_delete_small)
next
  case (4 q pos q')
  then show ?case using heap_delete_correct [of "fst q" "snd q" pos] by auto
qed

end
