(* ===== verification/Commands.thy ===== *)
theory Commands
  imports Sorted_Set Min_Heap
begin

text \<open>
  The database and its commands: \<open>storage/commands.h\<close>, \<open>storage/commands.cpp\<close> and the command
  handlers of \<open>storage/sorted_set.cpp\<close>. The state \<open>server\<close> is the part of the global
  \<open>server_data\<close> that the commands use, with the memory behind it: an \<open>Entry\<close> lives at an address,
  its hash node in the node store of the memory, its \<open>heap_idx\<close> in the store \<open>refs\<close> that the heap
  writes through its back references, the rest in \<open>ents\<close>. \<open>pool\<close> is the list of entries handed to
  the thread pool. The clock is a parameter: \<open>now\<close> is what \<open>get_current_time_ms\<close> returns during
  the request. A handler returns the new state and the response buffer.
\<close>

section \<open>Data\<close>

definition TYPE_INIT :: u32 where "TYPE_INIT = 0"
definition TYPE_STR :: u32 where "TYPE_STR = 1"
definition TYPE_ZSET :: u32 where "TYPE_ZSET = 2"

record Entry =
  ekey :: bytes
  etype :: u32
  evalue :: bytes
  ezset :: ZSet

record server =
  smem :: mem
  ents :: "Entry store"
  idxs :: refs
  db :: HMap
  ttls :: "HeapItem list"
  pool :: "addr list"

abbreviation shns :: "server \<Rightarrow> hn_heap" where
  "shns sv \<equiv> hns (smem sv)"

abbreviation set_shns :: "server \<Rightarrow> hn_heap \<Rightarrow> server" where
  "set_shns sv h \<equiv> sv\<lparr>smem := (smem sv)\<lparr>hns := h\<rparr>\<rparr>"

definition entry_new :: "server \<Rightarrow> u32 \<Rightarrow> server \<times> addr" where
  "entry_new sv ty =
     (let a = brk (smem sv)
      in (sv\<lparr>smem := (smem sv)\<lparr>hns := (shns sv)(a \<mapsto> \<lparr>next_p = None, hash_code = 0\<rparr>), brk := a + 1\<rparr>,
             ents := (ents sv)(a \<mapsto> \<lparr>ekey = [], etype = ty, evalue = [], ezset = k_empty_zset\<rparr>),
             idxs := (idxs sv)(a \<mapsto> npos)\<rparr>, a))"

definition entry_equals :: "server \<Rightarrow> bytes \<Rightarrow> addr \<Rightarrow> bool option" where
  "entry_equals sv k node = do { e \<leftarrow> rd (ents sv) ekey node; Some (e = k) }"

section \<open>Deadlines and deletion\<close>

definition entry_set_ttl :: "server \<Rightarrow> u64 \<Rightarrow> addr \<Rightarrow> int \<Rightarrow> server option" where
  "entry_set_ttl sv now a ttl_ms = do {
     idx \<leftarrow> idxs sv a;
     if ttl_ms < 0 \<and> idx \<noteq> npos then do {
       (heap, refs) \<leftarrow> heap_delete (ttls sv) (idxs sv) idx;
       refs \<leftarrow> wr refs a (\<lambda>_. npos);
       Some (sv\<lparr>ttls := heap, idxs := refs\<rparr>)
     }
     else if ttl_ms \<ge> 0 then do {
       (let expires_at = now + word_of_int ttl_ms in do {
          (heap, refs) \<leftarrow> heap_upsert (ttls sv) (idxs sv) idx \<lparr>val = expires_at, ref = Some a\<rparr>;
          Some (sv\<lparr>ttls := heap, idxs := refs\<rparr>)
        })
     }
     else Some sv
   }"

definition entry_del_sync :: "server \<Rightarrow> addr \<Rightarrow> server option" where
  "entry_del_sync sv a = do {
     e \<leftarrow> ents sv a;
     sv \<leftarrow> (if etype e = TYPE_ZSET then do {
               (m, z) \<leftarrow> zset_clear (smem sv) (ezset e);
               Some (sv\<lparr>smem := m, ents := (ents sv)(a \<mapsto> e\<lparr>ezset := z\<rparr>)\<rparr>)
             }
             else Some sv);
     Some ((set_shns sv ((shns sv)(a := None)))\<lparr>ents := (ents sv)(a := None), idxs := (idxs sv)(a := None)\<rparr>)
   }"

definition entry_del_worker :: "server \<Rightarrow> addr \<Rightarrow> server option" where
  "entry_del_worker sv arg = entry_del_sync sv arg"

definition k_large_container_size :: nat where
  "k_large_container_size = 1000"

definition entry_del :: "server \<Rightarrow> u64 \<Rightarrow> addr \<Rightarrow> server option" where
  "entry_del sv now a = do {
     sv \<leftarrow> entry_set_ttl sv now a (-1);
     e \<leftarrow> ents sv a;
     (let sz = (if etype e = TYPE_ZSET then hm_size (zmap (ezset e)) else 0) in
      if sz > k_large_container_size then Some (sv\<lparr>pool := pool sv @ [a]\<rparr>)
      else entry_del_sync sv a)
   }"

section \<open>Lookup of an entry\<close>

text \<open>The lookup that starts every handler: the key's entry, or \<open>NULL\<close>.\<close>

definition db_lookup :: "server \<Rightarrow> bytes \<Rightarrow> (server \<times> ptr) option" where
  "db_lookup sv k = do {
     (h, d, p) \<leftarrow> hm_lookup (shns sv) (db sv) (string_hash k) (entry_equals sv k);
     Some ((set_shns sv h)\<lparr>db := d\<rparr>, p)
   }"

text \<open>A new entry for the key, inserted into the database.\<close>

definition db_insert :: "server \<Rightarrow> bytes \<Rightarrow> u32 \<Rightarrow> bytes \<Rightarrow> (server \<times> addr) option" where
  "db_insert sv k ty v =
     (case entry_new sv ty of (sv, a) \<Rightarrow> do {
        es \<leftarrow> wr (ents sv) a (\<lambda>e. e\<lparr>ekey := k, evalue := v\<rparr>);
        h \<leftarrow> wr (shns sv) a (\<lambda>n. n\<lparr>hash_code := string_hash k\<rparr>);
        (h, d) \<leftarrow> hm_insert h (db sv) a;
        Some ((set_shns sv h)\<lparr>ents := es, db := d\<rparr>, a)
      })"

section \<open>Key commands\<close>

definition set_key :: "server \<Rightarrow> bytes list \<Rightarrow> bytes \<Rightarrow> (server \<times> bytes) option" where
  "set_key sv cmd resp = do {
     k \<leftarrow> vec_get cmd 1;
     (sv, node) \<leftarrow> db_lookup sv k;
     v \<leftarrow> vec_get cmd 2;
     (case node of
        Some a \<Rightarrow> do {
          es \<leftarrow> wr (ents sv) a (\<lambda>e. e\<lparr>evalue := v\<rparr>);
          Some (sv\<lparr>ents := es\<rparr>, out_nil resp)
        }
      | None \<Rightarrow> do {
          (sv, _) \<leftarrow> db_insert sv k TYPE_INIT v;
          Some (sv, out_nil resp)
        })
   }"

definition get_key :: "server \<Rightarrow> bytes list \<Rightarrow> bytes \<Rightarrow> (server \<times> bytes) option" where
  "get_key sv cmd resp = do {
     k \<leftarrow> vec_get cmd 1;
     (sv, node) \<leftarrow> db_lookup sv k;
     (case node of
        None \<Rightarrow> Some (sv, out_nil resp)
      | Some a \<Rightarrow> do {
          v \<leftarrow> rd (ents sv) evalue a;
          assertion (length v \<le> k_max_msg);
          Some (sv, out_str resp v)
        })
   }"

definition del_key :: "server \<Rightarrow> u64 \<Rightarrow> bytes list \<Rightarrow> bytes \<Rightarrow> (server \<times> bytes) option" where
  "del_key sv now cmd resp = do {
     k \<leftarrow> vec_get cmd 1;
     (h, d, node) \<leftarrow> hm_delete (shns sv) (db sv) (string_hash k) (entry_equals sv k);
     (let sv = (set_shns sv h)\<lparr>db := d\<rparr> in do {
        sv \<leftarrow> (case node of None \<Rightarrow> Some sv | Some a \<Rightarrow> entry_del sv now a);
        Some (sv, out_int resp (if node \<noteq> None then 1 else 0))
      })
   }"

definition set_ttl_ms :: "server \<Rightarrow> u64 \<Rightarrow> bytes list \<Rightarrow> bytes \<Rightarrow> (server \<times> bytes) option" where
  "set_ttl_ms sv now cmd out = do {
     arg \<leftarrow> vec_get cmd 2;
     (case str2int arg of
        None \<Rightarrow> Some (sv, out_err out ERR_BAD_ARG (lit ''expect int''))
      | Some ttl_ms \<Rightarrow> do {
          k \<leftarrow> vec_get cmd 1;
          (sv, node) \<leftarrow> db_lookup sv k;
          sv \<leftarrow> (case node of None \<Rightarrow> Some sv | Some a \<Rightarrow> entry_set_ttl sv now a ttl_ms);
          Some (sv, out_int out (if node \<noteq> None then 1 else 0))
        })
   }"

definition get_ttl_ms :: "server \<Rightarrow> u64 \<Rightarrow> bytes list \<Rightarrow> bytes \<Rightarrow> (server \<times> bytes) option" where
  "get_ttl_ms sv now cmd out = do {
     k \<leftarrow> vec_get cmd 1;
     (sv, node) \<leftarrow> db_lookup sv k;
     (case node of
        None \<Rightarrow> Some (sv, out_int out (-2))
      | Some a \<Rightarrow> do {
          idx \<leftarrow> idxs sv a;
          if idx = npos then Some (sv, out_int out (-1))
          else do {
            item \<leftarrow> vec_get (ttls sv) idx;
            Some (sv, out_int out (if val item > now then uint (val item - now) else 0))
          }
        })
   }"

definition cb_keys :: "server \<Rightarrow> addr \<Rightarrow> bytes \<Rightarrow> (bool \<times> bytes) option" where
  "cb_keys sv node resp = do {
     e \<leftarrow> ents sv node;
     Some (True, out_str resp (ekey e @ lit '' : '' @ evalue e))
   }"

definition all_keys :: "server \<Rightarrow> bytes list \<Rightarrow> bytes \<Rightarrow> (server \<times> bytes) option" where
  "all_keys sv cmd resp = do {
     resp \<leftarrow> hm_foreach (shns sv) (db sv) (cb_keys sv) (out_arr resp (of_nat (hm_size (db sv))));
     Some (sv, resp)
   }"

section \<open>Sorted set commands\<close>

text \<open>
  These handlers look an entry up with a \<open>LookupKey\<close>, a node with the hash code and the key, instead
  of a dummy entry; the result is that of \<open>db_lookup\<close>.
\<close>

record LookupKey =
  lk_node :: HNode
  lk_key :: bytes

definition entry_key_equals :: "server \<Rightarrow> LookupKey \<Rightarrow> addr \<Rightarrow> bool option" where
  "entry_key_equals sv lkey node = do { e \<leftarrow> rd (ents sv) ekey node; Some (e = lk_key lkey) }"

definition zset_entry :: "server \<Rightarrow> bytes \<Rightarrow> (server \<times> ptr) option" where
  "zset_entry sv k =
     (let key = \<lparr>lk_node = \<lparr>next_p = None, hash_code = string_hash k\<rparr>, lk_key = k\<rparr> in do {
        (h, d, p) \<leftarrow> hm_lookup (shns sv) (db sv) (hash_code (lk_node key)) (entry_key_equals sv key);
        Some ((set_shns sv h)\<lparr>db := d\<rparr>, p)
      })"

lemma zset_entry_lookup [simp]: "zset_entry sv k = db_lookup sv k"
proof -
  have "entry_key_equals sv \<lparr>lk_node = n, lk_key = k\<rparr> = entry_equals sv k" for n
    by (simp add: fun_eq_iff entry_key_equals_def entry_equals_def)
  then show ?thesis by (simp add: zset_entry_def db_lookup_def)
qed

text \<open>What \<open>expect_zset\<close> returns a pointer to: the shared empty set, or the set of an entry.\<close>

datatype zref = Empty_zset | Zset_of addr

definition expect_zset :: "server \<Rightarrow> bytes \<Rightarrow> (server \<times> zref option) option" where
  "expect_zset sv k = do {
     (sv, hnode) \<leftarrow> zset_entry sv k;
     (case hnode of
        None \<Rightarrow> Some (sv, Some Empty_zset)
      | Some a \<Rightarrow> do {
          ty \<leftarrow> rd (ents sv) etype a;
          Some (sv, if ty = TYPE_ZSET then Some (Zset_of a) else None)
        })
   }"

definition get_zset :: "server \<Rightarrow> zref \<Rightarrow> ZSet option" where
  "get_zset sv r = (case r of Empty_zset \<Rightarrow> Some k_empty_zset | Zset_of a \<Rightarrow> rd (ents sv) ezset a)"

text \<open>Writing a set back; the shared empty set is constant.\<close>

definition put_zset :: "server \<Rightarrow> zref \<Rightarrow> mem \<Rightarrow> ZSet \<Rightarrow> server option" where
  "put_zset sv r m z =
     (case r of
        Empty_zset \<Rightarrow> if z = k_empty_zset then Some (sv\<lparr>smem := m\<rparr>) else None
      | Zset_of a \<Rightarrow> do {
          es \<leftarrow> wr (ents sv) a (\<lambda>e. e\<lparr>ezset := z\<rparr>);
          Some (sv\<lparr>smem := m, ents := es\<rparr>)
        })"

definition zcmd_add :: "server \<Rightarrow> bytes list \<Rightarrow> bytes \<Rightarrow> (server \<times> bytes) option" where
  "zcmd_add sv cmd resp = do {
     arg \<leftarrow> vec_get cmd 2;
     (case str2dbl arg of
        None \<Rightarrow> Some (sv, out_err resp ERR_BAD_ARG (lit ''expect float''))
      | Some sc \<Rightarrow> do {
          k \<leftarrow> vec_get cmd 1;
          (sv, hnode) \<leftarrow> zset_entry sv k;
          (sv, ent) \<leftarrow> (case hnode of
             None \<Rightarrow> do { (sv, a) \<leftarrow> db_insert sv k TYPE_ZSET []; Some (sv, Some a) }
           | Some a \<Rightarrow> do {
               ty \<leftarrow> rd (ents sv) etype a;
               Some (sv, if ty \<noteq> TYPE_ZSET then None else Some a)
             });
          (case ent of
             None \<Rightarrow> Some (sv, out_err resp ERR_BAD_TYP (lit ''expect zset''))
           | Some a \<Rightarrow> do {
               nm \<leftarrow> vec_get cmd 3;
               z \<leftarrow> rd (ents sv) ezset a;
               (m, z, added) \<leftarrow> zset_insert (smem sv) z nm sc;
               sv \<leftarrow> put_zset sv (Zset_of a) m z;
               Some (sv, out_int resp (if added then 1 else 0))
             })
        })
   }"

definition zcmd_remove :: "server \<Rightarrow> bytes list \<Rightarrow> bytes \<Rightarrow> (server \<times> bytes) option" where
  "zcmd_remove sv cmd resp = do {
     k \<leftarrow> vec_get cmd 1;
     (sv, zset) \<leftarrow> expect_zset sv k;
     (case zset of
        None \<Rightarrow> Some (sv, out_err resp ERR_BAD_TYP (lit ''expect zset''))
      | Some r \<Rightarrow> do {
          nm \<leftarrow> vec_get cmd 2;
          z \<leftarrow> get_zset sv r;
          (m, z, znode) \<leftarrow> zset_lookup (smem sv) z nm;
          (m, z) \<leftarrow> (case znode of None \<Rightarrow> Some (m, z) | Some a \<Rightarrow> zset_delete m z a);
          sv \<leftarrow> put_zset sv r m z;
          Some (sv, out_int resp (if znode \<noteq> None then 1 else 0))
        })
   }"

definition zcmd_score :: "server \<Rightarrow> bytes list \<Rightarrow> bytes \<Rightarrow> (server \<times> bytes) option" where
  "zcmd_score sv cmd resp = do {
     k \<leftarrow> vec_get cmd 1;
     (sv, zset) \<leftarrow> expect_zset sv k;
     (case zset of
        None \<Rightarrow> Some (sv, out_err resp ERR_BAD_TYP (lit ''expect zset''))
      | Some r \<Rightarrow> do {
          nm \<leftarrow> vec_get cmd 2;
          z \<leftarrow> get_zset sv r;
          (m, z, znode) \<leftarrow> zset_lookup (smem sv) z nm;
          sv \<leftarrow> put_zset sv r m z;
          (case znode of
             None \<Rightarrow> Some (sv, out_nil resp)
           | Some a \<Rightarrow> do { s \<leftarrow> rd (zns (smem sv)) score a; Some (sv, out_dbl resp s) })
        })
   }"

partial_function (option) count_loop :: "mem \<Rightarrow> nat \<Rightarrow> ptr \<Rightarrow> nat \<Rightarrow> nat option" where
  "count_loop m limit iter n =
     (if iter \<noteq> None \<and> n < limit then do {
        iter' \<leftarrow> znode_offset m iter 1;
        count_loop m limit iter' (wrap64 (n + 2))
      }
      else Some n)"

declare count_loop.simps [code]

text \<open>The output loop, with \<open>k\<close> iterations left.\<close>

fun emit_loop :: "mem \<Rightarrow> nat \<Rightarrow> ptr \<Rightarrow> bytes \<Rightarrow> bytes option" where
  "emit_loop m (Suc k) (Some a) resp = do {
     zn \<leftarrow> zns m a;
     next \<leftarrow> znode_offset m (Some a) 1;
     emit_loop m k next (out_dbl (out_str resp (name zn)) (score zn))
   }"
| "emit_loop m _ _ resp = Some resp"

definition zcmd_query :: "server \<Rightarrow> bytes list \<Rightarrow> bytes \<Rightarrow> (server \<times> bytes) option" where
  "zcmd_query sv cmd resp = do {
     arg \<leftarrow> vec_get cmd 2;
     (case str2dbl arg of
        None \<Rightarrow> Some (sv, out_err resp ERR_BAD_ARG (lit ''expect fp number''))
      | Some sc \<Rightarrow> do {
          nm \<leftarrow> vec_get cmd 3;
          off_arg \<leftarrow> vec_get cmd 4;
          lim_arg \<leftarrow> vec_get cmd 5;
          (case (str2int off_arg, str2int lim_arg) of
             (Some offset, Some limit) \<Rightarrow> do {
               k \<leftarrow> vec_get cmd 1;
               (sv, zset) \<leftarrow> expect_zset sv k;
               (case zset of
                  None \<Rightarrow> Some (sv, out_err resp ERR_BAD_TYP (lit ''expect zset''))
                | Some r \<Rightarrow>
                    if limit \<le> 0 then Some (sv, out_arr resp 0)
                    else do {
                      z \<leftarrow> get_zset sv r;
                      znode \<leftarrow> zset_seek_greater_equal (smem sv) z sc nm;
                      if znode = None then Some (sv, out_arr resp 0)
                      else do {
                        znode \<leftarrow> znode_offset (smem sv) znode offset;
                        if znode = None then Some (sv, out_arr resp 0)
                        else do {
                          n \<leftarrow> count_loop (smem sv) (nat limit) znode 0;
                          resp \<leftarrow> emit_loop (smem sv) (n div 2) znode (out_arr resp (of_nat n));
                          Some (sv, resp)
                        }
                      }
                    })
             }
           | _ \<Rightarrow> Some (sv, out_err resp ERR_BAD_ARG (lit ''expect int'')))
        })
   }"

section \<open>Dispatch\<close>

definition is_cmd :: "bytes list \<Rightarrow> nat \<Rightarrow> string \<Rightarrow> bool" where
  "is_cmd cmd n s \<longleftrightarrow> length cmd = n \<and> cmd ! 0 = lit s"

definition run_request :: "server \<Rightarrow> u64 \<Rightarrow> bytes list \<Rightarrow> bytes \<Rightarrow> (server \<times> bytes) option" where
  "run_request sv now cmd resp =
     (if is_cmd cmd 1 ''ping'' then Some (sv, out_str resp (lit ''pong''))
      else if is_cmd cmd 2 ''get'' then get_key sv cmd resp
      else if is_cmd cmd 3 ''set'' then set_key sv cmd resp
      else if is_cmd cmd 2 ''del'' then del_key sv now cmd resp
      else if is_cmd cmd 1 ''keys'' then all_keys sv cmd resp
      else if is_cmd cmd 4 ''zadd'' then zcmd_add sv cmd resp
      else if is_cmd cmd 3 ''zrem'' then zcmd_remove sv cmd resp
      else if is_cmd cmd 3 ''zscore'' then zcmd_score sv cmd resp
      else if is_cmd cmd 6 ''zquery'' then zcmd_query sv cmd resp
      else if is_cmd cmd 2 ''pttl'' then get_ttl_ms sv now cmd resp
      else if is_cmd cmd 3 ''pexpire'' then set_ttl_ms sv now cmd resp
      else Some (sv, out_err resp ERR_UNKNOWN (lit ''unknown command'')))"

lemmas commands_defs [eval_simps] = TYPE_INIT_def TYPE_STR_def TYPE_ZSET_def entry_new_def entry_equals_def
  entry_set_ttl_def entry_del_sync_def entry_del_worker_def k_large_container_size_def entry_del_def db_lookup_def
  db_insert_def set_key_def get_key_def del_key_def set_ttl_ms_def get_ttl_ms_def cb_keys_def
  all_keys_def expect_zset_def get_zset_def put_zset_def zcmd_add_def zcmd_remove_def
  zcmd_score_def count_loop.simps zcmd_query_def is_cmd_def run_request_def

text \<open>
  A deletion handed to the pool: the worker, whenever it runs on the entry, does what the direct
  deletion would have done. The queue is the only other change.
\<close>

lemma entry_del_sync_pool:
  "entry_del_sync (sv\<lparr>pool := q\<rparr>) a = map_option (\<lambda>sv. sv\<lparr>pool := q\<rparr>) (entry_del_sync sv a)"
  by (auto simp: entry_del_sync_def split: bind_splits option.splits)

lemma entry_del_deferred:
  assumes "entry_set_ttl sv now a (-1) = Some sv1" "ents sv1 a = Some e" "etype e = TYPE_ZSET"
    "hm_size (zmap (ezset e)) > k_large_container_size"
  shows "\<exists>sv2. entry_del sv now a = Some sv2 \<and> pool sv2 = pool sv1 @ [a]
    \<and> entry_del_worker sv2 a = map_option (\<lambda>sv. sv\<lparr>pool := pool sv1 @ [a]\<rparr>) (entry_del_sync sv1 a)"
  using assms by (simp add: entry_del_def Let_def entry_del_worker_def entry_del_sync_pool)

end
