(* ===== verification/AVL_Shape.thy ===== *)
theory AVL_Shape
  imports AVL_Tree
begin

text \<open>
  The pointer structure as a tree. \<open>tree_at h par t\<close> says that the store \<open>h\<close> holds exactly the
  tree \<open>t\<close> of addresses, with right parent pointers, heights and counts; \<open>ctx_at\<close> says the same
  of a tree with a hole, whose statistics on the path to the hole may be out of date, which is the
  state in which \<open>avl_fix_tree\<close> is called. On trees, \<open>fix_up\<close> is what that loop computes, and the
  theorems of this theory are that the store refines \<open>fix_up\<close> and that \<open>fix_up\<close> restores the
  AVL balance and keeps the order of the nodes.
\<close>

section \<open>Trees of addresses in the store\<close>

fun root_ptr :: "addr tree \<Rightarrow> ptr" where
  "root_ptr \<langle>\<rangle> = None"
| "root_ptr \<langle>l, a, r\<rangle> = Some a"

definition node_rec :: "ptr \<Rightarrow> addr tree \<Rightarrow> addr tree \<Rightarrow> AVLNode" where
  "node_rec par l r = \<lparr>parent_p = par, left_p = root_ptr l, right_p = root_ptr r,
     height_u = of_nat (Suc (max (height l) (height r))), cnt_u = of_nat (Suc (size l + size r))\<rparr>"

fun tree_at :: "avl_heap \<Rightarrow> ptr \<Rightarrow> addr tree \<Rightarrow> bool" where
  "tree_at h par \<langle>\<rangle> \<longleftrightarrow> True"
| "tree_at h par \<langle>l, a, r\<rangle> \<longleftrightarrow>
     h a = Some (node_rec par l r) \<and> tree_at h (Some a) l \<and> tree_at h (Some a) r"

text \<open>A node whose links are right but whose height and count may be out of date.\<close>

definition stale_at :: "avl_heap \<Rightarrow> ptr \<Rightarrow> addr tree \<Rightarrow> addr \<Rightarrow> addr tree \<Rightarrow> bool" where
  "stale_at h par l a r \<longleftrightarrow>
     (\<exists>n. h a = Some n \<and> parent_p n = par \<and> left_p n = root_ptr l \<and> right_p n = root_ptr r)
     \<and> tree_at h (Some a) l \<and> tree_at h (Some a) r"

text \<open>Trees the 32-bit statistics can describe.\<close>

definition fits :: "addr tree \<Rightarrow> bool" where
  "fits t \<longleftrightarrow> distinct (inorder t) \<and> size t + 2 < 2 ^ 32"

lemma root_ptr_None [simp]: "root_ptr t = None \<longleftrightarrow> t = \<langle>\<rangle>"
  by (cases t) auto

lemma root_ptr_in: "root_ptr t = Some a \<Longrightarrow> a \<in> set_tree t"
  by (cases t) auto

lemma node_rec_sel [simp]:
  "parent_p (node_rec par l r) = par" "left_p (node_rec par l r) = root_ptr l"
  "right_p (node_rec par l r) = root_ptr r"
  by (simp_all add: node_rec_def)

lemma node_rec_reparent [simp]: "(node_rec par l r)\<lparr>parent_p := par'\<rparr> = node_rec par' l r"
  by (simp add: node_rec_def)

lemma tree_at_cong:
  "(\<And>a. a \<in> set_tree t \<Longrightarrow> h' a = h a) \<Longrightarrow> tree_at h' par t = tree_at h par t"
  by (induction t arbitrary: par) auto

lemma tree_at_frame:
  "\<forall>x. x \<notin> S \<longrightarrow> h' x = h x \<Longrightarrow> set_tree t \<inter> S = {} \<Longrightarrow> tree_at h' par t = tree_at h par t"
  by (rule tree_at_cong) auto

lemma tree_at_upd [simp]: "a \<notin> set_tree t \<Longrightarrow> tree_at (h(a := x)) par t = tree_at h par t"
  by (rule tree_at_cong) auto

lemma tree_at_stale: "tree_at h par \<langle>l, a, r\<rangle> \<Longrightarrow> stale_at h par l a r"
  by (simp add: stale_at_def)

lemma fits_subtrees:
  assumes "fits \<langle>l, a, r\<rangle>"
  shows "fits l" "fits r" "a \<notin> set_tree l" "a \<notin> set_tree r" "set_tree l \<inter> set_tree r = {}"
  using assms by (auto simp: fits_def)

lemma fits_height: "fits t \<Longrightarrow> height t + 2 < 2 ^ 32"
  using height_le_size_tree [of t] by (simp add: fits_def)

lemma avl_height_at: "tree_at h par t \<Longrightarrow> avl_height h (root_ptr t) = Some (of_nat (height t))"
  by (cases t) (auto simp: avl_height_def node_rec_def rd_def)

lemma avl_cnt_at: "tree_at h par t \<Longrightarrow> avl_cnt h (root_ptr t) = Some (of_nat (size t))"
  by (cases t) (auto simp: avl_cnt_def node_rec_def rd_def)

lemma max_u32_of_nat:
  "m < 2 ^ 32 \<Longrightarrow> n < 2 ^ 32 \<Longrightarrow> max_u32 (of_nat m) (of_nat n) = of_nat (max m n)"
  by (auto simp: max_u32_def word_less_nat_alt of_nat_inverse max_def)

lemma avl_update_stats_at:
  assumes "stale_at h par l a r" "fits \<langle>l, a, r\<rangle>"
  shows "avl_update_stats h a = Some (h(a \<mapsto> node_rec par l r))"
proof -
  note sub = fits_subtrees [OF assms(2)]
  from assms(1) obtain n where n: "h a = Some n" "parent_p n = par" "left_p n = root_ptr l"
    "right_p n = root_ptr r" and t: "tree_at h (Some a) l" "tree_at h (Some a) r"
    by (auto simp: stale_at_def)
  let ?h1 = "h(a \<mapsto> n\<lparr>height_u := of_nat (Suc (max (height l) (height r)))\<rparr>)"
  have t1: "tree_at ?h1 (Some a) l" "tree_at ?h1 (Some a) r" using t sub by simp_all
  have "max_u32 (of_nat (height l)) (of_nat (height r)) = of_nat (max (height l) (height r))"
    using fits_height [OF sub(1)] fits_height [OF sub(2)] by (intro max_u32_of_nat) auto
  moreover have "n\<lparr>height_u := of_nat (Suc (max (height l) (height r))),
      cnt_u := 1 + of_nat (size l) + of_nat (size r)\<rparr> = node_rec par l r"
    using n by (simp add: node_rec_def)
  ultimately show ?thesis
    using n avl_height_at [OF t(1)] avl_height_at [OF t(2)] avl_cnt_at [OF t1(1)]
      avl_cnt_at [OF t1(2)]
    by (simp add: avl_update_stats_def)
qed

section \<open>Rotations\<close>

text \<open>Re-attaching the root of \<open>t\<close> below \<open>par\<close>.\<close>

fun reparent :: "avl_heap \<Rightarrow> ptr \<Rightarrow> addr tree \<Rightarrow> avl_heap" where
  "reparent h par \<langle>\<rangle> = h"
| "reparent h par \<langle>l, a, r\<rangle> = h(a \<mapsto> node_rec par l r)"

lemma reparent_at:
  "tree_at h par t \<Longrightarrow> distinct (inorder t) \<Longrightarrow> tree_at (reparent h par' t) par' t"
  by (cases t) auto

lemma reparent_other [simp]: "a \<notin> set_tree t \<Longrightarrow> reparent h par t a = h a"
  by (cases t) auto

lemma reparent_other_tree:
  "set_tree t \<inter> set_tree u = {} \<Longrightarrow> tree_at (reparent h par t) par' u = tree_at h par' u"
  by (rule tree_at_cong) (auto intro: reparent_other)

lemma reparent_code:
  assumes "tree_at h par t"
  shows "(case root_ptr t of None \<Rightarrow> Some h | Some i \<Rightarrow> wr h i (\<lambda>n. n\<lparr>parent_p := par'\<rparr>))
    = Some (reparent h par' t)"
  using assms by (cases t) auto

fun rotl :: "'a tree \<Rightarrow> 'a tree" where
  "rotl \<langle>A, a, \<langle>B, b, C\<rangle>\<rangle> = \<langle>\<langle>A, a, B\<rangle>, b, C\<rangle>"
| "rotl t = t"

fun rotr :: "'a tree \<Rightarrow> 'a tree" where
  "rotr \<langle>\<langle>A, a, B\<rangle>, b, C\<rangle> = \<langle>A, a, \<langle>B, b, C\<rangle>\<rangle>"
| "rotr t = t"

lemma rot_left_at:
  assumes st: "stale_at h par A a \<langle>B, b, C\<rangle>" and fi: "fits \<langle>A, a, \<langle>B, b, C\<rangle>\<rangle>"
  shows "\<exists>h'. rot_left h a = Some (h', b) \<and> tree_at h' par \<langle>\<langle>A, a, B\<rangle>, b, C\<rangle>
    \<and> (\<forall>x. x \<notin> set_tree \<langle>A, a, \<langle>B, b, C\<rangle>\<rangle> \<longrightarrow> h' x = h x)"
proof -
  from fi have ab: "a \<noteq> b" and d: "a \<notin> set_tree A" "a \<notin> set_tree B" "a \<notin> set_tree C"
    "b \<notin> set_tree A" "b \<notin> set_tree B" "b \<notin> set_tree C"
    "set_tree A \<inter> set_tree B = {}" "set_tree B \<inter> set_tree C = {}" "distinct (inorder B)"
    by (auto simp: fits_def)
  from st obtain n where n: "h a = Some n" "parent_p n = par" "left_p n = root_ptr A"
    "right_p n = Some b" and tA: "tree_at h (Some a) A" and hb: "h b = Some (node_rec (Some a) B C)"
    and tB: "tree_at h (Some b) B" and tC: "tree_at h (Some b) C"
    by (auto simp: stale_at_def)
  let ?h1 = "h(a \<mapsto> n\<lparr>right_p := root_ptr B\<rparr>)"
  let ?h2 = "reparent ?h1 (Some a) B"
  let ?h3 = "?h2(b \<mapsto> (node_rec (Some a) B C)\<lparr>parent_p := par, left_p := Some a\<rparr>,
                 a \<mapsto> n\<lparr>right_p := root_ptr B, parent_p := Some b\<rparr>)"
  have B1: "tree_at ?h1 (Some b) B" using tB d by simp
  have A2: "tree_at ?h2 (Some a) A" and B2: "tree_at ?h2 (Some a) B" and C2: "tree_at ?h2 (Some b) C"
    using tA tC d reparent_at [OF B1] by (simp_all add: reparent_other_tree Int_commute)
  have sa: "stale_at ?h3 (Some b) A a B"
    using n A2 B2 d by (simp add: stale_at_def)
  have fa: "fits \<langle>A, a, B\<rangle>" "fits \<langle>\<langle>A, a, B\<rangle>, b, C\<rangle>" using fi by (auto simp: fits_def)
  let ?h4 = "?h3(a \<mapsto> node_rec (Some b) A B)"
  have u1: "avl_update_stats ?h3 a = Some ?h4" by (rule avl_update_stats_at [OF sa fa(1)])
  have sb: "stale_at ?h4 par \<langle>A, a, B\<rangle> b C"
    using A2 B2 C2 ab d by (auto simp: stale_at_def)
  let ?h5 = "?h4(b \<mapsto> node_rec par \<langle>A, a, B\<rangle> C)"
  have u2: "avl_update_stats ?h4 b = Some ?h5" by (rule avl_update_stats_at [OF sb fa(2)])
  have "rot_left h a = Some (?h5, b)"
    using n hb ab d reparent_code [OF B1, of "Some a"] u1 u2
    by (simp add: rot_left_def fun_upd_twist)
  moreover have "tree_at ?h5 par \<langle>\<langle>A, a, B\<rangle>, b, C\<rangle>"
    using A2 B2 C2 ab d by auto
  ultimately show ?thesis by auto
qed

lemma rot_right_at:
  assumes st: "stale_at h par \<langle>A, a, B\<rangle> b C" and fi: "fits \<langle>\<langle>A, a, B\<rangle>, b, C\<rangle>"
  shows "\<exists>h'. rot_right h b = Some (h', a) \<and> tree_at h' par \<langle>A, a, \<langle>B, b, C\<rangle>\<rangle>
    \<and> (\<forall>x. x \<notin> set_tree \<langle>\<langle>A, a, B\<rangle>, b, C\<rangle> \<longrightarrow> h' x = h x)"
proof -
  from fi have ab: "a \<noteq> b" and d: "a \<notin> set_tree A" "a \<notin> set_tree B" "a \<notin> set_tree C"
    "b \<notin> set_tree A" "b \<notin> set_tree B" "b \<notin> set_tree C"
    "set_tree A \<inter> set_tree B = {}" "set_tree B \<inter> set_tree C = {}" "distinct (inorder B)"
    by (auto simp: fits_def)
  from st obtain n where n: "h b = Some n" "parent_p n = par" "left_p n = Some a"
    "right_p n = root_ptr C" and tC: "tree_at h (Some b) C" and ha: "h a = Some (node_rec (Some b) A B)"
    and tA: "tree_at h (Some a) A" and tB: "tree_at h (Some a) B"
    by (auto simp: stale_at_def)
  let ?h1 = "h(b \<mapsto> n\<lparr>left_p := root_ptr B\<rparr>)"
  let ?h2 = "reparent ?h1 (Some b) B"
  let ?h3 = "?h2(a \<mapsto> (node_rec (Some b) A B)\<lparr>parent_p := par, right_p := Some b\<rparr>,
                 b \<mapsto> n\<lparr>left_p := root_ptr B, parent_p := Some a\<rparr>)"
  have B1: "tree_at ?h1 (Some a) B" using tB d by simp
  have A2: "tree_at ?h2 (Some a) A" and B2: "tree_at ?h2 (Some b) B" and C2: "tree_at ?h2 (Some b) C"
    using tA tC d reparent_at [OF B1] by (simp_all add: reparent_other_tree Int_commute)
  have sb: "stale_at ?h3 (Some a) B b C"
    using n C2 B2 d by (simp add: stale_at_def)
  have fa: "fits \<langle>B, b, C\<rangle>" "fits \<langle>A, a, \<langle>B, b, C\<rangle>\<rangle>" using fi by (auto simp: fits_def)
  let ?h4 = "?h3(b \<mapsto> node_rec (Some a) B C)"
  have u1: "avl_update_stats ?h3 b = Some ?h4" by (rule avl_update_stats_at [OF sb fa(1)])
  have sa: "stale_at ?h4 par A a \<langle>B, b, C\<rangle>"
    using A2 B2 C2 ab d by (auto simp: stale_at_def)
  let ?h5 = "?h4(a \<mapsto> node_rec par A \<langle>B, b, C\<rangle>)"
  have u2: "avl_update_stats ?h4 a = Some ?h5" by (rule avl_update_stats_at [OF sa fa(2)])
  have "rot_right h b = Some (?h5, a)"
    using n ha ab d reparent_code [OF B1, of "Some b"] u1 u2
    by (simp add: rot_right_def fun_upd_twist)
  moreover have "tree_at ?h5 par \<langle>A, a, \<langle>B, b, C\<rangle>\<rangle>"
    using A2 B2 C2 ab d by auto
  ultimately show ?thesis by auto
qed

section \<open>Rebalancing one node\<close>

definition bal_left :: "'a tree \<Rightarrow> 'a \<Rightarrow> 'a tree \<Rightarrow> 'a tree" where
  "bal_left l a r =
     (case l of
        \<langle>\<rangle> \<Rightarrow> \<langle>l, a, r\<rangle>
      | \<langle>ll, b, lr\<rangle> \<Rightarrow> rotr \<langle>if height ll < height lr then rotl l else l, a, r\<rangle>)"

definition bal_right :: "'a tree \<Rightarrow> 'a \<Rightarrow> 'a tree \<Rightarrow> 'a tree" where
  "bal_right l a r =
     (case r of
        \<langle>\<rangle> \<Rightarrow> \<langle>l, a, r\<rangle>
      | \<langle>rl, b, rr\<rangle> \<Rightarrow> rotl \<langle>l, a, if height rr < height rl then rotr r else r\<rangle>)"

definition tree_fix :: "'a tree \<Rightarrow> 'a \<Rightarrow> 'a tree \<Rightarrow> 'a tree" where
  "tree_fix l a r =
     (if height l = height r + 2 then bal_left l a r
      else if height l + 2 = height r then bal_right l a r
      else \<langle>l, a, r\<rangle>)"

lemma inorder_rotl [simp]: "inorder (rotl t) = inorder t"
  by (induction t rule: rotl.induct) auto

lemma inorder_rotr [simp]: "inorder (rotr t) = inorder t"
  by (induction t rule: rotr.induct) auto

lemma inorder_tree_fix [simp]: "inorder (tree_fix l a r) = inorder l @ a # inorder r"
  by (auto simp: tree_fix_def bal_left_def bal_right_def split: tree.splits)

lemma fits_inorder: "inorder t = inorder t' \<Longrightarrow> fits t = fits t'"
  unfolding fits_def by (metis length_inorder)

lemma set_tree_inorder: "inorder t = inorder t' \<Longrightarrow> set_tree t = set_tree t'"
  by (metis set_inorder)

lemma height_pos: "0 < height t \<Longrightarrow> \<exists>l a r. t = \<langle>l, a, r\<rangle>"
  by (cases t) auto

text \<open>A refinement step: the call returns a store that holds \<open>t\<close>, and touches no other node.\<close>

definition yields :: "avl_heap \<Rightarrow> ptr \<Rightarrow> addr tree \<Rightarrow> (avl_heap \<times> addr) option \<Rightarrow> bool" where
  "yields h par t res \<longleftrightarrow> (\<exists>h' x. res = Some (h', x) \<and> root_ptr t = Some x \<and> tree_at h' par t
     \<and> (\<forall>y. y \<notin> set_tree t \<longrightarrow> h' y = h y))"

lemma rot_left_yields:
  assumes "stale_at h par A a \<langle>B, b, C\<rangle>" "fits \<langle>A, a, \<langle>B, b, C\<rangle>\<rangle>"
  shows "yields h par (rotl \<langle>A, a, \<langle>B, b, C\<rangle>\<rangle>) (rot_left h a)"
  using rot_left_at [OF assms] by (auto simp: yields_def)

lemma rot_right_yields:
  assumes "stale_at h par \<langle>A, a, B\<rangle> b C" "fits \<langle>\<langle>A, a, B\<rangle>, b, C\<rangle>"
  shows "yields h par (rotr \<langle>\<langle>A, a, B\<rangle>, b, C\<rangle>) (rot_right h b)"
  using rot_right_at [OF assms] by (auto simp: yields_def)

lemma of_nat_height_less:
  "fits t \<Longrightarrow> fits u \<Longrightarrow> (of_nat (height t) :: u32) < of_nat (height u) \<longleftrightarrow> height t < height u"
  using fits_height [of t] fits_height [of u] by (simp add: word_less_nat_alt of_nat_inverse)

lemma avl_fix_left_yields:
  assumes at: "tree_at h par \<langle>l, a, r\<rangle>" and fi: "fits \<langle>l, a, r\<rangle>" and "height l = height r + 2"
  shows "yields h par (bal_left l a r) (avl_fix_left h a)"
proof -
  note sub = fits_subtrees [OF fi]
  from height_pos [of l] assms(3) obtain ll b lr where l: "l = \<langle>ll, b, lr\<rangle>" by auto
  note subl = fits_subtrees [OF sub(1) [unfolded l]]
  have tl: "tree_at h (Some a) l" and hb: "h b = Some (node_rec (Some a) ll lr)"
    and tll: "tree_at h (Some b) ll" and tlr: "tree_at h (Some b) lr"
    using at l by auto
  have less: "(of_nat (height ll) :: u32) < of_nat (height lr) \<longleftrightarrow> height ll < height lr"
    by (rule of_nat_height_less) (use subl in auto)
  show ?thesis
  proof (cases "height ll < height lr")
    case False
    have "yields h par (rotr \<langle>\<langle>ll, b, lr\<rangle>, a, r\<rangle>) (rot_right h a)"
      using at fi l by (intro rot_right_yields) (auto intro: tree_at_stale)
    with False at l less show ?thesis
      by (simp add: avl_fix_left_def bal_left_def avl_height_at [OF tll] avl_height_at [OF tlr])
  next
    case True
    with height_pos [of lr] obtain B c C where lr: "lr = \<langle>B, c, C\<rangle>" by auto
    have sb: "stale_at h (Some a) ll b \<langle>B, c, C\<rangle>"
      using tl l lr by (auto intro: tree_at_stale)
    have fb: "fits \<langle>ll, b, \<langle>B, c, C\<rangle>\<rangle>" using sub(1) l lr by simp
    from rot_left_at [OF sb fb] obtain h1 where
      h1: "rot_left h b = Some (h1, c)" "tree_at h1 (Some a) \<langle>\<langle>ll, b, B\<rangle>, c, C\<rangle>"
        "\<forall>x. x \<notin> set_tree l \<longrightarrow> h1 x = h x"
      using l lr by auto
    have ha: "h1 a = Some (node_rec par l r)" and tr: "tree_at h1 (Some a) r"
      using h1(3) at sub tree_at_frame [OF h1(3), of r] by (auto simp: Int_commute)
    let ?h2 = "h1(a \<mapsto> (node_rec par l r)\<lparr>left_p := Some c\<rparr>)"
    have st: "stale_at ?h2 par \<langle>\<langle>ll, b, B\<rangle>, c, C\<rangle> a r"
      using h1(2) tr sub l lr by (auto simp: stale_at_def)
    have ft: "fits \<langle>\<langle>\<langle>ll, b, B\<rangle>, c, C\<rangle>, a, r\<rangle>"
      using fi l lr fits_inorder [of "\<langle>\<langle>\<langle>ll, b, B\<rangle>, c, C\<rangle>, a, r\<rangle>" "\<langle>l, a, r\<rangle>"] by simp
    have bl: "bal_left l a r = rotr \<langle>\<langle>\<langle>ll, b, B\<rangle>, c, C\<rangle>, a, r\<rangle>"
      using True l lr by (simp add: bal_left_def)
    have "yields ?h2 par (bal_left l a r) (rot_right ?h2 a)"
      unfolding bl by (rule rot_right_yields [OF st ft])
    moreover have "?h2 x = h x" if "x \<notin> set_tree (bal_left l a r)" for x
      using that [unfolded bl] h1(3) l lr by auto
    moreover have "avl_fix_left h a = rot_right ?h2 a"
      using at l True less h1(1) ha
      by (simp add: avl_fix_left_def avl_height_at [OF tll] avl_height_at [OF tlr])
    ultimately show ?thesis by (auto simp: yields_def)
  qed
qed

lemma avl_fix_right_yields:
  assumes at: "tree_at h par \<langle>l, a, r\<rangle>" and fi: "fits \<langle>l, a, r\<rangle>" and "height l + 2 = height r"
  shows "yields h par (bal_right l a r) (avl_fix_right h a)"
proof -
  note sub = fits_subtrees [OF fi]
  from height_pos [of r] assms(3) obtain rl b rr where r: "r = \<langle>rl, b, rr\<rangle>" by auto
  note subr = fits_subtrees [OF sub(2) [unfolded r]]
  have tr: "tree_at h (Some a) r" and hb: "h b = Some (node_rec (Some a) rl rr)"
    and trl: "tree_at h (Some b) rl" and trr: "tree_at h (Some b) rr"
    using at r by auto
  have less: "(of_nat (height rr) :: u32) < of_nat (height rl) \<longleftrightarrow> height rr < height rl"
    by (rule of_nat_height_less) (use subr in auto)
  show ?thesis
  proof (cases "height rr < height rl")
    case False
    have "yields h par (rotl \<langle>l, a, \<langle>rl, b, rr\<rangle>\<rangle>) (rot_left h a)"
      using at fi r by (intro rot_left_yields) (auto intro: tree_at_stale)
    with False at r less show ?thesis
      by (simp add: avl_fix_right_def bal_right_def avl_height_at [OF trl] avl_height_at [OF trr])
  next
    case True
    with height_pos [of rl] obtain B c C where rl: "rl = \<langle>B, c, C\<rangle>" by auto
    have sb: "stale_at h (Some a) \<langle>B, c, C\<rangle> b rr"
      using tr r rl by (auto intro: tree_at_stale)
    have fb: "fits \<langle>\<langle>B, c, C\<rangle>, b, rr\<rangle>" using sub(2) r rl by simp
    from rot_right_at [OF sb fb] obtain h1 where
      h1: "rot_right h b = Some (h1, c)" "tree_at h1 (Some a) \<langle>B, c, \<langle>C, b, rr\<rangle>\<rangle>"
        "\<forall>x. x \<notin> set_tree r \<longrightarrow> h1 x = h x"
      using r rl by auto
    have ha: "h1 a = Some (node_rec par l r)" and tl: "tree_at h1 (Some a) l"
      using h1(3) at sub tree_at_frame [OF h1(3), of l] by auto
    let ?h2 = "h1(a \<mapsto> (node_rec par l r)\<lparr>right_p := Some c\<rparr>)"
    have st: "stale_at ?h2 par l a \<langle>B, c, \<langle>C, b, rr\<rangle>\<rangle>"
      using h1(2) tl sub r rl by (auto simp: stale_at_def)
    have ft: "fits \<langle>l, a, \<langle>B, c, \<langle>C, b, rr\<rangle>\<rangle>\<rangle>"
      using fi r rl fits_inorder [of "\<langle>l, a, \<langle>B, c, \<langle>C, b, rr\<rangle>\<rangle>\<rangle>" "\<langle>l, a, r\<rangle>"] by simp
    have bl: "bal_right l a r = rotl \<langle>l, a, \<langle>B, c, \<langle>C, b, rr\<rangle>\<rangle>\<rangle>"
      using True r rl by (simp add: bal_right_def)
    have "yields ?h2 par (bal_right l a r) (rot_left ?h2 a)"
      unfolding bl by (rule rot_left_yields [OF st ft])
    moreover have "?h2 x = h x" if "x \<notin> set_tree (bal_right l a r)" for x
      using that [unfolded bl] h1(3) r rl by auto
    moreover have "avl_fix_right h a = rot_left ?h2 a"
      using at r True less h1(1) ha
      by (simp add: avl_fix_right_def avl_height_at [OF trl] avl_height_at [OF trr])
    ultimately show ?thesis by (auto simp: yields_def)
  qed
qed

section \<open>Trees with a hole\<close>

text \<open>One step from a hole towards the root: the hole is a left or a right child.\<close>

datatype frame = InLeft addr "addr tree" | InRight "addr tree" addr

fun frame_addr :: "frame \<Rightarrow> addr" where
  "frame_addr (InLeft q r) = q"
| "frame_addr (InRight l q) = q"

fun plug :: "frame \<Rightarrow> addr tree \<Rightarrow> addr tree" where
  "plug (InLeft q r) t = \<langle>t, q, r\<rangle>"
| "plug (InRight l q) t = \<langle>l, q, t\<rangle>"

fun root_fix :: "'a tree \<Rightarrow> 'a tree" where
  "root_fix \<langle>\<rangle> = \<langle>\<rangle>"
| "root_fix \<langle>l, a, r\<rangle> = tree_fix l a r"

text \<open>A path of frames, innermost first.\<close>

fun fill :: "frame list \<Rightarrow> addr tree \<Rightarrow> addr tree" where
  "fill [] t = t"
| "fill (f # C) t = fill C (plug f t)"

fun fix_up :: "frame list \<Rightarrow> addr tree \<Rightarrow> addr tree" where
  "fix_up [] t = t"
| "fix_up (f # C) t = fix_up C (root_fix (plug f t))"

fun ctx_par :: "frame list \<Rightarrow> ptr" where
  "ctx_par [] = None"
| "ctx_par (f # C) = Some (frame_addr f)"

text \<open>The links of a frame, when the hole holds a tree with root pointer \<open>p\<close>.\<close>

fun frame_at :: "avl_heap \<Rightarrow> ptr \<Rightarrow> ptr \<Rightarrow> frame \<Rightarrow> bool" where
  "frame_at h par p (InLeft q r) \<longleftrightarrow>
     (\<exists>n. h q = Some n \<and> parent_p n = par \<and> left_p n = p \<and> right_p n = root_ptr r)
     \<and> tree_at h (Some q) r"
| "frame_at h par p (InRight l q) \<longleftrightarrow>
     (\<exists>n. h q = Some n \<and> parent_p n = par \<and> left_p n = root_ptr l \<and> right_p n = p)
     \<and> tree_at h (Some q) l"

fun ctx_at :: "avl_heap \<Rightarrow> ptr \<Rightarrow> frame list \<Rightarrow> bool" where
  "ctx_at h p [] \<longleftrightarrow> True"
| "ctx_at h p (f # C) \<longleftrightarrow> frame_at h (ctx_par C) p f \<and> ctx_at h (Some (frame_addr f)) C"

fun frame_set :: "frame \<Rightarrow> addr set" where
  "frame_set (InLeft q r) = insert q (set_tree r)"
| "frame_set (InRight l q) = insert q (set_tree l)"

definition ctx_set :: "frame list \<Rightarrow> addr set" where
  "ctx_set C = (\<Union>f \<in> set C. frame_set f)"

lemma ctx_set_simps [simp]: "ctx_set [] = {}" "ctx_set (f # C) = frame_set f \<union> ctx_set C"
  by (simp_all add: ctx_set_def)

lemma set_tree_plug [simp]: "set_tree (plug f t) = frame_set f \<union> set_tree t"
  by (cases f) auto

lemma set_tree_fill [simp]: "set_tree (fill C t) = ctx_set C \<union> set_tree t"
  by (induction C arbitrary: t) auto

lemma root_plug [simp]: "root_ptr (plug f t) = Some (frame_addr f)"
  by (cases f) auto

lemma inorder_plug_cong: "inorder t = inorder t' \<Longrightarrow> inorder (plug f t) = inorder (plug f t')"
  by (cases f) auto

lemma inorder_fill_cong: "inorder t = inorder t' \<Longrightarrow> inorder (fill C t) = inorder (fill C t')"
proof (induction C arbitrary: t t')
  case (Cons f C)
  show ?case using Cons.IH [OF inorder_plug_cong [OF Cons.prems]] by simp
qed simp

lemma inorder_root_fix [simp]: "inorder (root_fix t) = inorder t"
  by (cases t) auto

lemma inorder_fix_up: "inorder (fix_up C t) = inorder (fill C t)"
proof (induction C arbitrary: t)
  case (Cons f C)
  show ?case
    using Cons.IH [of "root_fix (plug f t)"] inorder_fill_cong [OF inorder_root_fix] by simp
qed simp

lemma frame_at_cong:
  "(\<And>a. a \<in> frame_set f \<Longrightarrow> h' a = h a) \<Longrightarrow> frame_at h' par p f = frame_at h par p f"
  by (cases f) (auto simp: tree_at_cong [of _ h' h])

lemma frame_at_frame:
  "\<forall>x. x \<notin> S \<longrightarrow> h' x = h x \<Longrightarrow> frame_set f \<inter> S = {} \<Longrightarrow>
   frame_at h' par p f = frame_at h par p f"
  by (rule frame_at_cong) auto

lemma frame_addr_in: "frame_addr f \<in> frame_set f"
  by (cases f) auto

lemma ctx_at_cong:
  "(\<And>a. a \<in> ctx_set C \<Longrightarrow> h' a = h a) \<Longrightarrow> ctx_at h' p C = ctx_at h p C"
proof (induction C arbitrary: p)
  case (Cons f C)
  then show ?case using frame_at_cong [of f h' h] by simp
qed simp

lemma ctx_at_frame:
  "\<forall>x. x \<notin> S \<longrightarrow> h' x = h x \<Longrightarrow> ctx_set C \<inter> S = {} \<Longrightarrow> ctx_at h' p C = ctx_at h p C"
  by (rule ctx_at_cong) auto

lemma fits_sub:
  assumes "fits (fill C t)"
  shows "fits t \<and> ctx_set C \<inter> set_tree t = {}"
  using assms
proof (induction C arbitrary: t)
  case (Cons f C)
  have "fits (plug f t) \<and> ctx_set C \<inter> set_tree (plug f t) = {}"
    using Cons.IH [of "plug f t"] Cons.prems by simp
  then show ?case by (cases f) (auto simp: fits_def)
qed simp

section \<open>The rebalancing loop\<close>

lemma yields_tree_fix:
  assumes "tree_at h par \<langle>l, a, r\<rangle>" "fits \<langle>l, a, r\<rangle>"
  shows "yields h par (tree_fix l a r)
    (if height l = height r + 2 then avl_fix_left h a
     else if height l + 2 = height r then avl_fix_right h a else Some (h, a))"
  using assms avl_fix_left_yields avl_fix_right_yields
  by (auto simp: tree_fix_def) (auto simp: yields_def)

lemma height_tests:
  assumes "fits l" "fits r"
  shows "(of_nat (height l) :: u32) = of_nat (height r) + 2 \<longleftrightarrow> height l = height r + 2"
    and "(of_nat (height l) :: u32) + 2 = of_nat (height r) \<longleftrightarrow> height l + 2 = height r"
proof -
  have b: "height l < 2 ^ LENGTH(32)" "height r < 2 ^ LENGTH(32)"
    "height l + 2 < 2 ^ LENGTH(32)" "height r + 2 < 2 ^ LENGTH(32)"
    using fits_height [OF assms(1)] fits_height [OF assms(2)] by simp_all
  show "(of_nat (height l) :: u32) = of_nat (height r) + 2 \<longleftrightarrow> height l = height r + 2"
    using of_nat_word_inj [OF b(1,4)] by (simp only: of_nat_add of_nat_numeral)
  show "(of_nat (height l) :: u32) + 2 = of_nat (height r) \<longleftrightarrow> height l + 2 = height r"
    using of_nat_word_inj [OF b(3,2)] by (simp only: of_nat_add of_nat_numeral)
qed

fun slot_of :: "frame \<Rightarrow> slot" where
  "slot_of (InLeft q r) = LeftOf q"
| "slot_of (InRight l q) = RightOf q"

lemma child_slot_frame:
  assumes "frame_at h par (Some a) f" "a \<notin> frame_set f"
  shows "child_slot h (frame_addr f) a = Some (slot_of f)"
  using assms by (cases f) (auto simp: child_slot_def dest: root_ptr_in)

lemma put_slot_frame:
  assumes "frame_at h par p f" "fits (plug f t)"
  shows "\<exists>h'. put_slot h v (slot_of f) p' = Some (h', v) \<and> frame_at h' par p' f
    \<and> (\<forall>x. x \<noteq> frame_addr f \<longrightarrow> h' x = h x)"
  using assms by (cases f) (auto simp: fits_def)

text \<open>
  The middle of the loop body, where \<open>node\<close> is rebalanced and stored through \<open>from\<close>: at the
  root, and below a frame.
\<close>

abbreviation fix_block :: "avl_heap \<Rightarrow> addr \<Rightarrow> u32 \<Rightarrow> u32 \<Rightarrow> slot \<Rightarrow> (avl_heap \<times> ptr) option" where
  "fix_block h node left_height right_height from \<equiv>
     (if left_height = right_height + 2 then do {
        (h, x) \<leftarrow> avl_fix_left h node;
        put_slot h (Some node) from (Some x)
      }
      else if left_height + 2 = right_height then do {
        (h, x) \<leftarrow> avl_fix_right h node;
        put_slot h (Some node) from (Some x)
      }
      else Some (h, Some node))"

lemma fix_block_root:
  assumes "tree_at h par \<langle>l, a, r\<rangle>" "fits \<langle>l, a, r\<rangle>"
  shows "\<exists>h'. fix_block h a (of_nat (height l)) (of_nat (height r)) Var
      = Some (h', root_ptr (tree_fix l a r)) \<and> tree_at h' par (tree_fix l a r)
      \<and> (\<forall>x. x \<notin> set_tree \<langle>l, a, r\<rangle> \<longrightarrow> h' x = h x)"
  using yields_tree_fix [OF assms] height_tests [OF fits_subtrees(1,2) [OF assms(2)]]
    set_tree_inorder [of "tree_fix l a r" "\<langle>l, a, r\<rangle>"]
  by (auto simp: yields_def split: if_splits)

lemma fix_block_frame:
  assumes at: "tree_at h par \<langle>l, a, r\<rangle>" and fi: "fits (plug f \<langle>l, a, r\<rangle>)"
    and fr: "frame_at h par' (Some a) f"
  shows "\<exists>h' v. fix_block h a (of_nat (height l)) (of_nat (height r)) (slot_of f) = Some (h', v)
      \<and> tree_at h' par (tree_fix l a r) \<and> frame_at h' par' (root_ptr (tree_fix l a r)) f
      \<and> (\<forall>x. x \<notin> set_tree (plug f \<langle>l, a, r\<rangle>) \<longrightarrow> h' x = h x)"
proof -
  have fit: "fits \<langle>l, a, r\<rangle>" and dis: "frame_set f \<inter> set_tree \<langle>l, a, r\<rangle> = {}"
    using fits_sub [of "[f]" "\<langle>l, a, r\<rangle>"] fi by auto
  have st: "set_tree (tree_fix l a r) = set_tree \<langle>l, a, r\<rangle>"
    by (rule set_tree_inorder) simp
  show ?thesis
  proof (cases "height l = height r + 2 \<or> height l + 2 = height r")
    case False
    with height_tests [OF fits_subtrees(1,2) [OF fit]] at fr show ?thesis
      by (simp add: tree_fix_def)
  next
    case True
    let ?fix = "if height l = height r + 2 then avl_fix_left h a else avl_fix_right h a"
    from yields_tree_fix [OF at fit] True obtain h1 x where
      h1: "?fix = Some (h1, x)" "root_ptr (tree_fix l a r) = Some x"
        "tree_at h1 par (tree_fix l a r)" "\<forall>y. y \<notin> set_tree \<langle>l, a, r\<rangle> \<longrightarrow> h1 y = h y"
      unfolding yields_def st by (auto split: if_splits)
    have "frame_at h1 par' (Some a) f"
      using fr frame_at_frame [OF h1(4) dis] by simp
    from put_slot_frame [OF this fi] obtain h2 where
      h2: "put_slot h1 (Some a) (slot_of f) (Some x) = Some (h2, Some a)" "frame_at h2 par' (Some x) f"
        "\<forall>y. y \<noteq> frame_addr f \<longrightarrow> h2 y = h1 y"
      by blast
    have "tree_at h2 par (tree_fix l a r)"
      using h1(3) h2(3) dis frame_addr_in [of f] st
      by (subst tree_at_frame [where S = "{frame_addr f}" and h = h1]) auto
    moreover have "fix_block h a (of_nat (height l)) (of_nat (height r)) (slot_of f) = Some (h2, Some a)"
      using True h1(1) h2(1) height_tests [OF fits_subtrees(1,2) [OF fit]] by (auto split: if_splits)
    moreover have "\<forall>y. y \<notin> set_tree (plug f \<langle>l, a, r\<rangle>) \<longrightarrow> h2 y = h y"
      using h1(4) h2(3) frame_addr_in [of f] by auto
    ultimately show ?thesis using h1(2) h2(2) by auto
  qed
qed

text \<open>
  The state in which \<open>avl_fix_tree\<close> is called on the root of \<open>t\<close>, somewhere in a tree: all links
  are right, the statistics of the subtrees hanging off the path are right, and nothing is known
  of the statistics on the path.
\<close>

fun stale_tree :: "avl_heap \<Rightarrow> ptr \<Rightarrow> addr tree \<Rightarrow> bool" where
  "stale_tree h par \<langle>\<rangle> \<longleftrightarrow> False"
| "stale_tree h par \<langle>l, a, r\<rangle> \<longleftrightarrow> stale_at h par l a r"

definition fixable :: "avl_heap \<Rightarrow> frame list \<Rightarrow> addr tree \<Rightarrow> bool" where
  "fixable h C t \<longleftrightarrow>
     stale_tree h (ctx_par C) t \<and> ctx_at h (root_ptr t) C \<and> fits (fill C t)"

lemma stale_tree_plug:
  "frame_at h par (root_ptr t) f \<Longrightarrow> tree_at h (Some (frame_addr f)) t \<Longrightarrow> stale_tree h par (plug f t)"
  by (cases f) (auto simp: stale_at_def)

lemma tree_at_stale_tree: "tree_at h par t \<Longrightarrow> t \<noteq> \<langle>\<rangle> \<Longrightarrow> stale_tree h par t"
  by (cases t) (auto simp: stale_at_def)

lemma stale_fresh:
  assumes st: "stale_at h par l a r" and fi: "fits \<langle>l, a, r\<rangle>"
  defines "h1 \<equiv> h(a \<mapsto> node_rec par l r)"
  shows "tree_at h1 par \<langle>l, a, r\<rangle>" "avl_height h1 (root_ptr l) = Some (of_nat (height l))"
    "avl_height h1 (root_ptr r) = Some (of_nat (height r))"
proof -
  show at: "tree_at h1 par \<langle>l, a, r\<rangle>"
    using st fits_subtrees [OF fi] by (simp add: stale_at_def h1_def)
  then show "avl_height h1 (root_ptr l) = Some (of_nat (height l))"
    "avl_height h1 (root_ptr r) = Some (of_nat (height r))"
    by (auto dest: avl_height_at)
qed

text \<open>One turn of the loop below a parent: the subtree is fixed and the parent becomes the stale node.\<close>

lemma avl_fix_tree_step:
  assumes fx: "fixable h (f # C) \<langle>l, a, r\<rangle>"
  shows "\<exists>h2. avl_fix_tree h a = avl_fix_tree h2 (frame_addr f) \<and> fixable h2 C (plug f (tree_fix l a r))
    \<and> (\<forall>x. x \<notin> set_tree (plug f \<langle>l, a, r\<rangle>) \<longrightarrow> h2 x = h x)"
proof -
  let ?q = "frame_addr f" and ?t = "tree_fix l a r"
  from fx have st: "stale_at h (Some ?q) l a r" and fr: "frame_at h (ctx_par C) (Some a) f"
    and ctx: "ctx_at h (Some ?q) C" and fiC: "fits (fill C (plug f \<langle>l, a, r\<rangle>))"
    by (auto simp: fixable_def)
  from fits_sub [OF fiC] have fip: "fits (plug f \<langle>l, a, r\<rangle>)"
    and disC: "ctx_set C \<inter> set_tree (plug f \<langle>l, a, r\<rangle>) = {}" by auto
  from fits_sub [of "[f]" "\<langle>l, a, r\<rangle>"] fip have fi: "fits \<langle>l, a, r\<rangle>"
    and disf: "frame_set f \<inter> set_tree \<langle>l, a, r\<rangle> = {}" by auto
  let ?h1 = "h(a \<mapsto> node_rec (Some ?q) l r)"
  note at = stale_fresh [OF st fi]
  have fr1: "frame_at ?h1 (ctx_par C) (Some a) f"
    using fr disf by (subst frame_at_frame [where S = "{a}" and h = h]) auto
  from fix_block_frame [OF at(1) fip fr1] obtain h2 v where
    blk: "fix_block ?h1 a (of_nat (height l)) (of_nat (height r)) (slot_of f) = Some (h2, v)" and
    t2: "tree_at h2 (Some ?q) ?t" and f2: "frame_at h2 (ctx_par C) (root_ptr ?t) f" and
    same: "\<forall>x. x \<notin> set_tree (plug f \<langle>l, a, r\<rangle>) \<longrightarrow> h2 x = ?h1 x"
    by blast
  have same': "\<forall>x. x \<notin> set_tree (plug f \<langle>l, a, r\<rangle>) \<longrightarrow> h2 x = h x" using same by auto
  have "inorder (fill C (plug f ?t)) = inorder (fill C (plug f \<langle>l, a, r\<rangle>))"
    by (intro inorder_fill_cong inorder_plug_cong) simp
  from fits_inorder [OF this] have "fixable h2 C (plug f ?t)"
    unfolding fixable_def using stale_tree_plug [OF f2 t2] ctx ctx_at_frame [OF same' disC] fiC by simp
  moreover have "rd h parent_p a = Some (Some ?q)" using st by (auto simp: stale_at_def)
  moreover have "child_slot h ?q a = Some (slot_of f)" using fr disf by (intro child_slot_frame) auto
  ultimately show ?thesis
    using avl_update_stats_at [OF st fi] at(2,3) blk same' by (subst avl_fix_tree.simps) auto
qed

lemma avl_fix_tree_at:
  assumes "fixable h C t" "root_ptr t = Some a"
  shows "\<exists>h'. avl_fix_tree h a = Some (h', root_ptr (fix_up C (root_fix t)))
    \<and> tree_at h' None (fix_up C (root_fix t)) \<and> (\<forall>x. x \<notin> set_tree (fill C t) \<longrightarrow> h' x = h x)"
  using assms
proof (induction C arbitrary: h t a)
  case Nil
  then obtain l r where t: "t = \<langle>l, a, r\<rangle>" by (cases t) auto
  with Nil have st: "stale_at h None l a r" and fi: "fits \<langle>l, a, r\<rangle>"
    by (simp_all add: fixable_def)
  note at = stale_fresh [OF st fi]
  have "rd h parent_p a = Some None" using st by (auto simp: stale_at_def)
  with fix_block_root [OF at(1) fi] avl_update_stats_at [OF st fi] at(2,3) show ?case
    by (subst avl_fix_tree.simps) (auto simp: t)
next
  case (Cons f C)
  then obtain l r where t: "t = \<langle>l, a, r\<rangle>" by (cases t) auto
  let ?t = "tree_fix l a r"
  from avl_fix_tree_step [OF Cons.prems(1) [unfolded t]] obtain h2 where
    h2: "avl_fix_tree h a = avl_fix_tree h2 (frame_addr f)" "fixable h2 C (plug f ?t)"
      "\<forall>x. x \<notin> set_tree (plug f \<langle>l, a, r\<rangle>) \<longrightarrow> h2 x = h x"
    by blast
  from Cons.IH [OF h2(2), of "frame_addr f"] obtain h' where
    h': "avl_fix_tree h2 (frame_addr f) = Some (h', root_ptr (fix_up C (root_fix (plug f ?t))))"
      "tree_at h' None (fix_up C (root_fix (plug f ?t)))"
      "\<forall>x. x \<notin> set_tree (fill C (plug f ?t)) \<longrightarrow> h' x = h2 x"
    by auto
  have "\<forall>x. x \<notin> set_tree (fill (f # C) t) \<longrightarrow> h' x = h x"
    using h'(3) h2(3) set_tree_inorder [of ?t "\<langle>l, a, r\<rangle>"] t by simp
  with h' h2(1) show ?case using t by auto
qed

end
