(* ===== verification/AVL_Ops.thy ===== *)
theory AVL_Ops
  imports AVL_Shape
begin

text \<open>
  The operations of the AVL tree. For a store that holds a balanced tree \<open>t\<close>: attaching a new
  leaf and rebalancing, \<open>avl_delete\<close> of any node, and \<open>avl_offset\<close> from any node return, leave a
  balanced tree, and act on the inorder sequence of addresses as insertion, removal and indexing.
\<close>

section \<open>Balance\<close>

fun bal :: "'a tree \<Rightarrow> bool" where
  "bal \<langle>\<rangle> \<longleftrightarrow> True"
| "bal \<langle>l, a, r\<rangle> \<longleftrightarrow> height l \<le> height r + 1 \<and> height r \<le> height l + 1 \<and> bal l \<and> bal r"

definition near :: "nat \<Rightarrow> nat \<Rightarrow> bool" where
  "near m n \<longleftrightarrow> m \<le> n + 1 \<and> n \<le> m + 1"

lemma bal_left_bal:
  assumes "bal l" "bal r" "height l = height r + 2"
  shows "bal (bal_left l a r) \<and> (height (bal_left l a r) = height l \<or> height (bal_left l a r) = height l + 1)"
proof -
  from assms(3) height_pos [of l] obtain ll b lr where l: "l = \<langle>ll, b, lr\<rangle>" by auto
  show ?thesis
  proof (cases "height ll < height lr")
    case False
    with l assms show ?thesis by (auto simp: bal_left_def max_def)
  next
    case True
    then obtain B c D where "lr = \<langle>B, c, D\<rangle>" using height_pos [of lr] by auto
    with l assms True show ?thesis by (auto simp: bal_left_def max_def split: if_splits)
  qed
qed

lemma bal_right_bal:
  assumes "bal l" "bal r" "height l + 2 = height r"
  shows "bal (bal_right l a r) \<and> (height (bal_right l a r) = height r \<or> height (bal_right l a r) = height r + 1)"
proof -
  from assms(3) height_pos [of r] obtain rl b rr where r: "r = \<langle>rl, b, rr\<rangle>" by auto
  show ?thesis
  proof (cases "height rr < height rl")
    case False
    with r assms show ?thesis by (auto simp: bal_right_def max_def)
  next
    case True
    then obtain B c D where "rl = \<langle>B, c, D\<rangle>" using height_pos [of rl] by auto
    with r assms True show ?thesis by (auto simp: bal_right_def max_def split: if_splits)
  qed
qed

lemma tree_fix_bal:
  assumes "bal l" "bal r" "height l \<le> height r + 2" "height r \<le> height l + 2"
  shows "bal (tree_fix l a r)
    \<and> max (height l) (height r) \<le> height (tree_fix l a r)
    \<and> height (tree_fix l a r) \<le> max (height l) (height r) + 1"
  using assms bal_left_bal [of l r a] bal_right_bal [of l r a]
  by (auto simp: tree_fix_def)

text \<open>
  One step of the loop restores balance at a node one of whose subtrees has grown or shrunk by at
  most one, and the height of the whole changes by at most one: insertion and deletion alike.
\<close>

lemma root_fix_near:
  assumes "bal (plug f t0)" "bal t" "near (height t) (height t0)"
  shows "bal (root_fix (plug f t)) \<and> near (height (root_fix (plug f t))) (height (plug f t0))"
proof (cases f)
  case (InLeft q r)
  with assms have "height t \<le> height r + 2" "height r \<le> height t + 2" "bal r"
    by (auto simp: near_def)
  with tree_fix_bal [of t r q] assms InLeft show ?thesis
    by (auto simp: near_def tree_fix_def max_def split: if_splits)
next
  case (InRight l q)
  with assms have "height t \<le> height l + 2" "height l \<le> height t + 2" "bal l"
    by (auto simp: near_def)
  with tree_fix_bal [of l t q] assms InRight show ?thesis
    by (auto simp: near_def tree_fix_def max_def split: if_splits)
qed

lemma bal_fill: "bal (fill C t) \<Longrightarrow> bal t"
proof (induction C arbitrary: t)
  case (Cons f C)
  then have "bal (plug f t)" by simp
  then show ?case by (cases f) auto
qed simp

lemma bal_fill_cong:
  "height t = height t' \<Longrightarrow> bal t = bal t' \<Longrightarrow> bal (fill C t) = bal (fill C t')"
proof (induction C arbitrary: t t')
  case (Cons f C)
  have "height (plug f t) = height (plug f t')" "bal (plug f t) = bal (plug f t')"
    using Cons.prems by (cases f; simp)+
  from Cons.IH [OF this] show ?case by simp
qed simp

lemma bal_fix_up:
  "bal (fill C t0) \<Longrightarrow> bal t \<Longrightarrow> near (height t) (height t0) \<Longrightarrow> bal (fix_up C t)"
proof (induction C arbitrary: t t0)
  case (Cons f C)
  have "bal (plug f t0)" using Cons.prems(1) bal_fill by simp
  from root_fix_near [OF this Cons.prems(2,3)] Cons.IH [of "plug f t0" "root_fix (plug f t)"]
    Cons.prems(1)
  show ?case by simp
qed simp

section \<open>Splitting a tree at a node\<close>

fun ctx_pre :: "frame list \<Rightarrow> addr list" where
  "ctx_pre [] = []"
| "ctx_pre (InLeft q r # C) = ctx_pre C"
| "ctx_pre (InRight l q # C) = ctx_pre C @ inorder l @ [q]"

fun ctx_post :: "frame list \<Rightarrow> addr list" where
  "ctx_post [] = []"
| "ctx_post (InLeft q r # C) = q # inorder r @ ctx_post C"
| "ctx_post (InRight l q # C) = ctx_post C"

lemma inorder_fill: "inorder (fill C t) = ctx_pre C @ inorder t @ ctx_post C"
proof (induction C arbitrary: t)
  case (Cons f C)
  then show ?case by (cases f) auto
qed simp

lemma fill_append: "fill (D @ C) t = fill C (fill D t)"
  by (induction D arbitrary: t) auto

lemma split_at: "a \<in> set_tree t \<Longrightarrow> \<exists>C l r. t = fill C \<langle>l, a, r\<rangle>"
proof (induction t)
  case (Node l x r)
  consider "a = x" | "a \<in> set_tree l" | "a \<in> set_tree r" using Node.prems by auto
  then show ?case
  proof cases
    case 1
    then show ?thesis by (intro exI [of _ "[]"]) auto
  next
    case 2
    with Node.IH(1) obtain C l' r' where "l = fill C \<langle>l', a, r'\<rangle>" by blast
    then have "\<langle>l, x, r\<rangle> = fill (C @ [InLeft x r]) \<langle>l', a, r'\<rangle>" by (simp add: fill_append)
    then show ?thesis by blast
  next
    case 3
    with Node.IH(2) obtain C l' r' where "r = fill C \<langle>l', a, r'\<rangle>" by blast
    then have "\<langle>l, x, r\<rangle> = fill (C @ [InRight l x]) \<langle>l', a, r'\<rangle>" by (simp add: fill_append)
    then show ?thesis by blast
  qed
qed simp

text \<open>The nodes on the path with right statistics, for the tree \<open>t\<close> in the hole.\<close>

fun ctx_full :: "avl_heap \<Rightarrow> addr tree \<Rightarrow> frame list \<Rightarrow> bool" where
  "ctx_full h t [] \<longleftrightarrow> True"
| "ctx_full h t (InLeft q r # C) \<longleftrightarrow>
     h q = Some (node_rec (ctx_par C) t r) \<and> tree_at h (Some q) r \<and> ctx_full h \<langle>t, q, r\<rangle> C"
| "ctx_full h t (InRight l q # C) \<longleftrightarrow>
     h q = Some (node_rec (ctx_par C) l t) \<and> tree_at h (Some q) l \<and> ctx_full h \<langle>l, q, t\<rangle> C"

lemma tree_at_fill: "tree_at h None (fill C t) \<longleftrightarrow> ctx_full h t C \<and> tree_at h (ctx_par C) t"
proof (induction C arbitrary: t)
  case (Cons f C)
  then show ?case by (cases f) auto
qed simp

lemma ctx_full_at: "ctx_full h t C \<Longrightarrow> ctx_at h (root_ptr t) C"
proof (induction C arbitrary: t)
  case (Cons f C)
  then show ?case by (cases f) fastforce+
qed simp

lemma ctx_full_cong:
  "root_ptr t = root_ptr t' \<Longrightarrow> height t = height t' \<Longrightarrow> size t = size t' \<Longrightarrow>
   ctx_full h t C = ctx_full h t' C"
proof (induction C arbitrary: t t')
  case (Cons f C)
  have eq: "node_rec par t r = node_rec par t' r" "node_rec par r t = node_rec par r t'" for par r
    using Cons.prems by (simp_all add: node_rec_def)
  have "ctx_full h (plug f t) C = ctx_full h (plug f t') C"
    using Cons.prems by (intro Cons.IH) (cases f; simp)+
  with eq show ?case by (cases f) simp_all
qed simp

lemma ctx_full_frame:
  assumes "\<forall>x. x \<notin> S \<longrightarrow> h' x = h x" "ctx_set C \<inter> S = {}"
  shows "ctx_full h' t C = ctx_full h t C"
  using assms(2)
proof (induction C arbitrary: t)
  case (Cons f C)
  have IH: "ctx_full h' u C = ctx_full h u C" for u
    using Cons.IH Cons.prems by (simp add: Int_Un_distrib2)
  show ?case
  proof (cases f)
    case (InLeft q r)
    with Cons.prems have "q \<notin> S" "set_tree r \<inter> S = {}" by auto
    with InLeft IH assms(1) tree_at_frame [OF assms(1), of r] show ?thesis by simp
  next
    case (InRight l q)
    with Cons.prems have "q \<notin> S" "set_tree l \<inter> S = {}" by auto
    with InRight IH assms(1) tree_at_frame [OF assms(1), of l] show ?thesis by simp
  qed
qed simp

lemma fixable_of_tree:
  "tree_at h None (fill C t) \<Longrightarrow> t \<noteq> \<langle>\<rangle> \<Longrightarrow> fits (fill C t) \<Longrightarrow> fixable h C t"
  by (auto simp: fixable_def tree_at_fill tree_at_stale_tree ctx_full_at)

section \<open>Attaching a leaf\<close>

text \<open>The path of a search that goes left at the nodes that satisfy \<open>g\<close>.\<close>

fun descend :: "(addr \<Rightarrow> bool) \<Rightarrow> addr tree \<Rightarrow> frame list \<Rightarrow> frame list" where
  "descend g \<langle>\<rangle> C = C"
| "descend g \<langle>l, a, r\<rangle> C =
     (if g a then descend g l (InLeft a r # C) else descend g r (InRight l a # C))"

fun slot_ctx :: "frame list \<Rightarrow> slot" where
  "slot_ctx [] = Var"
| "slot_ctx (f # C) = slot_of f"

lemma fill_descend: "fill (descend g t C) \<langle>\<rangle> = fill C t"
  by (induction t arbitrary: C) auto

lemma search_slot_at:
  "tree_at h (ctx_par C) t \<Longrightarrow>
   search_slot h g (root_ptr t) (ctx_par C) (slot_ctx C)
     = Some (ctx_par (descend g t C), slot_ctx (descend g t C))"
proof (induction t arbitrary: C)
  case Leaf
  then show ?case by (simp add: search_slot.simps)
next
  case (Node l a r)
  from Node.IH(1) [of "InLeft a r # C"] Node.IH(2) [of "InRight l a # C"] Node.prems
  show ?case by (subst search_slot.simps) auto
qed

lemma cut_left:
  assumes "g a"
  shows "takeWhile (\<lambda>x. \<not> g x) (xs @ a # ys) = takeWhile (\<lambda>x. \<not> g x) xs"
    and "dropWhile (\<lambda>x. \<not> g x) (xs @ a # ys) = dropWhile (\<lambda>x. \<not> g x) xs @ a # ys"
  using assms by (induction xs) auto

lemma cut_right:
  assumes "\<not> g a" "\<forall>x \<in> set xs. g x \<longrightarrow> g a"
  shows "takeWhile (\<lambda>x. \<not> g x) (xs @ a # ys) = xs @ a # takeWhile (\<lambda>x. \<not> g x) ys"
    and "dropWhile (\<lambda>x. \<not> g x) (xs @ a # ys) = dropWhile (\<lambda>x. \<not> g x) ys"
  using assms by (induction xs) auto

lemma sorted_wrt_node:
  assumes "sorted_wrt P (inorder \<langle>l, a, r\<rangle>)"
  shows "sorted_wrt P (inorder l)" "sorted_wrt P (inorder r)" "\<forall>x \<in> set (inorder l). P x a"
  using assms by (auto simp: sorted_wrt_append)

lemma descend_order:
  assumes "sorted_wrt (\<lambda>x y. g x \<longrightarrow> g y) (inorder t)"
  shows "ctx_pre (descend g t C) = ctx_pre C @ takeWhile (\<lambda>x. \<not> g x) (inorder t)
    \<and> ctx_post (descend g t C) = dropWhile (\<lambda>x. \<not> g x) (inorder t) @ ctx_post C"
  using assms
proof (induction t arbitrary: C)
  case (Node l a r)
  note s = sorted_wrt_node [OF Node.prems]
  show ?case
  proof (cases "g a")
    case True
    with Node.IH(1) [OF s(1), of "InLeft a r # C"] show ?thesis by (simp add: cut_left)
  next
    case False
    with Node.IH(2) [OF s(2), of "InRight l a # C"] show ?thesis
      by (simp add: cut_right [OF False s(3)])
  qed
qed simp

lemma put_slot_ctx:
  assumes "ctx_at h p C" "fits (fill C t)"
  shows "\<exists>h'. put_slot h v (slot_ctx C) p' = Some (h', if C = [] then p' else v) \<and> ctx_at h' p' C
    \<and> (\<forall>x. x \<notin> ctx_set C \<longrightarrow> h' x = h x)"
proof (cases C)
  case (Cons f C')
  from fits_sub [of C' "plug f t"] assms(2) Cons have fip: "fits (plug f t)"
    and dis: "ctx_set C' \<inter> frame_set f = {}" by auto
  from assms(1) Cons have "frame_at h (ctx_par C') p f" and ctx: "ctx_at h (Some (frame_addr f)) C'"
    by auto
  from put_slot_frame [OF this(1) fip] obtain h' where
    h': "put_slot h v (slot_of f) p' = Some (h', v)" "frame_at h' (ctx_par C') p' f"
      "\<forall>x. x \<noteq> frame_addr f \<longrightarrow> h' x = h x"
    by blast
  have "\<forall>x. x \<notin> {frame_addr f} \<longrightarrow> h' x = h x" using h'(3) by simp
  moreover have "ctx_set C' \<inter> {frame_addr f} = {}" using dis frame_addr_in [of f] by auto
  ultimately have "ctx_at h' (Some (frame_addr f)) C'"
    using ctx_at_frame ctx by blast
  moreover have "\<forall>x. x \<notin> ctx_set C \<longrightarrow> h' x = h x"
    using h'(3) Cons frame_addr_in [of f] by (metis UnI1 ctx_set_simps(2))
  ultimately show ?thesis using h' Cons by auto
qed simp

lemma fits_fill_leaf:
  "fits (fill C \<langle>\<rangle>) \<Longrightarrow> a \<notin> ctx_set C \<Longrightarrow> size (fill C \<langle>\<rangle>) + 3 < 2 ^ 32 \<Longrightarrow> fits (fill C \<langle>\<langle>\<rangle>, a, \<langle>\<rangle>\<rangle>)"
  unfolding fits_def length_inorder [symmetric]
  using set_tree_fill [of C "\<langle>\<rangle>"]
  by (auto simp: inorder_fill simp flip: set_inorder)

text \<open>
  Storing a fresh node in the slot the search found and rebalancing from there: the sequence that
  \<open>avl_search_and_insert\<close> and \<open>tree_insert\<close> of the sorted set share.
\<close>

lemma attach_at:
  assumes at: "tree_at h None t" and fi: "fits t" "size t + 3 < 2 ^ 32"
    and fresh: "a \<notin> set_tree t" and n: "h a = Some n" "left_p n = None" "right_p n = None"
    and C_def: "C = descend g t []"
  shows "\<exists>h1 h2 h3. search_slot h g (root_ptr t) None Var = Some (ctx_par C, slot_ctx C)
    \<and> put_slot h (root_ptr t) (slot_ctx C) (Some a) = Some (h1, if t = \<langle>\<rangle> then Some a else root_ptr t)
    \<and> wr h1 a (\<lambda>n. n\<lparr>parent_p := ctx_par C\<rparr>) = Some h2
    \<and> avl_fix_tree h2 a = Some (h3, root_ptr (fix_up C \<langle>\<langle>\<rangle>, a, \<langle>\<rangle>\<rangle>))
    \<and> tree_at h3 None (fix_up C \<langle>\<langle>\<rangle>, a, \<langle>\<rangle>\<rangle>)
    \<and> (\<forall>x. x \<noteq> a \<longrightarrow> x \<notin> set_tree t \<longrightarrow> h3 x = h x)"
proof -
  have fill: "fill C \<langle>\<rangle> = t" by (simp add: C_def fill_descend)
  have set: "ctx_set C = set_tree t" using set_tree_fill [of C "\<langle>\<rangle>"] fill by simp
  have emp: "C = [] \<longleftrightarrow> t = \<langle>\<rangle>"
    using fill set frame_addr_in [of "hd C"] by (cases C) auto
  have "ctx_at h None C" using ctx_full_at [of h "\<langle>\<rangle>" C] tree_at_fill [of h C "\<langle>\<rangle>"] at fill by simp
  from put_slot_ctx [OF this, of "\<langle>\<rangle>" "root_ptr t" "Some a"] fill fi emp obtain h1 where
    h1: "put_slot h (root_ptr t) (slot_ctx C) (Some a) = Some (h1, if t = \<langle>\<rangle> then Some a else root_ptr t)"
      "ctx_at h1 (Some a) C" "\<forall>x. x \<notin> set_tree t \<longrightarrow> h1 x = h x"
    unfolding set by auto
  let ?h2 = "h1(a \<mapsto> n\<lparr>parent_p := ctx_par C\<rparr>)"
  have "h1 a = Some n" using h1(3) fresh n by simp
  then have w: "wr h1 a (\<lambda>n. n\<lparr>parent_p := ctx_par C\<rparr>) = Some ?h2" by simp
  have "ctx_at ?h2 (Some a) C"
    using h1(2) fresh set by (subst ctx_at_frame [where S = "{a}" and h = h1]) auto
  with n fits_fill_leaf [of C a] fi fill set fresh have "fixable ?h2 C \<langle>\<langle>\<rangle>, a, \<langle>\<rangle>\<rangle>"
    by (simp add: fixable_def stale_at_def)
  from avl_fix_tree_at [OF this] obtain h3 where
    "avl_fix_tree ?h2 a = Some (h3, root_ptr (fix_up C \<langle>\<langle>\<rangle>, a, \<langle>\<rangle>\<rangle>))"
    "tree_at h3 None (fix_up C \<langle>\<langle>\<rangle>, a, \<langle>\<rangle>\<rangle>)" "\<forall>x. x \<notin> set_tree t \<union> {a} \<longrightarrow> h3 x = ?h2 x"
    by (auto simp: tree_fix_def set)
  moreover from this(3) h1(3) have "\<forall>x. x \<noteq> a \<longrightarrow> x \<notin> set_tree t \<longrightarrow> h3 x = h x" by simp
  moreover have "search_slot h g (root_ptr t) None Var = Some (ctx_par C, slot_ctx C)"
    using search_slot_at [of h "[]" t g] at by (simp add: C_def)
  ultimately show ?thesis using h1(1) w by blast
qed

lemma attach_tree:
  assumes "bal t" "sorted_wrt (\<lambda>x y. g x \<longrightarrow> g y) (inorder t)"
  shows "bal (fix_up (descend g t []) \<langle>\<langle>\<rangle>, a, \<langle>\<rangle>\<rangle>)
    \<and> inorder (fix_up (descend g t []) \<langle>\<langle>\<rangle>, a, \<langle>\<rangle>\<rangle>)
       = takeWhile (\<lambda>x. \<not> g x) (inorder t) @ a # dropWhile (\<lambda>x. \<not> g x) (inorder t)"
proof
  show "bal (fix_up (descend g t []) \<langle>\<langle>\<rangle>, a, \<langle>\<rangle>\<rangle>)"
    using assms(1) by (intro bal_fix_up [of _ "\<langle>\<rangle>"]) (simp_all add: fill_descend near_def)
qed (simp add: inorder_fix_up inorder_fill descend_order [OF assms(2), of "[]"])

lemma inserted_nodes:
  assumes "inorder t' = takeWhile P (inorder t) @ a # dropWhile P (inorder t)"
  shows "set_tree t' = insert a (set_tree t)" "distinct (inorder t') \<longleftrightarrow> a \<notin> set_tree t \<and> distinct (inorder t)"
proof -
  have ms: "mset (inorder t') = mset (a # inorder t)"
    unfolding assms by (metis mset.simps(2) mset_append takeWhile_dropWhile_id union_mset_add_mset_right)
  then show "set_tree t' = insert a (set_tree t)" by (metis list.simps(15) set_inorder set_mset_mset)
  show "distinct (inorder t') \<longleftrightarrow> a \<notin> set_tree t \<and> distinct (inorder t)" using mset_eq_imp_distinct_iff [OF ms] by simp
qed

text \<open>A node of the tree is its root when it has no parent.\<close>

lemma inner_parent: "tree_at h (Some p) t \<Longrightarrow> b \<in> set_tree t \<Longrightarrow> rd h parent_p b \<noteq> Some None"
  by (induction t arbitrary: p) (auto simp: node_rec_def)

lemma root_parent:
  assumes "tree_at h None t" "r \<in> set_tree t" "distinct (inorder t)"
  shows "rd h parent_p r = Some None \<longleftrightarrow> root_ptr t = Some r"
proof (cases t)
  case (Node l x u)
  with assms inner_parent [of h x l r] inner_parent [of h x u r] show ?thesis by (auto simp: node_rec_def)
qed (use assms in simp)

section \<open>Deletion\<close>

lemma fits_drop:
  assumes "fits (fill C \<langle>l, a, r\<rangle>)" "l = \<langle>\<rangle> \<or> r = \<langle>\<rangle>" "c = (if l \<noteq> \<langle>\<rangle> then l else r)"
  shows "fits (fill C c) \<and> a \<notin> set_tree (fill C c)"
proof -
  have "distinct (inorder (fill C \<langle>l, a, r\<rangle>))" "length (inorder (fill C \<langle>l, a, r\<rangle>)) + 2 < 2 ^ 32"
    using assms(1) by (simp_all add: fits_def)
  then have "distinct (inorder (fill C c)) \<and> length (inorder (fill C c)) + 2 < 2 ^ 32
      \<and> a \<notin> set (inorder (fill C c))"
    using assms(2,3) by (auto simp: inorder_fill simp del: length_inorder)
  then show ?thesis by (simp add: fits_def)
qed

lemma delete_one_child_at:
  assumes at: "tree_at h None (fill C \<langle>l, a, r\<rangle>)" and fi: "fits (fill C \<langle>l, a, r\<rangle>)"
    and one: "l = \<langle>\<rangle> \<or> r = \<langle>\<rangle>" and c: "c = (if l \<noteq> \<langle>\<rangle> then l else r)"
  shows "\<exists>h'. avl_delete_one_child h a = Some (h', root_ptr (fix_up C c))
    \<and> tree_at h' None (fix_up C c) \<and> (\<forall>x. x \<notin> set_tree (fill C c) \<longrightarrow> h' x = h x)"
proof -
  from at have full: "ctx_full h \<langle>l, a, r\<rangle> C" and ha: "h a = Some (node_rec (ctx_par C) l r)"
    and tc: "tree_at h (Some a) c"
    by (auto simp: tree_at_fill c)
  note fic = fits_drop [OF fi one c]
  from fits_sub [of C c] fic have fc: "fits c" and dis: "ctx_set C \<inter> set_tree c = {}" by auto
  let ?h1 = "reparent h (ctx_par C) c"
  have t1: "tree_at ?h1 (ctx_par C) c" using tc fc by (intro reparent_at) (auto simp: fits_def)
  have same1: "\<forall>x. x \<notin> set_tree c \<longrightarrow> ?h1 x = h x" by auto
  have ctx1: "ctx_at ?h1 (Some a) C"
    using ctx_full_at [OF full] ctx_at_frame [OF same1 dis] by simp
  have del: "avl_delete_one_child h a = (case ctx_par C of None \<Rightarrow> Some (?h1, root_ptr c)
     | Some q \<Rightarrow> do { from \<leftarrow> child_slot ?h1 q a; (h, _) \<leftarrow> put_slot ?h1 None from (root_ptr c); avl_fix_tree h q })"
    using ha one c reparent_code [OF tc, of "ctx_par C"]
    by (cases l) (simp_all add: avl_delete_one_child_def Let_def cong: option.case_cong)
  show ?thesis
  proof (cases C)
    case Nil
    with del t1 same1 show ?thesis by auto
  next
    case (Cons f C')
    have "child_slot ?h1 (frame_addr f) a = Some (slot_of f)"
      using ctx1 Cons fits_sub [OF fi] by (intro child_slot_frame) auto
    moreover from put_slot_ctx [OF ctx1, of c None "root_ptr c"] fic Cons obtain h2 where
      h2: "put_slot ?h1 None (slot_of f) (root_ptr c) = Some (h2, None)" "ctx_at h2 (root_ptr c) C"
        "\<forall>x. x \<notin> ctx_set C \<longrightarrow> h2 x = ?h1 x"
      by auto
    ultimately have del2: "avl_delete_one_child h a = avl_fix_tree h2 (frame_addr f)"
      using del Cons by simp
    have "tree_at h2 (ctx_par C) c"
      using t1 tree_at_frame [OF h2(3), of c] dis by (simp add: Int_commute)
    then have "fixable h2 C' (plug f c)"
      using h2(2) fic Cons stale_tree_plug [of h2 "ctx_par C'" c f] by (simp add: fixable_def)
    from avl_fix_tree_at [OF this] obtain h' where
      "avl_fix_tree h2 (frame_addr f) = Some (h', root_ptr (fix_up C c))"
      "tree_at h' None (fix_up C c)" "\<forall>x. x \<notin> set_tree (fill C c) \<longrightarrow> h' x = h2 x"
      using Cons by auto
    then show ?thesis using del2 h2(3) same1 by auto
  qed
qed

lemma leftmost_at:
  assumes "tree_at h par t" "root_ptr t = Some b"
  shows "\<exists>D v vr. leftmost h b = Some v \<and> t = fill D \<langle>\<langle>\<rangle>, v, vr\<rangle> \<and> ctx_pre D = []"
  using assms
proof (induction t arbitrary: par b)
  case (Node l x r)
  show ?case
  proof (cases l)
    case Leaf
    with Node.prems show ?thesis
      by (intro exI [of _ "[]"] exI [of _ x] exI [of _ r]) (simp add: leftmost.simps)
  next
    case (Node l1 y l2)
    with Node.IH(1) [of "Some x" y] Node.prems obtain D v vr where
      "leftmost h y = Some v" "l = fill D \<langle>\<langle>\<rangle>, v, vr\<rangle>" "ctx_pre D = []"
      by auto
    moreover have "ctx_pre (D @ [InLeft x r]) = ctx_pre D" for D
      by (induction D rule: ctx_pre.induct) auto
    moreover have "leftmost h x = leftmost h y"
      using Node.prems Node by (subst leftmost.simps) simp
    ultimately show ?thesis using Node.prems
      by (intro exI [of _ "D @ [InLeft x r]"] exI [of _ v] exI [of _ vr]) (simp add: fill_append)
  qed
qed simp

lemma ctx_pre_append: "ctx_pre (D @ C) = ctx_pre C @ ctx_pre D"
  by (induction D rule: ctx_pre.induct) auto

lemma ctx_post_append: "ctx_post (D @ C) = ctx_post D @ ctx_post C"
  by (induction D rule: ctx_post.induct) auto

lemma root_fill_cong: "E \<noteq> [] \<Longrightarrow> root_ptr (fill E t) = root_ptr (fill E t')"
proof (induction E arbitrary: t t')
  case (Cons f E)
  then show ?case by (cases "E = []") auto
qed simp

lemma put_slot_full:
  assumes "ctx_full h t E" "fits (fill E t)" "height t = height t'" "size t = size t'"
  shows "\<exists>h'. put_slot h w (slot_ctx E) (root_ptr t') = Some (h', if E = [] then root_ptr t' else w)
    \<and> ctx_full h' t' E \<and> (\<forall>x. x \<notin> ctx_set E \<longrightarrow> h' x = h x)"
proof (cases E)
  case (Cons f E')
  from fits_sub [of E' "plug f t"] assms(2) Cons have fip: "fits (plug f t)"
    and dis: "ctx_set E' \<inter> frame_set f = {}" by auto
  let ?q = "frame_addr f"
  have dq: "ctx_set E' \<inter> {?q} = {}" using dis frame_addr_in [of f] by auto
  have full: "ctx_full h' (plug f t') E' = ctx_full h (plug f t) E'"
    if "\<forall>x. x \<notin> {?q} \<longrightarrow> h' x = h x" for h'
  proof -
    have "ctx_full h' (plug f t') E' = ctx_full h (plug f t') E'"
      by (rule ctx_full_frame [OF that dq])
    also have "\<dots> = ctx_full h (plug f t) E'"
      using assms(3,4) by (intro ctx_full_cong) (cases f; simp)+
    finally show ?thesis .
  qed
  show ?thesis
  proof (cases f)
    case (InLeft q r)
    let ?h' = "h(q \<mapsto> node_rec (ctx_par E') t' r)"
    have "put_slot h w (slot_ctx E) (root_ptr t') = Some (?h', w)"
      using assms Cons InLeft by (simp add: node_rec_def)
    moreover have "ctx_full ?h' t' E"
      using assms Cons InLeft full [of ?h'] fip by (auto simp: fits_def)
    ultimately show ?thesis using Cons InLeft by auto
  next
    case (InRight l q)
    let ?h' = "h(q \<mapsto> node_rec (ctx_par E') l t')"
    have "put_slot h w (slot_ctx E) (root_ptr t') = Some (?h', w)"
      using assms Cons InRight by (simp add: node_rec_def)
    moreover have "ctx_full ?h' t' E"
      using assms Cons InRight full [of ?h'] fip by (auto simp: fits_def)
    ultimately show ?thesis using Cons InRight by auto
  qed
qed simp

text \<open>
  The second half of the two-children case: the victim's record is overwritten by the deleted
  node's, the children and the slot of the deleted node are redirected to the victim.
\<close>

lemma swap_at:
  assumes at: "tree_at h None (fill E \<langle>x, a, y\<rangle>)" and fi: "fits (fill E \<langle>x, a, y\<rangle>)"
    and v: "h v = Some nv" "v \<notin> set_tree (fill E \<langle>x, a, y\<rangle>)" and w: "w = root_ptr (fill E \<langle>x, a, y\<rangle>)"
  shows "\<exists>h'. do {
        n \<leftarrow> h a;
        h \<leftarrow> wr h v (\<lambda>_. n);
        vl \<leftarrow> rd h left_p v;
        h \<leftarrow> (case vl of None \<Rightarrow> Some h | Some c \<Rightarrow> wr h c (\<lambda>n. n\<lparr>parent_p := Some v\<rparr>));
        vr \<leftarrow> rd h right_p v;
        h \<leftarrow> (case vr of None \<Rightarrow> Some h | Some c \<Rightarrow> wr h c (\<lambda>n. n\<lparr>parent_p := Some v\<rparr>));
        parent \<leftarrow> rd h parent_p a;
        from \<leftarrow> (case parent of None \<Rightarrow> Some Var | Some q \<Rightarrow> child_slot h q a);
        put_slot h w from (Some v)
      } = Some (h', root_ptr (fill E \<langle>x, v, y\<rangle>))
    \<and> tree_at h' None (fill E \<langle>x, v, y\<rangle>)
    \<and> (\<forall>z. z \<notin> set_tree (fill E \<langle>x, v, y\<rangle>) \<longrightarrow> h' z = h z)"
proof -
  from at have full: "ctx_full h \<langle>x, a, y\<rangle> E" and ha: "h a = Some (node_rec (ctx_par E) x y)"
    and tx: "tree_at h (Some a) x" and ty: "tree_at h (Some a) y"
    by (auto simp: tree_at_fill)
  from fits_sub [OF fi] have fa: "fits \<langle>x, a, y\<rangle>" and dis: "ctx_set E \<inter> set_tree \<langle>x, a, y\<rangle> = {}" by auto
  note sub = fits_subtrees [OF fa]
  from v have vn: "v \<noteq> a" "v \<notin> set_tree x" "v \<notin> set_tree y" "v \<notin> ctx_set E" by auto
  let ?h2 = "h(v \<mapsto> node_rec (ctx_par E) x y)"
  let ?h3 = "reparent ?h2 (Some v) x"
  let ?h4 = "reparent ?h3 (Some v) y"
  have dx: "distinct (inorder x)" and dy: "distinct (inorder y)" using sub by (auto simp: fits_def)
  have x2: "tree_at ?h2 (Some a) x" and y2: "tree_at ?h2 (Some a) y" using tx ty vn by simp_all
  have y3: "tree_at ?h3 (Some a) y" using y2 sub(5) by (simp add: reparent_other_tree)
  have x4: "tree_at ?h4 (Some v) x" and y4: "tree_at ?h4 (Some v) y"
    using reparent_at [OF x2 dx] reparent_at [OF y3 dy] sub(5)
    by (simp_all add: reparent_other_tree Int_commute)
  have same4: "\<forall>z. z \<notin> insert v (set_tree x \<union> set_tree y) \<longrightarrow> ?h4 z = h z" by simp
  have full4: "ctx_full ?h4 \<langle>x, a, y\<rangle> E"
    using full ctx_full_frame [OF same4, of E] dis vn by auto
  have h4v: "?h4 v = Some (node_rec (ctx_par E) x y)" and h4a: "?h4 a = Some (node_rec (ctx_par E) x y)"
    using ha vn sub by simp_all
  have slot: "(case ctx_par E of None \<Rightarrow> Some Var | Some q \<Rightarrow> child_slot ?h4 q a) = Some (slot_ctx E)"
    using ctx_full_at [OF full4] dis child_slot_frame [of ?h4 _ a] by (cases E) auto
  from put_slot_full [OF full4 fi, of "\<langle>x, v, y\<rangle>" w] obtain h5 where
    h5: "put_slot ?h4 w (slot_ctx E) (Some v) = Some (h5, if E = [] then Some v else w)"
      "ctx_full h5 \<langle>x, v, y\<rangle> E" "\<forall>z. z \<notin> ctx_set E \<longrightarrow> h5 z = ?h4 z"
    by auto
  have "tree_at h5 (Some v) x" "tree_at h5 (Some v) y"
    using x4 y4 tree_at_frame [OF h5(3), of x] tree_at_frame [OF h5(3), of y] dis by auto
  then have "tree_at h5 None (fill E \<langle>x, v, y\<rangle>)"
    using h5(2,3) h4v vn by (simp add: tree_at_fill)
  moreover have "(if E = [] then Some v else w) = root_ptr (fill E \<langle>x, v, y\<rangle>)"
    using root_fill_cong [of E "\<langle>x, a, y\<rangle>" "\<langle>x, v, y\<rangle>"] w by auto
  moreover have "\<forall>z. z \<notin> set_tree (fill E \<langle>x, v, y\<rangle>) \<longrightarrow> h5 z = h z"
    using h5(3) by simp
  ultimately show ?thesis
    using ha v(1) reparent_code [OF x2, of "Some v"] reparent_code [OF y3, of "Some v"]
      h4a slot h5(1) vn
    by auto
qed

text \<open>The successor \<open>v\<close>, taken out of its place, in the place of \<open>a\<close>: the sequence without \<open>a\<close>.\<close>

lemma successor_replaces:
  assumes d: "distinct (P @ a # v # S)" and e: "P @ a # S = X @ a # Y"
  shows "X @ v # Y = remove1 a (P @ a # v # S)"
proof -
  have an: "a \<notin> set P" "a \<notin> set S" using d by auto
  have "P = X" "S = Y" using append_Cons_eq_iff [OF an] e by blast+
  with an show ?thesis by (simp add: remove1_append)
qed

lemma delete_two_at:
  assumes at: "tree_at h None (fill C \<langle>l, a, r\<rangle>)" and fi: "fits (fill C \<langle>l, a, r\<rangle>)"
    and b: "bal (fill C \<langle>l, a, r\<rangle>)" and two: "l \<noteq> \<langle>\<rangle>" "r \<noteq> \<langle>\<rangle>"
  shows "\<exists>h' T'. avl_delete h a = Some (h', root_ptr T') \<and> tree_at h' None T' \<and> bal T'
    \<and> inorder T' = remove1 a (inorder (fill C \<langle>l, a, r\<rangle>)) \<and> h' a \<noteq> None
    \<and> (\<forall>x. x \<notin> set_tree (fill C \<langle>l, a, r\<rangle>) \<longrightarrow> h' x = h x)"
proof -
  let ?T = "fill C \<langle>l, a, r\<rangle>"
  have ha: "h a = Some (node_rec (ctx_par C) l r)" and tr: "tree_at h (Some a) r"
    using at by (auto simp: tree_at_fill)
  from two obtain b1 where r1: "root_ptr r = Some b1" by (cases r) auto
  from leftmost_at [OF tr r1] obtain D v vr where
    D: "leftmost h b1 = Some v" "r = fill D \<langle>\<langle>\<rangle>, v, vr\<rangle>" "ctx_pre D = []" by blast
  let ?C = "D @ InRight l a # C"
  have T: "?T = fill ?C \<langle>\<langle>\<rangle>, v, vr\<rangle>" by (simp add: D fill_append)
  let ?T1 = "fix_up ?C vr"
  from delete_one_child_at [OF at [unfolded T] fi [unfolded T], of vr] obtain h1 where
    h1: "avl_delete_one_child h v = Some (h1, root_ptr ?T1)" "tree_at h1 None ?T1"
      "\<forall>x. x \<notin> set_tree (fill ?C vr) \<longrightarrow> h1 x = h x"
    by auto
  have io: "inorder ?T1 = inorder (fill ?C vr)" by (rule inorder_fix_up)
  note set1 = set_tree_inorder [OF io] and fits1 = fits_inorder [OF io]
  have f1: "fits ?T1" "v \<notin> set_tree ?T1"
    using fits_drop [OF fi [unfolded T]] set1 fits1 by auto
  have b1: "bal ?T1"
    using bal_fill [of ?C "\<langle>\<langle>\<rangle>, v, vr\<rangle>"] b T
    by (intro bal_fix_up [of ?C "\<langle>\<langle>\<rangle>, v, vr\<rangle>"]) (auto simp: near_def)
  have "a \<in> set_tree ?T1" using set1 by (simp add: ctx_set_def)
  from split_at [OF this] obtain E x y where E: "?T1 = fill E \<langle>x, a, y\<rangle>" by blast
  let ?T2 = "fill E \<langle>x, v, y\<rangle>"
  obtain nv where "h v = Some nv" using at T by (auto simp: tree_at_fill)
  then have "h1 v = Some nv" using h1(3) f1 set1 by simp
  from swap_at [OF h1(2) [unfolded E] f1(1) [unfolded E] this f1(2) [unfolded E] refl] E h1(1)
  obtain h2 where h2: "avl_delete h a = Some (h2, root_ptr ?T2)" "tree_at h2 None ?T2"
    "\<forall>z. z \<notin> set_tree ?T2 \<longrightarrow> h2 z = h1 z"
    using ha two r1 D(1) by (cases l) (auto simp: avl_delete_def)
  have "bal ?T2" using b1 E bal_fill_cong [of "\<langle>x, a, y\<rangle>" "\<langle>x, v, y\<rangle>" E] by simp
  moreover have "inorder ?T2 = remove1 a (inorder ?T)"
    using successor_replaces [of "ctx_pre C @ inorder l" a v "inorder vr @ ctx_post D @ ctx_post C"
        "ctx_pre E @ inorder x" "inorder y @ ctx_post E"] io E fi
    by (simp add: T fits_def inorder_fill ctx_pre_append ctx_post_append D(3))
  moreover have "\<forall>z. z \<notin> set_tree ?T \<longrightarrow> h2 z = h z"
  proof (intro allI impI)
    fix z assume z: "z \<notin> set_tree ?T"
    then have "z \<notin> set_tree ?T1" "z \<noteq> v" using set1 T by auto
    then have "z \<notin> set_tree ?T2" using E by auto
    with h2(3) h1(3) \<open>z \<notin> set_tree ?T1\<close> set1 show "h2 z = h z" by auto
  qed
  moreover have "h2 a \<noteq> None"
    using h2(3) h1(2) E fits_sub [of E "\<langle>x, a, y\<rangle>"] f1 by (auto simp: tree_at_fill fits_def)
  ultimately show ?thesis using h2 by blast
qed

lemma avl_delete_at:
  assumes at: "tree_at h None T" and fi: "fits T" and b: "bal T" and a: "a \<in> set_tree T"
  shows "\<exists>h' T'. avl_delete h a = Some (h', root_ptr T') \<and> tree_at h' None T' \<and> bal T'
    \<and> inorder T' = remove1 a (inorder T) \<and> h' a \<noteq> None \<and> (\<forall>x. x \<notin> set_tree T \<longrightarrow> h' x = h x)"
proof -
  from split_at [OF a] obtain C l r where T: "T = fill C \<langle>l, a, r\<rangle>" by blast
  from fi have d: "distinct (inorder T)" by (simp add: fits_def)
  have ha: "h a = Some (node_rec (ctx_par C) l r)" and tr: "tree_at h (Some a) r"
    using at by (auto simp: T tree_at_fill)
  show ?thesis
  proof (cases "l = \<langle>\<rangle> \<or> r = \<langle>\<rangle>")
    case True
    define c where "c = (if l \<noteq> \<langle>\<rangle> then l else r)"
    from delete_one_child_at [OF at [unfolded T] fi [unfolded T] True c_def] obtain h' where
      h': "avl_delete_one_child h a = Some (h', root_ptr (fix_up C c))"
        "tree_at h' None (fix_up C c)" "\<forall>x. x \<notin> set_tree (fill C c) \<longrightarrow> h' x = h x"
      by blast
    have "avl_delete h a = avl_delete_one_child h a"
      using ha True by (auto simp: avl_delete_def split: option.splits)
    moreover have "bal (fix_up C c)"
      using bal_fill [of C "\<langle>l, a, r\<rangle>"] b T True
      by (intro bal_fix_up [of C "\<langle>l, a, r\<rangle>"]) (auto simp: c_def near_def)
    moreover have "inorder (fix_up C c) = remove1 a (inorder T)"
      using d True by (auto simp: T c_def inorder_fix_up inorder_fill remove1_append)
    moreover have "h' a \<noteq> None"
      using h'(3) fits_drop [OF fi [unfolded T] True c_def] ha by simp
    ultimately show ?thesis using h' T by (auto simp: c_def)
  next
    case False
    then show ?thesis using delete_two_at [OF at [unfolded T] fi [unfolded T] b [unfolded T]] T by simp
  qed
qed

section \<open>Offset\<close>

lemma uint_size:
  assumes "fits t"
  shows "uint (of_nat (size t) :: u32) = int (size t)" "uint (of_nat (size t) + 1 :: u32) = int (size t) + 1"
proof -
  have small: "uint (of_nat n :: u32) = int n" if "n < 2 ^ 32" for n
    using that of_nat_inverse [of n "of_nat n :: u32"] by (simp add: uint_nat del: of_nat_unat)
  from assms have "size t < 2 ^ 32" "Suc (size t) < 2 ^ 32" by (simp_all add: fits_def)
  from small [OF this(1)] small [OF this(2)]
  show "uint (of_nat (size t) :: u32) = int (size t)" "uint (of_nat (size t) + 1 :: u32) = int (size t) + 1"
    by (simp_all add: add.commute)
qed

lemma nth_middle_right:
  "0 < d \<Longrightarrow> (xs @ x # ys) ! nat (int (length xs) + d) = ys ! nat (d - 1)"
  by (auto simp: nth_append nth_Cons' nat_diff_distrib' nat_add_distrib)

lemma nth_middle_left:
  "d < 0 \<Longrightarrow> - int (length xs) \<le> d \<Longrightarrow>
   (xs @ x # ys) ! nat (int (length xs) + d) = xs ! nat (int (length xs) + d)"
  by (simp add: nth_append nat_less_iff)

lemma nth_in_middle:
  "0 \<le> k \<Longrightarrow> k < int (length ys) \<Longrightarrow> (xs @ ys @ zs) ! nat (int (length xs) + k) = ys ! nat k"
  by (simp add: nth_append nat_add_distrib nat_less_iff)

text \<open>Downwards: the target lies in the subtree of the current node.\<close>

lemma offset_down:
  assumes "tree_at h par \<langle>l, x, r\<rangle>" "fits \<langle>l, x, r\<rangle>"
    and "offset = pos + d" "- int (size l) \<le> d" "d \<le> int (size r)"
  shows "avl_offset_loop h x offset pos = Some (Some ((inorder l @ x # inorder r) ! nat (int (size l) + d)))"
  using assms
proof (induction "\<langle>l, x, r\<rangle>" arbitrary: par l x r pos d rule: measure_induct_rule [where f = size])
  case less
  note sub = fits_subtrees [OF less.prems(2)]
  from less.prems(1) have hx: "h x = Some (node_rec par l r)" and tl: "tree_at h (Some x) l"
    and tr: "tree_at h (Some x) r" by auto
  consider "d = 0" | "d > 0" | "d < 0" by linarith
  then show ?case
  proof cases
    case 1
    with less.prems show ?thesis by (subst avl_offset_loop.simps) (simp add: nth_append)
  next
    case 2
    with less.prems(5) obtain rl y rr where r: "r = \<langle>rl, y, rr\<rangle>" by (cases r) auto
    from tr r have hy: "h y = Some (node_rec (Some x) rl rr)" and trl: "tree_at h (Some y) rl" by auto
    note fr = fits_subtrees [OF sub(2) [unfolded r]]
    have "avl_offset_loop h x offset pos = avl_offset_loop h y offset (pos + (int (size rl) + 1))"
      using 2 less.prems hx hy r avl_cnt_at [OF tl] avl_cnt_at [OF tr] avl_cnt_at [OF trl]
        uint_size [OF sub(2)] uint_size [OF fr(1)]
      by (subst avl_offset_loop.simps) (simp del: of_nat_Suc of_nat_add)
    also have "\<dots> = Some (Some ((inorder rl @ y # inorder rr) ! nat (int (size rl) + (d - int (size rl) - 1))))"
      using tr sub(2) less.prems 2 r by (intro less.hyps [of rl y rr "Some x"]) auto
    also have "\<dots> = Some (Some ((inorder l @ x # inorder r) ! nat (int (size l) + d)))"
      using nth_middle_right [of d "inorder l" x "inorder r"] 2 r by simp
    finally show ?thesis .
  next
    case 3
    with less.prems(4) obtain ll y lr where l: "l = \<langle>ll, y, lr\<rangle>" by (cases l) auto
    from tl l have hy: "h y = Some (node_rec (Some x) ll lr)" and tlr: "tree_at h (Some y) lr" by auto
    note fl = fits_subtrees [OF sub(1) [unfolded l]]
    have "avl_offset_loop h x offset pos = avl_offset_loop h y offset (pos - (int (size lr) + 1))"
      using 3 less.prems hx hy l avl_cnt_at [OF tl] avl_cnt_at [OF tr] avl_cnt_at [OF tlr]
        uint_size [OF sub(1)] uint_size [OF fl(2)]
      by (subst avl_offset_loop.simps) (simp del: of_nat_Suc of_nat_add)
    also have "\<dots> = Some (Some ((inorder ll @ y # inorder lr) ! nat (int (size ll) + (d + int (size lr) + 1))))"
      using tl sub(1) less.prems 3 l by (intro less.hyps [of ll y lr "Some x"]) auto
    also have "\<dots> = Some (Some ((inorder l @ x # inorder r) ! nat (int (size l) + d)))"
      using nth_middle_left [of d "inorder l" x "inorder r"] 3 less.prems(4) l
      by (simp add: algebra_simps)
    finally show ?thesis .
  qed
qed

text \<open>
  Upwards: the target lies outside the subtree, and the walk goes to the parent until it lies in
  the subtree or the root is passed. \<open>d\<close> is the distance to the target in the inorder sequence.
\<close>

definition target :: "addr list \<Rightarrow> int \<Rightarrow> ptr" where
  "target xs j = (if 0 \<le> j \<and> j < int (length xs) then Some (xs ! nat j) else None)"

lemma offset_step_up:
  assumes at: "tree_at h (Some q) \<langle>l, x, r\<rangle>" and fi: "fits \<langle>l, x, r\<rangle>" and q: "h q = Some n"
    and out: "offset < pos - int (size l) \<or> pos + int (size r) < offset"
  shows "avl_offset_loop h x offset pos = avl_offset_loop h q offset
    (if right_p n = Some x then pos - (int (size l) + 1) else pos + (int (size r) + 1))"
proof -
  note sub = fits_subtrees [OF fi]
  from at have "h x = Some (node_rec (Some q) l r)" "tree_at h (Some x) l" "tree_at h (Some x) r"
    by auto
  with out q avl_cnt_at [of h "Some x" l] avl_cnt_at [of h "Some x" r]
    uint_size [OF sub(1)] uint_size [OF sub(2)] show ?thesis
    by (subst avl_offset_loop.simps) auto
qed

lemma offset_inside:
  assumes at: "tree_at h None (fill C \<langle>l, x, r\<rangle>)" and fi: "fits (fill C \<langle>l, x, r\<rangle>)" and o: "offset = pos + d"
    and ins: "- int (size l) \<le> d" "d \<le> int (size r)"
  shows "avl_offset_loop h x offset pos
    = Some (target (inorder (fill C \<langle>l, x, r\<rangle>)) (int (length (ctx_pre C) + size l) + d))"
proof -
  let ?xs = "inorder l @ x # inorder r"
  have "tree_at h (ctx_par C) \<langle>l, x, r\<rangle>" "fits \<langle>l, x, r\<rangle>"
    using at fits_sub [OF fi] by (auto simp: tree_at_fill)
  from offset_down [OF this o ins]
  have "avl_offset_loop h x offset pos = Some (Some (?xs ! nat (int (size l) + d)))" .
  moreover have "target (ctx_pre C @ ?xs @ ctx_post C) (int (length (ctx_pre C) + size l) + d)
      = Some (?xs ! nat (int (size l) + d))"
    using ins nth_in_middle [of "int (size l) + d" ?xs "ctx_pre C" "ctx_post C"]
    by (simp add: target_def algebra_simps)
  ultimately show ?thesis using inorder_fill [of C "\<langle>l, x, r\<rangle>"] by simp
qed

lemma offset_up:
  assumes "tree_at h None (fill C \<langle>l, x, r\<rangle>)" "fits (fill C \<langle>l, x, r\<rangle>)" "offset = pos + d"
  shows "avl_offset_loop h x offset pos
    = Some (target (inorder (fill C \<langle>l, x, r\<rangle>)) (int (length (ctx_pre C) + size l) + d))"
  using assms
proof (induction C arbitrary: l x r pos d)
  case Nil
  show ?case
  proof (cases "- int (size l) \<le> d \<and> d \<le> int (size r)")
    case True
    with offset_inside [OF Nil] show ?thesis by simp
  next
    case False
    note sub = fits_subtrees [of l x r]
    from Nil.prems have "h x = Some (node_rec None l r)" "tree_at h (Some x) l" "tree_at h (Some x) r"
      "fits l" "fits r"
      using sub by auto
    with False Nil.prems(3) avl_cnt_at [of h "Some x" l] avl_cnt_at [of h "Some x" r]
      uint_size [of l] uint_size [of r] show ?thesis
      by (subst avl_offset_loop.simps) (auto simp: target_def)
  qed
next
  case (Cons f C)
  show ?case
  proof (cases "- int (size l) \<le> d \<and> d \<le> int (size r)")
    case True
    with offset_inside [OF Cons.prems] show ?thesis by simp
  next
    case False
    from Cons.prems have at: "tree_at h (Some (frame_addr f)) \<langle>l, x, r\<rangle>" and fi: "fits \<langle>l, x, r\<rangle>"
      and full: "ctx_full h \<langle>l, x, r\<rangle> (f # C)" and fip: "fits (plug f \<langle>l, x, r\<rangle>)"
      using fits_sub [of "f # C"] fits_sub [of C "plug f \<langle>l, x, r\<rangle>"]
        tree_at_fill [of h "f # C" "\<langle>l, x, r\<rangle>"] by auto
    have out: "offset < pos - int (size l) \<or> pos + int (size r) < offset"
      using False Cons.prems(3) by linarith
    show ?thesis
    proof (cases f)
      case (InLeft q r')
      with full fip have "h q = Some (node_rec (ctx_par C) \<langle>l, x, r\<rangle> r')" "root_ptr r' \<noteq> Some x"
        by (auto simp: fits_def dest: root_ptr_in)
      with offset_step_up [OF at fi _ out] InLeft
        Cons.IH [of "\<langle>l, x, r\<rangle>" q r' "pos + (int (size r) + 1)" "d - (int (size r) + 1)"] Cons.prems
      show ?thesis by (simp add: algebra_simps)
    next
      case (InRight l' q)
      with full have "h q = Some (node_rec (ctx_par C) l' \<langle>l, x, r\<rangle>)" by auto
      with offset_step_up [OF at fi _ out] InRight
        Cons.IH [of l' q "\<langle>l, x, r\<rangle>" "pos - (int (size l) + 1)" "d + (int (size l) + 1)"] Cons.prems
      show ?thesis by (simp add: algebra_simps)
    qed
  qed
qed

lemma avl_offset_at:
  assumes "tree_at h None t" "fits t" "i < size t"
  shows "avl_offset h (Some (inorder t ! i)) offset = Some (target (inorder t) (int i + offset))"
proof -
  have "inorder t ! i \<in> set_tree t" using assms(3) by (simp flip: set_inorder)
  from split_at [OF this] obtain C l r where t: "t = fill C \<langle>l, inorder t ! i, r\<rangle>" by metis
  let ?x = "inorder t ! i"
  have io: "inorder t = (ctx_pre C @ inorder l) @ ?x # inorder r @ ctx_post C"
    by (subst (1) t) (simp add: inorder_fill)
  let ?k = "length (ctx_pre C @ inorder l)"
  have "inorder t ! ?k = ?x" by (subst (1) io) (simp add: nth_append)
  moreover have "?k < length (inorder t)" by (subst io) simp
  ultimately have "?k = i" using assms(2,3) by (auto simp: fits_def nth_eq_iff_index_eq)
  then have "int i = int (length (ctx_pre C)) + int (size l)" by auto
  with offset_up [of h C l ?x r offset 0 offset] assms t [symmetric] show ?thesis
    by (simp add: avl_offset_def)
qed

section \<open>Search\<close>

lemma search_node_at:
  assumes "tree_at h par t" "sorted_wrt (\<lambda>x y. sgn (cmp x) \<le> sgn (cmp y)) (inorder t)"
  shows "\<exists>res. search_node h cmp (root_ptr t) = Some res
    \<and> (case res of None \<Rightarrow> \<forall>x \<in> set_tree t. cmp x \<noteq> 0 | Some a \<Rightarrow> a \<in> set_tree t \<and> cmp a = 0)"
  using assms
proof (induction t arbitrary: par)
  case (Node l a r)
  have s: "sorted_wrt (\<lambda>x y. sgn (cmp x) \<le> sgn (cmp y)) (inorder l)"
    "sorted_wrt (\<lambda>x y. sgn (cmp x) \<le> sgn (cmp y)) (inorder r)"
    and l: "\<forall>x \<in> set_tree l. sgn (cmp x) \<le> sgn (cmp a)"
    and r: "\<forall>x \<in> set_tree r. sgn (cmp a) \<le> sgn (cmp x)"
    using Node.prems(2) by (auto simp: sorted_wrt_append)
  consider "cmp a < 0" | "cmp a > 0" | "cmp a = 0" by linarith
  then show ?case
  proof cases
    case 1
    with l have "\<forall>x \<in> set_tree l. cmp x \<noteq> 0" by fastforce
    with 1 Node.IH(2) [of "Some a"] Node.prems(1) s(2) show ?thesis
      by (subst search_node.simps) (auto split: option.splits)
  next
    case 2
    with r have "\<forall>x \<in> set_tree r. cmp x \<noteq> 0" by fastforce
    with 2 Node.IH(1) [of "Some a"] Node.prems(1) s(1) show ?thesis
      by (subst search_node.simps) (auto split: option.splits)
  next
    case 3
    then show ?thesis by (subst search_node.simps) auto
  qed
qed (simp add: search_node.simps)

end
