(* ===== verification/Hash_Map.thy ===== *)
theory Hash_Map
  imports Hashtable
begin

text \<open>
  Correctness of the hash map. \<open>tab_ok h t cs\<close> says that the table \<open>t\<close> holds exactly the chains
  \<open>cs\<close> of node addresses, each node in the bucket of its hash code; \<open>hm_chains\<close> says it of the two
  tables of a map, which may be anywhere in a migration. \<open>hm_ok h m N\<close> is the client's view: the
  map holds the set \<open>N\<close> of nodes. The contract of the map is the locale \<open>node_map\<close>.
\<close>

section \<open>Chains\<close>

fun chain :: "hn_heap \<Rightarrow> ptr \<Rightarrow> addr list \<Rightarrow> bool" where
  "chain h p [] \<longleftrightarrow> p = None"
| "chain h p (a # as) \<longleftrightarrow> p = Some a \<and> (\<exists>n. h a = Some n \<and> chain h (next_p n) as)"

text \<open>The link that leads to what follows \<open>ys\<close> in a chain that starts at link \<open>l\<close>.\<close>

fun link_after :: "hlink \<Rightarrow> addr list \<Rightarrow> hlink" where
  "link_after l [] = l"
| "link_after l (y # ys) = link_after (NextOf y) ys"

definition hash_of :: "hn_heap \<Rightarrow> addr \<Rightarrow> u64 option" where
  "hash_of h a = map_option hash_code (h a)"

lemma rd_hash [simp]: "rd h hash_code a = hash_of h a"
  by (simp add: rd_def hash_of_def)

lemma chain_cong: "(\<And>a. a \<in> set xs \<Longrightarrow> h' a = h a) \<Longrightarrow> chain h' p xs = chain h p xs"
  by (induction xs arbitrary: p) auto

lemma chain_alloc: "chain h p xs \<Longrightarrow> a \<in> set xs \<Longrightarrow> \<exists>n. h a = Some n"
  by (induction xs arbitrary: p) auto

lemma link_after_snoc: "link_after l (ys @ [y]) = NextOf y"
  by (induction ys arbitrary: l) auto

lemma rd_link_after:
  "rd_link h ht l = Some p \<Longrightarrow> chain h p (ys @ zs) \<Longrightarrow>
   \<exists>p'. rd_link h ht (link_after l ys) = Some p' \<and> chain h p' zs"
proof (induction ys arbitrary: l p)
  case (Cons y ys)
  then obtain n where "h y = Some n" "chain h (next_p n) (ys @ zs)" by auto
  with Cons.IH [of "NextOf y" "next_p n"] show ?case by simp
qed simp

lemma lookup_loop_miss:
  assumes "rd_link h ht l = Some p" "chain h p xs"
    and "\<forall>a \<in> set xs. eq a = Some (E a)" "\<forall>a \<in> set xs. \<not> (hash_of h a = Some hc \<and> E a)"
  shows "h_lookup_loop h ht hc eq l = Some None"
  using assms
proof (induction xs arbitrary: l p)
  case Nil
  then show ?case by (simp add: h_lookup_loop.simps)
next
  case (Cons a xs)
  then obtain n where n: "p = Some a" "h a = Some n" "chain h (next_p n) xs" by auto
  then have "h_lookup_loop h ht hc eq (NextOf a) = Some None"
    using Cons by (intro Cons.IH [of "NextOf a" "next_p n"]) auto
  with Cons.prems n show ?case
    by (subst h_lookup_loop.simps) (auto simp: hash_of_def)
qed

lemma lookup_loop_hit:
  assumes "rd_link h ht l = Some p" "chain h p (ys @ a # zs)"
    and "\<forall>a \<in> set (ys @ [a]). eq a = Some (E a)"
    and "\<forall>a \<in> set ys. \<not> (hash_of h a = Some hc \<and> E a)" "hash_of h a = Some hc" "E a"
  shows "h_lookup_loop h ht hc eq l = Some (Some (link_after l ys))"
  using assms
proof (induction ys arbitrary: l p)
  case Nil
  then show ?case by (subst h_lookup_loop.simps) auto
next
  case (Cons y ys)
  then obtain n where n: "p = Some y" "h y = Some n" "chain h (next_p n) (ys @ a # zs)" by auto
  then have "h_lookup_loop h ht hc eq (NextOf y) = Some (Some (link_after (NextOf y) ys))"
    using Cons by (intro Cons.IH [of "NextOf y" "next_p n"]) auto
  with Cons.prems n show ?case
    by (subst h_lookup_loop.simps) (auto simp: hash_of_def)
qed

text \<open>Unlinking \<open>a\<close> from the middle of a chain by a write to the node before it.\<close>

lemma chain_unlink:
  assumes "chain h p (ys @ y # a # zs)" "distinct (ys @ y # a # zs)" "h a = Some na"
  shows "\<exists>n. h y = Some n \<and> chain (h(y \<mapsto> n\<lparr>next_p := next_p na\<rparr>)) p (ys @ y # zs)"
  using assms
proof (induction ys arbitrary: p)
  case Nil
  then obtain n where "p = Some y" "h y = Some n" "chain h (next_p na) zs" by auto
  moreover have "chain (h(y \<mapsto> n\<lparr>next_p := next_p na\<rparr>)) (next_p na) zs"
    using calculation Nil by (subst chain_cong [of zs _ h]) auto
  ultimately show ?case by (simp add: fun_upd_def)
next
  case (Cons x ys)
  then obtain m where m: "p = Some x" "h x = Some m" "chain h (next_p m) (ys @ y # a # zs)" by auto
  with Cons.IH [of "next_p m"] Cons.prems show ?case by auto
qed

section \<open>One table\<close>

definition tab_ok :: "hn_heap \<Rightarrow> HTable \<Rightarrow> addr list list \<Rightarrow> bool" where
  "tab_ok h t cs \<longleftrightarrow>
     (case tab t of
        None \<Rightarrow> cs = [] \<and> t = HTable0
      | Some slots \<Rightarrow>
          length slots = tmask t + 1 \<and> length cs = length slots \<and> tmask t < 2 ^ 60
          \<and> (\<forall>i < length cs. chain h (slots ! i) (cs ! i)
              \<and> (\<forall>a \<in> set (cs ! i). \<exists>hc. hash_of h a = Some hc \<and> bucket hc t = i)))
     \<and> tsize t = length (concat cs) \<and> distinct (concat cs) \<and> length (concat cs) \<le> 2 ^ 60"

lemma bucket_bound: "tmask t < 2 ^ 60 \<Longrightarrow> bucket hc t \<le> tmask t"
proof -
  assume "tmask t < 2 ^ 60"
  then have "unat (of_nat (tmask t) :: u64) = tmask t"
    by (intro of_nat_inverse [OF refl]) simp
  moreover have "hc AND of_nat (tmask t) \<le> of_nat (tmask t)" by (rule word_and_le1)
  ultimately show ?thesis by (simp add: bucket_def word_le_nat_alt)
qed

lemma in_concat: "i < length cs \<Longrightarrow> a \<in> set (cs ! i) \<Longrightarrow> a \<in> set (concat cs)"
  by (auto intro: nth_mem)

lemma tab_ok_cong:
  assumes "tab_ok h t cs" "\<And>a. a \<in> set (concat cs) \<Longrightarrow> h' a = h a"
  shows "tab_ok h' t cs"
proof -
  have "chain h' p (cs ! i) = chain h p (cs ! i)" if "i < length cs" for i p
    using assms(2) in_concat [OF that] by (intro chain_cong) blast
  moreover have "hash_of h' a = hash_of h a" if "i < length cs" "a \<in> set (cs ! i)" for i a
    using assms(2) in_concat [OF that] by (simp add: hash_of_def)
  ultimately show ?thesis using assms(1) by (auto simp: tab_ok_def split: option.splits)
qed

text \<open>The chains after the \<open>i\<close>-th has been replaced.\<close>

lemma concat_update:
  assumes "i < length cs" "mset (c @ zs) = mset (cs ! i @ ys)"
  shows "mset (concat (cs[i := c])) + mset zs = mset (concat cs) + mset ys"
proof -
  have "concat cs = concat (take i cs) @ cs ! i @ concat (drop (Suc i) cs)"
    using id_take_nth_drop [OF assms(1)] by (metis concat.simps(2) concat_append)
  moreover have "concat (cs[i := c]) = concat (take i cs) @ c @ concat (drop (Suc i) cs)"
    using assms(1) by (simp add: upd_conv_take_nth_drop)
  ultimately show ?thesis using assms(2) by (simp add: union_ac)
qed

lemma in_chain_unique:
  assumes "distinct (concat cs)" "i < length cs" "j < length cs" "a \<in> set (cs ! i)" "a \<in> set (cs ! j)"
  shows "i = j"
  using assms
proof (induction cs arbitrary: i j)
  case (Cons c cs)
  have dis: "a \<notin> set (cs ! k)" if "a \<in> set c" "k < length cs" for k
    using Cons.prems(1) in_concat [of k cs a] that by auto
  show ?case
    using Cons.IH Cons.prems dis by (cases i; cases j) auto
qed simp

lemma distinct_concat_inner: "distinct (concat cs) \<Longrightarrow> c \<in> set cs \<Longrightarrow> distinct c"
  by (induction cs) auto

lemma tab_okD:
  assumes "tab_ok h t cs" "tab t = Some slots"
  shows "length slots = tmask t + 1" "length cs = tmask t + 1" "tmask t < 2 ^ 60"
    "i \<le> tmask t \<Longrightarrow> chain h (slots ! i) (cs ! i)"
    "i \<le> tmask t \<Longrightarrow> a \<in> set (cs ! i) \<Longrightarrow> \<exists>hc. hash_of h a = Some hc \<and> bucket hc t = i"
    "tsize t = length (concat cs)" "distinct (concat cs)" "length (concat cs) \<le> 2 ^ 60"
  using assms by (auto simp: tab_ok_def)

lemma tab_ok_bucket:
  assumes "tab_ok h t cs" "tab t = Some slots" "a \<in> set (concat cs)" "hash_of h a = Some hc"
  shows "a \<in> set (cs ! bucket hc t)"
proof -
  from assms(3) obtain c where "c \<in> set cs" "a \<in> set c" by auto
  then obtain i where "i < length cs" "a \<in> set (cs ! i)" by (auto simp: in_set_conv_nth [of c])
  with tab_okD(2) [OF assms(1,2)] tab_okD(5) [OF assms(1,2), of i a] assms(4) show ?thesis by auto
qed

text \<open>The outcome of a lookup: the link to a node that matches, or no node matches.\<close>

lemma h_lookup_ok:
  assumes ok: "tab_ok h t cs" and eq: "\<forall>a \<in> set (concat cs). eq a = Some (E a)"
  shows "(h_lookup h t hc eq = Some None \<and> (\<forall>a \<in> set (concat cs). \<not> (hash_of h a = Some hc \<and> E a)))
    \<or> (\<exists>i ys a zs. h_lookup h t hc eq = Some (Some (link_after (Slot i) ys)) \<and> i < length cs
        \<and> cs ! i = ys @ a # zs \<and> hash_of h a = Some hc \<and> E a)"
proof (cases "tab t")
  case None
  with ok show ?thesis by (auto simp: h_lookup_def tab_ok_def)
next
  case (Some slots)
  note D = tab_okD [OF ok Some]
  let ?i = "bucket hc t" and ?m = "\<lambda>a. hash_of h a = Some hc \<and> E a"
  have i: "?i \<le> tmask t" using bucket_bound D(3) by simp
  have rd: "rd_link h t (Slot ?i) = Some (slots ! ?i)" using Some D(1) i by simp
  have eqi: "\<forall>a \<in> set (cs ! ?i). eq a = Some (E a)" using eq in_concat [of ?i cs] D(2) i by auto
  show ?thesis
  proof (cases "\<exists>a \<in> set (cs ! ?i). ?m a")
    case True
    then obtain ys a zs where sp: "cs ! ?i = ys @ a # zs" "?m a" "\<forall>y \<in> set ys. \<not> ?m y"
      using split_list_first_prop [of "cs ! ?i" ?m] by blast
    from lookup_loop_hit [OF rd D(4) [OF i, unfolded sp(1)], of eq E] eqi sp Some
    have "h_lookup h t hc eq = Some (Some (link_after (Slot ?i) ys))"
      by (simp add: h_lookup_def)
    with sp(1,2) i D(2) show ?thesis
      by (intro disjI2 exI [of _ ?i] exI [of _ ys] exI [of _ a] exI [of _ zs]) auto
  next
    case False
    from lookup_loop_miss [OF rd D(4) [OF i] eqi] False Some
    have "h_lookup h t hc eq = Some None" by (simp add: h_lookup_def)
    then show ?thesis using False tab_ok_bucket [OF ok Some] by blast
  qed
qed

lemma h_insert_ok:
  assumes ok: "tab_ok h t cs" and t: "tab t = Some slots" and a: "h a = Some n" "a \<notin> set (concat cs)"
    and room: "length (concat cs) < 2 ^ 60"
  defines "i \<equiv> bucket (hash_code n) t"
  shows "\<exists>h' t'. h_insert h t a = Some (h', t') \<and> tab_ok h' t' (cs[i := a # cs ! i]) \<and> i < length cs
    \<and> tab t' \<noteq> None \<and> tmask t' = tmask t \<and> hash_of h' a = hash_of h a \<and> (\<forall>x. x \<noteq> a \<longrightarrow> h' x = h x)"
proof -
  note D = tab_okD [OF ok t]
  have i: "i \<le> tmask t" using bucket_bound D(3) by (simp add: i_def)
  let ?h = "h(a \<mapsto> n\<lparr>next_p := slots ! i\<rparr>)"
  let ?t = "t\<lparr>tab := Some (slots[i := Some a]), tsize := tsize t + 1\<rparr>"
  have "h_insert h t a = Some (?h, ?t)"
    using a t D(1,6) i room by (simp add: h_insert_def hash_of_def flip: i_def)
  moreover have "tab_ok ?h ?t (cs[i := a # cs ! i])"
  proof -
    have okh: "tab_ok ?h t cs" using a by (intro tab_ok_cong [OF ok]) auto
    note Dh = tab_okD [OF okh t]
    have "mset (concat (cs[i := a # cs ! i])) = mset (concat cs) + {#a#}"
      using concat_update [of i cs "a # cs ! i" "[]" "[a]"] i D(2) by simp
    then have "distinct (concat (cs[i := a # cs ! i])) \<and> length (concat (cs[i := a # cs ! i])) = length (concat cs) + 1"
      using D(7) a(2) by (metis mset_append mset_single_iff_right distinct_append distinct_singleton
        mset_eq_imp_distinct_iff size_mset size_union size_single disjoint_insert(2) inf_bot_right list.set(1,2))
    moreover have "bucket hc ?t = bucket hc t" for hc by (simp add: bucket_def)
    ultimately show ?thesis
      using Dh i room by (auto simp: tab_ok_def nth_list_update hash_of_def i_def)
  qed
  ultimately show ?thesis using i D(2) a by (auto simp: hash_of_def)
qed

text \<open>Replacing the chain of one bucket, when only nodes of that chain have been written.\<close>

lemma tab_ok_replace:
  assumes ok: "tab_ok h t cs" and t: "tab t = Some slots" and i: "i < length cs"
    and c: "chain h' p c" "set c \<subseteq> set (cs ! i)"
    and h': "\<forall>x. x \<notin> set (cs ! i) \<longrightarrow> h' x = h x" "\<forall>x. hash_of h' x = hash_of h x"
    and n: "n = length (concat (cs[i := c]))" "n \<le> 2 ^ 60" "distinct (concat (cs[i := c]))"
  shows "tab_ok h' (t\<lparr>tab := Some (slots[i := p]), tsize := n\<rparr>) (cs[i := c])"
proof -
  note D = tab_okD [OF ok t]
  let ?t = "t\<lparr>tab := Some (slots[i := p]), tsize := n\<rparr>"
  have b: "bucket hc ?t = bucket hc t" for hc by (simp add: bucket_def)
  have "chain h' (slots[i := p] ! j) (cs[i := c] ! j)
    \<and> (\<forall>a \<in> set (cs[i := c] ! j). \<exists>hc. hash_of h' a = Some hc \<and> bucket hc ?t = j)" if j: "j < length cs" for j
  proof (cases "j = i")
    case True
    with c D(1,2) D(5) [of i] h'(2) i show ?thesis by (auto simp: b)
  next
    case False
    then have "h' a = h a" if "a \<in> set (cs ! j)" for a
      using in_chain_unique [OF D(7) j i that] h'(1) by blast
    then have "chain h' (slots ! j) (cs ! j) = chain h (slots ! j) (cs ! j)" by (rule chain_cong)
    with False D(2,4) D(5) [of j] h'(2) j show ?thesis by (auto simp: b)
  qed
  then show ?thesis using D(1,2,3) n by (simp add: tab_ok_def)
qed

lemma h_detach_ok:
  assumes ok: "tab_ok h t cs" and t: "tab t = Some slots" and i: "i < length cs" "cs ! i = ys @ a # zs"
  shows "\<exists>h' t'. h_detach h t (link_after (Slot i) ys) = Some (h', t', a) \<and> tab_ok h' t' (cs[i := ys @ zs])
    \<and> tab t' \<noteq> None \<and> tmask t' = tmask t \<and> (\<forall>x. hash_of h' x = hash_of h x)
    \<and> (\<forall>x. x \<notin> set (concat cs) - {a} \<longrightarrow> h' x = h x)"
proof -
  note D = tab_okD [OF ok t]
  have it: "i \<le> tmask t" "i < length slots" using i(1) D(1,2) by auto
  have ch: "chain h (slots ! i) (ys @ a # zs)" using D(4) [OF it(1)] i(2) by simp
  from chain_alloc [OF this] obtain n where n: "h a = Some n" by auto
  have rd: "rd_link h t (Slot i) = Some (slots ! i)" using t it by simp
  from rd_link_after [OF rd ch] n have rda: "rd_link h t (link_after (Slot i) ys) = Some (Some a)"
    and cz: "chain h (next_p n) zs"
    by auto
  let ?cs = "cs[i := ys @ zs]"
  have "mset (concat ?cs) + {#a#} = mset (concat cs)"
    using concat_update [of i cs "ys @ zs" "[a]" "[]"] i by (simp add: union_ac)
  then have dist: "distinct (concat ?cs)" and len: "length (concat cs) = length (concat ?cs) + 1"
    using D(7) mset_eq_imp_distinct_iff [of "a # concat ?cs" "concat cs"]
      mset_eq_length [of "a # concat ?cs" "concat cs"] by auto
  have sz: "wrap64 (tsize t + npos) = length (concat ?cs)"
    using D(6,8) len by (simp add: wrap64_def npos_def)
  have le: "length (concat ?cs) \<le> 2 ^ 60" using D(8) len by simp
  show ?thesis
  proof (cases ys rule: rev_cases)
    case Nil
    let ?t = "t\<lparr>tab := Some (slots[i := next_p n]), tsize := length (concat ?cs)\<rparr>"
    have "h_detach h t (link_after (Slot i) ys) = Some (h, ?t, a)"
      using Nil rda n t it sz by (simp add: h_detach_def)
    moreover have "tab_ok h ?t ?cs"
      using Nil i cz le dist by (intro tab_ok_replace [OF ok t i(1)]) auto
    ultimately show ?thesis by auto
  next
    case (snoc ys' y)
    have d: "distinct (ys' @ y # a # zs)"
      using distinct_concat_inner [OF D(7) nth_mem [OF i(1)]] i(2) snoc by simp
    from chain_unlink [of h "slots ! i" ys' y a zs n] ch snoc d n obtain ny where
      ny: "h y = Some ny" and cy: "chain (h(y \<mapsto> ny\<lparr>next_p := next_p n\<rparr>)) (slots ! i) (ys @ zs)" by auto
    let ?h = "h(y \<mapsto> ny\<lparr>next_p := next_p n\<rparr>)"
    let ?t = "t\<lparr>tab := Some (slots[i := slots ! i]), tsize := length (concat ?cs)\<rparr>"
    have "h_detach h t (link_after (Slot i) ys) = Some (?h, ?t, a)"
      using snoc rda n ny t sz by (simp add: h_detach_def link_after_snoc)
    moreover have "tab_ok ?h ?t ?cs"
      using i snoc cy le dist ny
      by (intro tab_ok_replace [OF ok t i(1)]) (auto simp: hash_of_def)
    moreover have "y \<in> set (concat cs) - {a}" using in_concat [OF i(1), of y] i snoc d by auto
    ultimately show ?thesis using ny by (auto simp: hash_of_def)
  qed
qed

section \<open>The map and its migration\<close>

text \<open>
  The chains of the two tables. While a migration runs, the slots of the older table before
  \<open>migration_pos\<close> are empty, which is what keeps the index of the migration within the table.
\<close>

definition hm_chains :: "hn_heap \<Rightarrow> HMap \<Rightarrow> addr list list \<Rightarrow> addr list list \<Rightarrow> bool" where
  "hm_chains h m cs ds \<longleftrightarrow>
     tab_ok h (newer m) cs \<and> tab_ok h (older m) ds \<and> distinct (concat cs @ concat ds)
     \<and> length (concat cs) + length (concat ds) < 2 ^ 59
     \<and> (tab (older m) \<noteq> None \<longrightarrow> tab (newer m) \<noteq> None)
     \<and> (\<forall>i < migration_pos m. i < length ds \<longrightarrow> ds ! i = [])"

text \<open>A step that moves nodes between the tables: same nodes, same hash codes, no other write.\<close>

definition moved :: "hn_heap \<Rightarrow> hn_heap \<Rightarrow> addr set \<Rightarrow> bool" where
  "moved h h' N \<longleftrightarrow> (\<forall>x. hash_of h' x = hash_of h x) \<and> (\<forall>x. x \<notin> N \<longrightarrow> h' x = h x)"

lemma moved_refl [simp]: "moved h h N"
  by (simp add: moved_def)

lemma moved_trans: "moved h h1 N \<Longrightarrow> moved h1 h2 N \<Longrightarrow> moved h h2 N"
  by (simp add: moved_def)

lemma migration_pos_bound:
  assumes "\<forall>i < k. i < length ds \<longrightarrow> ds ! i = []" "0 < length (concat ds)"
  shows "k < length ds"
proof (rule ccontr)
  assume "\<not> k < length ds"
  with assms(1) have "\<forall>d \<in> set ds. d = []" by (auto simp: in_set_conv_nth)
  then have "concat ds = []" by simp
  with assms(2) show False by simp
qed

lemma migrate_one:
  assumes ch: "hm_chains h m cs ds" and k: "migration_pos m < length ds"
    and ne: "ds ! migration_pos m = a # zs"
  shows "\<exists>h' o' h'' n' cs' ds'. h_detach h (older m) (Slot (migration_pos m)) = Some (h', o', a)
    \<and> h_insert h' (newer m) a = Some (h'', n')
    \<and> hm_chains h'' (m\<lparr>older := o', newer := n'\<rparr>) cs' ds' \<and> length (concat ds) = length (concat ds') + 1
    \<and> length ds' = length ds \<and> mset (concat cs' @ concat ds') = mset (concat cs @ concat ds)
    \<and> moved h h'' (set (concat cs) \<union> set (concat ds))"
proof -
  let ?k = "migration_pos m" and ?N = "set (concat cs) \<union> set (concat ds)"
  from ch have okn: "tab_ok h (newer m) cs" and oko: "tab_ok h (older m) ds"
    and dis: "distinct (concat cs @ concat ds)" and len: "length (concat cs) + length (concat ds) < 2 ^ 59"
    by (auto simp: hm_chains_def)
  from k obtain os where os: "tab (older m) = Some os" using oko by (auto simp: tab_ok_def split: option.splits)
  with ch obtain ns where ns: "tab (newer m) = Some ns" by (auto simp: hm_chains_def)
  let ?ds = "ds[?k := zs]"
  from h_detach_ok [OF oko os k, of "[]" a zs] ne obtain h' o' where
    d: "h_detach h (older m) (Slot ?k) = Some (h', o', a)" "tab_ok h' o' ?ds" "tab o' \<noteq> None"
      "\<forall>x. hash_of h' x = hash_of h x" "\<forall>x. x \<notin> set (concat ds) - {a} \<longrightarrow> h' x = h x"
    by auto
  have md: "mset (concat ?ds) + {#a#} = mset (concat ds)"
    using concat_update [of ?k ds zs "[a]" "[]"] k ne by simp
  have ain: "a \<in> set (concat ds)" using in_concat [OF k] ne by auto
  have okn': "tab_ok h' (newer m) cs" using dis d(5) by (intro tab_ok_cong [OF okn]) auto
  obtain na where na: "h' a = Some na" using chain_alloc tab_okD(4) [OF oko os, of ?k] d(5) k ne tab_okD(2) [OF oko os]
    by fastforce
  let ?b = "bucket (hash_code na) (newer m)"
  let ?cs = "cs[?b := a # cs ! ?b]"
  have "a \<notin> set (concat cs)" using dis ain by auto
  from h_insert_ok [OF okn' ns na this] len obtain h'' n' where
    i: "h_insert h' (newer m) a = Some (h'', n')" "tab_ok h'' n' ?cs" "?b < length cs" "tab n' \<noteq> None"
      "hash_of h'' a = hash_of h' a" "\<forall>x. x \<noteq> a \<longrightarrow> h'' x = h' x"
    by auto
  have mc: "mset (concat ?cs) = mset (concat cs) + {#a#}"
    using concat_update [of ?b cs "a # cs ! ?b" "[]" "[a]"] i(3) by simp
  have ms: "mset (concat ?cs @ concat ?ds) = mset (concat cs @ concat ds)"
    using mc md by (simp add: union_ac)
  have dis': "distinct (concat ?cs @ concat ?ds)" using dis mset_eq_imp_distinct_iff [OF ms] by simp
  have "a \<in> set (concat ?cs)" using mc by (metis add_mset_add_single set_mset_mset union_single_eq_member)
  then have "a \<notin> set (concat ?ds)" using dis' by auto
  then have oko'': "tab_ok h'' o' ?ds" using i(6) by (intro tab_ok_cong [OF d(2)]) metis
  have "hm_chains h'' (m\<lparr>older := o', newer := n'\<rparr>) ?cs ?ds"
    using ch i d oko'' dis' mset_eq_length [OF ms] by (auto simp: hm_chains_def nth_list_update)
  moreover have "moved h h'' ?N"
    using d(4,5) i(5,6) ain by (auto simp: moved_def hash_of_def)
  moreover have "length (concat ds) = length (concat ?ds) + 1"
    using mset_eq_length [of "concat ds" "a # concat ?ds"] md by simp
  ultimately show ?thesis using d(1) i(1) ms by fastforce
qed

lemma help_loop_ok:
  assumes "hm_chains h m cs ds"
  shows "\<exists>h' m' cs' ds'. help_loop h m work = Some (h', m') \<and> hm_chains h' m' cs' ds'
    \<and> mset (concat cs' @ concat ds') = mset (concat cs @ concat ds)
    \<and> moved h h' (set (concat cs) \<union> set (concat ds))
    \<and> (tab (older m) = None \<longrightarrow> h' = h \<and> m' = m)"
  using assms
proof (induction "length (concat ds) + (length ds - migration_pos m)" arbitrary: h m cs ds work
    rule: less_induct)
  case less
  note ch = less.prems
  have oko: "tab_ok h (older m) ds" and bnd: "length (concat ds) < 2 ^ 59"
    using ch by (auto simp: hm_chains_def)
  let ?k = "migration_pos m"
  show ?case
  proof (cases "work < k_rehashing_work \<and> tsize (older m) > 0")
    case False
    with ch show ?thesis by (subst help_loop.simps) auto
  next
    case True
    from True oko obtain os where os: "tab (older m) = Some os"
      by (auto simp: tab_ok_def HTable0_def split: option.splits)
    note D = tab_okD [OF oko os]
    have k: "?k < length ds"
      using migration_pos_bound [of ?k ds] ch True D(6) by (auto simp: hm_chains_def)
    have rd: "rd_link h (older m) (Slot ?k) = Some (os ! ?k)" using os k D(1,2) by simp
    have chk: "chain h (os ! ?k) (ds ! ?k)" using D(4) k D(2) by simp
    show ?thesis
    proof (cases "ds ! ?k")
      case Nil
      have "wrap64 (?k + 1) = ?k + 1" using k D(2,3) by simp
      moreover have "hm_chains h (m\<lparr>migration_pos := ?k + 1\<rparr>) cs ds"
        using ch Nil by (auto simp: hm_chains_def less_Suc_eq)
      ultimately show ?thesis
        using less.hyps [of ds "m\<lparr>migration_pos := ?k + 1\<rparr>" h cs work] k True rd chk Nil os
        by (subst help_loop.simps) auto
    next
      case (Cons a zs)
      from migrate_one [OF ch k Cons] obtain h1 o' h2 n' cs' ds' where
        mv: "h_detach h (older m) (Slot ?k) = Some (h1, o', a)" "h_insert h1 (newer m) a = Some (h2, n')"
          "hm_chains h2 (m\<lparr>older := o', newer := n'\<rparr>) cs' ds'" "length (concat ds) = length (concat ds') + 1"
          "length ds' = length ds" "mset (concat cs' @ concat ds') = mset (concat cs @ concat ds)"
          "moved h h2 (set (concat cs) \<union> set (concat ds))"
        by blast
      have st: "set (concat cs') \<union> set (concat ds') = set (concat cs) \<union> set (concat ds)"
        using mset_eq_setD [OF mv(6)] by simp
      have "help_loop h m work = help_loop h2 (m\<lparr>older := o', newer := n'\<rparr>) (work + 1)"
        using True rd chk Cons mv(1,2) by (subst help_loop.simps) auto
      with less.hyps [OF _ mv(3), of "work + 1"] mv(4,5,6) os st moved_trans [OF mv(7)] show ?thesis
        by fastforce
    qed
  qed
qed

text \<open>The client's view of a map: the set of its nodes.\<close>

definition hm_ok :: "hn_heap \<Rightarrow> HMap \<Rightarrow> addr set \<Rightarrow> bool" where
  "hm_ok h m N \<longleftrightarrow> (\<exists>cs ds. hm_chains h m cs ds \<and> N = set (concat cs) \<union> set (concat ds))"

lemma hm_okI: "hm_chains h m cs ds \<Longrightarrow> set (concat cs) \<union> set (concat ds) = N \<Longrightarrow> hm_ok h m N"
  unfolding hm_ok_def by blast

lemma hm_help_ok:
  assumes "hm_chains h m cs ds"
  shows "\<exists>h' m' cs' ds'. hm_help_rehashing h m = Some (h', m') \<and> hm_chains h' m' cs' ds'
    \<and> mset (concat cs' @ concat ds') = mset (concat cs @ concat ds)
    \<and> moved h h' (set (concat cs) \<union> set (concat ds))
    \<and> (tab (older m) = None \<longrightarrow> h' = h \<and> m' = m)"
proof -
  from help_loop_ok [OF assms, of 0] obtain h1 m1 cs1 ds1 where
    l: "help_loop h m 0 = Some (h1, m1)" "hm_chains h1 m1 cs1 ds1"
      "mset (concat cs1 @ concat ds1) = mset (concat cs @ concat ds)"
      "moved h h1 (set (concat cs) \<union> set (concat ds))" "tab (older m) = None \<longrightarrow> h1 = h \<and> m1 = m"
    by (elim exE conjE)
  show ?thesis
  proof (cases "tsize (older m1) = 0 \<and> tab (older m1) \<noteq> None")
    case True
    then have "concat ds1 = []" using l(2) by (auto simp: hm_chains_def tab_ok_def)
    moreover from this l(2) have "hm_chains h1 (m1\<lparr>older := HTable0\<rparr>) cs1 []"
      by (auto simp: hm_chains_def tab_ok_def HTable0_def)
    ultimately show ?thesis using l True
      by - (rule exI [of _ h1], rule exI [of _ "m1\<lparr>older := HTable0\<rparr>"], rule exI [of _ cs1],
          rule exI [of _ "[]"], auto simp: hm_help_rehashing_def simp del: concat_eq_Nil_conv)
  next
    case False
    with l show ?thesis by (fastforce simp: hm_help_rehashing_def)
  qed
qed

lemma hm_size_ok: "hm_ok h m N \<Longrightarrow> hm_size m = card N \<and> finite N"
proof -
  assume "hm_ok h m N"
  then obtain cs ds where ch: "hm_chains h m cs ds" and N: "N = set (concat cs @ concat ds)"
    by (auto simp: hm_ok_def)
  have "card N = length (concat cs @ concat ds)"
    unfolding N using ch by (intro distinct_card) (simp add: hm_chains_def)
  moreover have "tsize (newer m) = length (concat cs)" "tsize (older m) = length (concat ds)"
    using ch by (auto simp: hm_chains_def tab_ok_def)
  ultimately show ?thesis using ch N by (simp add: hm_size_def hm_chains_def)
qed

definition found :: "hn_heap \<Rightarrow> addr set \<Rightarrow> u64 \<Rightarrow> (addr \<Rightarrow> bool) \<Rightarrow> ptr \<Rightarrow> bool" where
  "found h N hc E p \<longleftrightarrow>
     (case p of
        None \<Rightarrow> \<forall>a \<in> N. \<not> (hash_of h a = Some hc \<and> E a)
      | Some a \<Rightarrow> a \<in> N \<and> hash_of h a = Some hc \<and> E a)"

lemma found_moved: "moved h h' M \<Longrightarrow> found h' N hc E p = found h N hc E p"
  by (auto simp: found_def moved_def split: option.splits)

lemma link_after_read:
  assumes "tab_ok h t cs" "i < length cs" "cs ! i = ys @ a # zs"
  shows "rd_link h t (link_after (Slot i) ys) = Some (Some a) \<and> (\<exists>slots. tab t = Some slots)"
proof -
  from assms obtain slots where s: "tab t = Some slots" by (auto simp: tab_ok_def split: option.splits)
  note D = tab_okD [OF assms(1) s]
  have "rd_link h t (Slot i) = Some (slots ! i)" "chain h (slots ! i) (ys @ a # zs)"
    using s assms D(1,2) D(4) [of i] by simp_all
  from rd_link_after [OF this] s show ?thesis by auto
qed

lemma h_lookup_cases:
  assumes ok: "tab_ok h t cs" and eq: "\<forall>a \<in> set (concat cs). eq a = Some (E a)"
  obtains
    (found) i ys a zs where "h_lookup h t hc eq = Some (Some (link_after (Slot i) ys))"
      "i < length cs" "cs ! i = ys @ a # zs" "hash_of h a = Some hc" "E a"
  | (missing) "h_lookup h t hc eq = Some None" "\<forall>a \<in> set (concat cs). \<not> (hash_of h a = Some hc \<and> E a)"
  using h_lookup_ok [OF ok, of eq E hc] eq by blast

lemma hm_lookup_chains:
  assumes ok: "hm_chains h m cs ds" and eq: "\<forall>a \<in> set (concat cs) \<union> set (concat ds). eq a = Some (E a)"
  shows "\<exists>p. do {
       from \<leftarrow> h_lookup h (newer m) hc eq;
       (case from of
          Some l \<Rightarrow> do { p \<leftarrow> rd_link h (newer m) l; Some (h, m, p) }
        | None \<Rightarrow> do {
            from \<leftarrow> h_lookup h (older m) hc eq;
            (case from of
               Some l \<Rightarrow> do { p \<leftarrow> rd_link h (older m) l; Some (h, m, p) }
             | None \<Rightarrow> Some (h, m, None))
          })
     } = Some (h, m, p) \<and> found h (set (concat cs) \<union> set (concat ds)) hc E p"
proof -
  have okn: "tab_ok h (newer m) cs" and oko: "tab_ok h (older m) ds"
    using ok by (auto simp: hm_chains_def)
  show ?thesis
  proof (cases rule: h_lookup_cases [OF okn, of eq E hc])
    case (2 i ys a zs)
    with link_after_read [OF okn 2(2,3)] in_concat [OF 2(2), of a] show ?thesis
      by (auto simp: found_def)
  next
    case 3
    note n = 3
    show ?thesis
    proof (cases rule: h_lookup_cases [OF oko, of eq E hc])
      case (2 i ys a zs)
      with n link_after_read [OF oko 2(2,3)] in_concat [OF 2(2), of a] show ?thesis
        by (auto simp: found_def)
    next
      case 3
      with n show ?thesis by (auto simp: found_def)
    qed (use eq in auto)
  qed (use eq in auto)
qed

lemma hm_lookup_ok:
  assumes ok: "hm_ok h m N" and eq: "\<forall>a \<in> N. eq a = Some (E a)"
  shows "\<exists>h' m' p. hm_lookup h m hc eq = Some (h', m', p) \<and> hm_ok h' m' N \<and> moved h h' N
    \<and> found h N hc E p \<and> (tab (older m) = None \<longrightarrow> h' = h \<and> m' = m)"
proof -
  from ok obtain cs ds where ch: "hm_chains h m cs ds" and N: "N = set (concat cs) \<union> set (concat ds)"
    by (auto simp: hm_ok_def)
  from hm_help_ok [OF ch] obtain h1 m1 cs1 ds1 where
    l: "hm_help_rehashing h m = Some (h1, m1)" "hm_chains h1 m1 cs1 ds1"
      "mset (concat cs1 @ concat ds1) = mset (concat cs @ concat ds)"
      "moved h h1 N" "tab (older m) = None \<longrightarrow> h1 = h \<and> m1 = m"
    unfolding N by (elim exE conjE)
  have st: "set (concat cs1) \<union> set (concat ds1) = N" using mset_eq_setD [OF l(3)] N by simp
  from hm_lookup_chains [OF l(2), of eq E hc] eq st obtain p where
    p: "hm_lookup h m hc eq = Some (h1, m1, p)" "found h1 N hc E p"
    using l(1) by (auto simp: hm_lookup_def)
  moreover have "hm_ok h1 m1 N" using l(2) st by (auto simp: hm_ok_def)
  ultimately show ?thesis using l(4,5) found_moved [OF l(4)] by auto
qed

lemma concat_without:
  assumes "i < length xs" "xs ! i = ys @ a # zs"
  shows "mset (a # concat (xs[i := ys @ zs])) = mset (concat xs)"
  using concat_update [of i xs "ys @ zs" "[a]" "[]"] assms by (simp add: union_ac)

text \<open>
  Detaching the node at a position of one of the two tables: the map keeps every other node, and no
  object outside of the map is written.
\<close>

lemma detach_newer:
  assumes ok: "hm_chains h m cs ds" and at: "i < length cs" "cs ! i = ys @ a # zs"
  defines "N \<equiv> set (concat cs) \<union> set (concat ds)"
  shows "\<exists>h' t'. h_detach h (newer m) (link_after (Slot i) ys) = Some (h', t', a)
    \<and> hm_ok h' (m\<lparr>newer := t'\<rparr>) (N - {a}) \<and> moved h h' N \<and> tmask t' = tmask (newer m)
    \<and> tab t' \<noteq> None \<and> tab (newer m) \<noteq> None"
proof -
  let ?cs = "cs[i := ys @ zs]"
  have okn: "tab_ok h (newer m) cs" and oko: "tab_ok h (older m) ds" and dis: "distinct (concat cs @ concat ds)"
    using ok by (auto simp: hm_chains_def)
  from link_after_read [OF okn at] obtain slots where s: "tab (newer m) = Some slots" by blast
  from h_detach_ok [OF okn s at] obtain h' t' where
    d: "h_detach h (newer m) (link_after (Slot i) ys) = Some (h', t', a)" "tab_ok h' t' ?cs"
      "tab t' \<noteq> None" "tmask t' = tmask (newer m)" "\<forall>x. hash_of h' x = hash_of h x"
      "\<forall>x. x \<notin> set (concat cs) - {a} \<longrightarrow> h' x = h x"
    by blast
  have ms: "mset (a # concat ?cs @ concat ds) = mset (concat cs @ concat ds)"
    using concat_without [OF at] by simp
  have dis': "distinct (a # concat ?cs @ concat ds)" using mset_eq_imp_distinct_iff [OF ms] dis by simp
  have oko': "tab_ok h' (older m) ds" using dis d(6) by (intro tab_ok_cong [OF oko]) auto
  have "hm_chains h' (m\<lparr>newer := t'\<rparr>) ?cs ds"
    using ok d oko' dis' mset_eq_length [OF ms] by (auto simp: hm_chains_def)
  moreover have "set (concat ?cs) \<union> set (concat ds) = N - {a}"
    using mset_eq_setD [OF ms] dis' by (auto simp: N_def)
  ultimately have "hm_ok h' (m\<lparr>newer := t'\<rparr>) (N - {a})" by (metis hm_ok_def)
  then show ?thesis using d s by (auto simp: moved_def N_def)
qed

lemma detach_older:
  assumes ok: "hm_chains h m cs ds" and at: "i < length ds" "ds ! i = ys @ a # zs"
  defines "N \<equiv> set (concat cs) \<union> set (concat ds)"
  shows "\<exists>h' t'. h_detach h (older m) (link_after (Slot i) ys) = Some (h', t', a)
    \<and> hm_ok h' (m\<lparr>older := t'\<rparr>) (N - {a}) \<and> moved h h' N \<and> tab (older m) \<noteq> None"
proof -
  let ?ds = "ds[i := ys @ zs]"
  have okn: "tab_ok h (newer m) cs" and oko: "tab_ok h (older m) ds" and dis: "distinct (concat cs @ concat ds)"
    using ok by (auto simp: hm_chains_def)
  from link_after_read [OF oko at] obtain slots where s: "tab (older m) = Some slots" by blast
  from h_detach_ok [OF oko s at] obtain h' t' where
    d: "h_detach h (older m) (link_after (Slot i) ys) = Some (h', t', a)" "tab_ok h' t' ?ds"
      "tab t' \<noteq> None" "tmask t' = tmask (older m)" "\<forall>x. hash_of h' x = hash_of h x"
      "\<forall>x. x \<notin> set (concat ds) - {a} \<longrightarrow> h' x = h x"
    by blast
  have ms: "mset (a # concat cs @ concat ?ds) = mset (concat cs @ concat ds)"
    using concat_without [OF at] by simp
  have dis': "distinct (a # concat cs @ concat ?ds)" using mset_eq_imp_distinct_iff [OF ms] dis by simp
  have okn': "tab_ok h' (newer m) cs" using dis d(6) by (intro tab_ok_cong [OF okn]) auto
  have "hm_chains h' (m\<lparr>older := t'\<rparr>) cs ?ds"
    using ok d okn' dis' mset_eq_length [OF ms] at s by (auto simp: hm_chains_def nth_list_update)
  moreover have "set (concat cs) \<union> set (concat ?ds) = N - {a}"
    using mset_eq_setD [OF ms] dis' by (auto simp: N_def)
  ultimately have "hm_ok h' (m\<lparr>older := t'\<rparr>) (N - {a})" by (metis hm_ok_def)
  then show ?thesis using d s by (auto simp: moved_def N_def)
qed

lemma hm_delete_chains:
  assumes ok: "hm_chains h m cs ds" and eq: "\<forall>a \<in> set (concat cs) \<union> set (concat ds). eq a = Some (E a)"
  defines "N \<equiv> set (concat cs) \<union> set (concat ds)"
  shows "\<exists>h' m' p. do {
       from \<leftarrow> h_lookup h (newer m) hc eq;
       (case from of
          Some l \<Rightarrow> do { (h, t, a) \<leftarrow> h_detach h (newer m) l; Some (h, m\<lparr>newer := t\<rparr>, Some a) }
        | None \<Rightarrow> do {
            from \<leftarrow> h_lookup h (older m) hc eq;
            (case from of
               Some l \<Rightarrow> do { (h, t, a) \<leftarrow> h_detach h (older m) l; Some (h, m\<lparr>older := t\<rparr>, Some a) }
             | None \<Rightarrow> Some (h, m, None))
          })
     } = Some (h', m', p) \<and> hm_ok h' m' (N - set_option p) \<and> moved h h' N \<and> found h N hc E p
       \<and> (tab (older m) = None \<longrightarrow> older m' = older m \<and> tmask (newer m') = tmask (newer m)
          \<and> (tab (newer m') = None) = (tab (newer m) = None))"
proof -
  have okn: "tab_ok h (newer m) cs" and oko: "tab_ok h (older m) ds"
    using ok by (auto simp: hm_chains_def)
  show ?thesis
  proof (cases rule: h_lookup_cases [OF okn, of eq E hc])
    case (2 i ys a zs)
    have "found h N hc E (Some a)" using 2 in_concat [OF 2(2), of a] by (auto simp: found_def N_def)
    with detach_newer [OF ok 2(2,3)] 2(1) show ?thesis by (auto simp: N_def)
  next
    case 3
    note n = 3
    show ?thesis
    proof (cases rule: h_lookup_cases [OF oko, of eq E hc])
      case (2 i ys a zs)
      have "found h N hc E (Some a)" using 2 in_concat [OF 2(2), of a] by (auto simp: found_def N_def)
      with detach_older [OF ok 2(2,3)] 2(1) n show ?thesis by (auto simp: N_def)
    next
      case 3
      with n ok show ?thesis by (auto simp: found_def hm_ok_def N_def)
    qed (use eq in auto)
  qed (use eq in auto)
qed

lemma hm_delete_ok:
  assumes ok: "hm_ok h m N" and eq: "\<forall>a \<in> N. eq a = Some (E a)"
  shows "\<exists>h' m' p. hm_delete h m hc eq = Some (h', m', p) \<and> hm_ok h' m' (N - set_option p) \<and> moved h h' N
    \<and> found h N hc E p
    \<and> (tab (older m) = None \<longrightarrow> older m' = older m \<and> tmask (newer m') = tmask (newer m)
          \<and> (tab (newer m') = None) = (tab (newer m) = None))"
proof -
  from ok obtain cs ds where ch: "hm_chains h m cs ds" and N: "N = set (concat cs) \<union> set (concat ds)"
    by (auto simp: hm_ok_def)
  from hm_help_ok [OF ch] obtain h1 m1 cs1 ds1 where
    l: "hm_help_rehashing h m = Some (h1, m1)" "hm_chains h1 m1 cs1 ds1"
      "mset (concat cs1 @ concat ds1) = mset (concat cs @ concat ds)"
      "moved h h1 N" "tab (older m) = None \<longrightarrow> h1 = h \<and> m1 = m"
    unfolding N by (elim exE conjE)
  have st: "set (concat cs1) \<union> set (concat ds1) = N" using mset_eq_setD [OF l(3)] N by simp
  from hm_delete_chains [OF l(2), of eq E hc] eq st obtain h' m' p where
    p: "hm_delete h m hc eq = Some (h', m', p)" "hm_ok h' m' (N - set_option p)" "moved h1 h' N"
      "found h1 N hc E p"
      "tab (older m1) = None \<longrightarrow> older m' = older m1 \<and> tmask (newer m') = tmask (newer m1)
        \<and> (tab (newer m') = None) = (tab (newer m1) = None)"
    using l(1) by (auto simp: hm_delete_def)
  show ?thesis using p moved_trans [OF l(4) p(3)] found_moved [OF l(4)] l(5) by auto
qed

text \<open>Insertion: the table exists or is created with four slots; rehashing may start.\<close>

lemma h_init_ok: "h_init n = Some t \<Longrightarrow> n \<le> 2 ^ 60 \<Longrightarrow>
    tab_ok h t (replicate n []) \<and> tab t \<noteq> None \<and> tmask t = n - 1 \<and> tsize t = 0"
  by (auto simp: h_init_def assertion_def tab_ok_def split: if_splits)

definition hm_open :: "HMap \<Rightarrow> HMap" where
  "hm_open m = (if tab (newer m) = None
     then m\<lparr>newer := \<lparr>tab = Some (replicate 4 None), tmask = 3, tsize = 0\<rparr>\<rparr> else m)"

lemma h_init_4: "h_init 4 = Some \<lparr>tab = Some (replicate 4 None), tmask = 3, tsize = 0\<rparr>"
  by (simp add: h_init_def)

lemma hm_open_code:
  "(if tab (newer m) = None then do { t \<leftarrow> h_init 4; Some (m\<lparr>newer := t\<rparr>) } else Some m) = Some (hm_open m)"
  by (simp add: hm_open_def h_init_4)

lemma hm_open_ok:
  assumes "hm_ok h m N"
  shows "hm_ok h (hm_open m) N \<and> tab (newer (hm_open m)) \<noteq> None \<and> older (hm_open m) = older m"
proof (cases "tab (newer m)")
  case None
  from assms obtain cs ds where ch: "hm_chains h m cs ds" and N: "N = set (concat cs) \<union> set (concat ds)"
    by (auto simp: hm_ok_def)
  from None ch have "cs = []" "tab (older m) = None" by (auto simp: hm_chains_def tab_ok_def)
  then have "hm_chains h (hm_open m) (replicate 4 []) ds"
    using ch None h_init_ok [OF h_init_4, of h] by (auto simp: hm_open_def hm_chains_def)
  moreover have "N = set (concat (replicate 4 [])) \<union> set (concat ds)" using N \<open>cs = []\<close> by simp
  ultimately have "hm_ok h (hm_open m) N" unfolding hm_ok_def by blast
  with None show ?thesis by (simp add: hm_open_def)
qed (use assms in \<open>simp add: hm_open_def\<close>)

text \<open>
  The threshold test and the size \<open>hm_trigger_rehash\<close> asks of \<open>h_init\<close>, for a map that holds
  \<open>n\<close> nodes after the insertion.
\<close>

definition over_threshold :: "HMap \<Rightarrow> nat \<Rightarrow> bool" where
  "over_threshold m n \<longleftrightarrow> tab (older m) = None \<and> (tmask (newer m) + 1) * 8 \<le> n"

definition growable :: "nat \<Rightarrow> bool" where
  "growable n \<longleftrightarrow> (n + 1) * 2 AND ((n + 1) * 2 - 1) = 0"

lemma h_init_growable:
  "n + 1 < 2 ^ 63 \<Longrightarrow> h_init (wrap64 (wrap64 (n + 1) * 2)) =
     (if growable n then Some \<lparr>tab = Some (replicate ((n + 1) * 2) None), tmask = (n + 1) * 2 - 1, tsize = 0\<rparr>
      else None)"
  by (simp add: h_init_def growable_def assertion_def)

lemma hm_trigger_ok:
  assumes ch: "hm_chains h m cs ds" and old: "tab (older m) = None" and t: "tab (newer m) \<noteq> None"
  shows "hm_trigger_rehash m =
      (if growable (length (concat cs)) then Some (m\<lparr>older := newer m, newer := the (h_init ((length (concat cs) + 1) * 2)),
         migration_pos := 0\<rparr>) else None)"
    and "growable (length (concat cs)) \<Longrightarrow> hm_chains h (m\<lparr>older := newer m,
      newer := the (h_init ((length (concat cs) + 1) * 2)), migration_pos := 0\<rparr>)
      (replicate ((length (concat cs) + 1) * 2) []) cs"
proof -
  let ?n = "length (concat cs)"
  have ok: "tab_ok h (newer m) cs" and b: "?n < 2 ^ 59" and ds: "ds = []"
    using ch old by (auto simp: hm_chains_def tab_ok_def)
  then have sz: "tsize (newer m) = ?n" by (simp add: tab_ok_def)
  have w: "wrap64 (wrap64 (?n + 1) * 2) = (?n + 1) * 2" using b by simp
  have hi: "h_init ((?n + 1) * 2) = (if growable ?n then Some \<lparr>tab = Some (replicate ((?n + 1) * 2) None),
      tmask = (?n + 1) * 2 - 1, tsize = 0\<rparr> else None)"
    using h_init_growable [of ?n] b w by simp
  show "hm_trigger_rehash m =
      (if growable ?n then Some (m\<lparr>older := newer m, newer := the (h_init ((?n + 1) * 2)),
         migration_pos := 0\<rparr>) else None)"
    using old sz w hi by (simp add: hm_trigger_rehash_def)
  assume g: "growable ?n"
  then obtain t' where t': "h_init ((?n + 1) * 2) = Some t'" using hi by simp
  have "(?n + 1) * 2 \<le> 2 ^ 60" using b by simp
  from h_init_ok [OF t' this, of h] t' ok ch t
  show "hm_chains h (m\<lparr>older := newer m, newer := the (h_init ((?n + 1) * 2)), migration_pos := 0\<rparr>)
      (replicate ((?n + 1) * 2) []) cs"
    by (simp add: hm_chains_def)
qed

text \<open>
  Inserting into the newer table of an open map, before the threshold is looked at.
\<close>

lemma insert_newer:
  assumes ch: "hm_chains h m cs ds" and s: "tab (newer m) \<noteq> None" and a: "h a = Some n"
  defines "N \<equiv> set (concat cs) \<union> set (concat ds)"
  assumes new: "a \<notin> N" and room: "card N + 1 < 2 ^ 59"
  shows "\<exists>h' t cs'. h_insert h (newer m) a = Some (h', t) \<and> hm_chains h' (m\<lparr>newer := t\<rparr>) cs' ds
    \<and> set (concat cs') \<union> set (concat ds) = insert a N \<and> length (concat cs') + length (concat ds) = card N + 1
    \<and> tmask t = tmask (newer m) \<and> tab t \<noteq> None \<and> moved h h' (insert a N)"
proof -
  let ?b = "bucket (hash_code n) (newer m)"
  let ?cs = "cs[?b := a # cs ! ?b]"
  from s obtain slots where s: "tab (newer m) = Some slots" by blast
  have cN: "card N = length (concat cs) + length (concat ds)"
    using ch distinct_card [of "concat cs @ concat ds"] by (simp add: N_def hm_chains_def)
  have okn: "tab_ok h (newer m) cs" and oko: "tab_ok h (older m) ds" and an: "a \<notin> set (concat cs)"
    using ch new by (auto simp: hm_chains_def N_def)
  from h_insert_ok [OF okn s a an] room cN obtain h1 t1 where
    i: "h_insert h (newer m) a = Some (h1, t1)" "tab_ok h1 t1 ?cs" "?b < length cs" "tab t1 \<noteq> None"
      "tmask t1 = tmask (newer m)" "hash_of h1 a = hash_of h a" "\<forall>x. x \<noteq> a \<longrightarrow> h1 x = h x"
    by auto
  have ms: "mset (concat ?cs @ concat ds) = mset (a # concat cs @ concat ds)"
    using concat_update [of ?b cs "a # cs ! ?b" "[]" "[a]"] i(3) by (simp add: union_ac)
  have dis: "distinct (concat ?cs @ concat ds)"
    using mset_eq_imp_distinct_iff [OF ms] ch new by (simp add: hm_chains_def N_def)
  have "tab_ok h1 (older m) ds" using new i(7) by (intro tab_ok_cong [OF oko]) (auto simp: N_def)
  then have "hm_chains h1 (m\<lparr>newer := t1\<rparr>) ?cs ds"
    using ch i dis mset_eq_length [OF ms] room cN by (auto simp: hm_chains_def)
  moreover have "set (concat ?cs) \<union> set (concat ds) = insert a N"
    using mset_eq_setD [OF ms] by (simp add: N_def)
  moreover have "moved h h1 (insert a N)" using i(6,7) by (auto simp: moved_def hash_of_def)
  moreover have "length (concat ?cs) + length (concat ds) = card N + 1" using mset_eq_length [OF ms] cN by simp
  ultimately show ?thesis using i(1,4,5) by blast
qed

lemma help_keeps:
  assumes ch: "hm_chains h m cs ds" and N: "set (concat cs) \<union> set (concat ds) = N"
  shows "\<exists>h' m'. hm_help_rehashing h m = Some (h', m') \<and> hm_ok h' m' N \<and> moved h h' N
    \<and> (tab (older m) = None \<longrightarrow> h' = h \<and> m' = m)"
proof -
  from hm_help_ok [OF ch, unfolded N] obtain h' m' cs' ds' where
    l: "hm_help_rehashing h m = Some (h', m')" "hm_chains h' m' cs' ds'"
      "mset (concat cs' @ concat ds') = mset (concat cs @ concat ds)"
      "moved h h' N" "tab (older m) = None \<longrightarrow> h' = h \<and> m' = m"
    by (elim exE conjE)
  have "hm_ok h' m' N" using hm_okI [OF l(2)] mset_eq_setD [OF l(3)] N by simp
  then show ?thesis using l by auto
qed

lemma hm_insert_ok:
  assumes ok: "hm_ok h m N" and a: "h a = Some n" "a \<notin> N" and room: "card N + 1 < 2 ^ 59"
  defines "stuck \<equiv> over_threshold (hm_open m) (card N + 1) \<and> \<not> growable (card N + 1)"
  shows "stuck \<Longrightarrow> hm_insert h m a = None"
    and "\<not> stuck \<Longrightarrow> \<exists>h' m'. hm_insert h m a = Some (h', m') \<and> hm_ok h' m' (insert a N)
      \<and> moved h h' (insert a N)
      \<and> (\<not> over_threshold (hm_open m) (card N + 1) \<longrightarrow> tab (older m) = None \<longrightarrow>
          older m' = older m \<and> tmask (newer m') = tmask (newer (hm_open m)))"
proof -
  let ?m = "hm_open m"
  from hm_open_ok [OF ok] obtain cs ds where ch: "hm_chains h ?m cs ds"
    and N: "set (concat cs) \<union> set (concat ds) = N" and s: "tab (newer ?m) \<noteq> None" and old: "older ?m = older m"
    by (auto simp: hm_ok_def)
  have okn: "tab_ok h (newer ?m) cs" and oko: "tab_ok h (older ?m) ds" using ch by (auto simp: hm_chains_def)
  from insert_newer [OF ch s a(1), unfolded N, OF a(2) room] obtain h1 t1 cs1 where
    i: "h_insert h (newer ?m) a = Some (h1, t1)" and ch1: "hm_chains h1 (?m\<lparr>newer := t1\<rparr>) cs1 ds"
      and N1: "set (concat cs1) \<union> set (concat ds) = insert a N"
      and len: "length (concat cs1) + length (concat ds) = card N + 1"
      and t1: "tmask t1 = tmask (newer ?m)" "tab t1 \<noteq> None" and mv: "moved h h1 (insert a N)"
    by (elim exE conjE)
  let ?m1 = "?m\<lparr>newer := t1\<rparr>"
  have len1: "tab (older m) = None \<Longrightarrow> length (concat cs1) = card N + 1 \<and> ds = []"
    using len oko old by (simp add: tab_ok_def)
  have sz: "tsize t1 = length (concat cs1)" using ch1 by (simp add: hm_chains_def tab_ok_def)
  have thr: "wrap64 (wrap64 (tmask t1 + 1) * k_max_load_factor) = (tmask (newer ?m) + 1) * 8"
    using t1 s tab_okD(3) [OF okn] by (auto simp: k_max_load_factor_def)
  have code: "hm_insert h m a = (if over_threshold ?m (card N + 1)
      then (hm_trigger_rehash ?m1 \<bind> hm_help_rehashing h1) else hm_help_rehashing h1 ?m1)"
    using i thr sz len1
    by (simp add: hm_insert_def hm_open_code Let_def over_threshold_def old del: wrap64_id)
  have trigger: "over_threshold ?m (card N + 1) \<Longrightarrow> tab (older ?m1) = None \<and> tab (newer ?m1) \<noteq> None"
    using old t1 by (simp add: over_threshold_def)
  {
    assume "stuck"
    with code hm_trigger_ok(1) [OF ch1] trigger len1 old show "hm_insert h m a = None"
      by (simp add: stuck_def over_threshold_def)
  }
  assume ns: "\<not> stuck"
  show "\<exists>h' m'. hm_insert h m a = Some (h', m') \<and> hm_ok h' m' (insert a N) \<and> moved h h' (insert a N)
      \<and> (\<not> over_threshold (hm_open m) (card N + 1) \<longrightarrow> tab (older m) = None \<longrightarrow>
          older m' = older m \<and> tmask (newer m') = tmask (newer (hm_open m)))"
  proof (cases "over_threshold ?m (card N + 1)")
    case True
    with ns len1 old have g: "growable (length (concat cs1))" and ds: "ds = []"
      by (auto simp: stuck_def over_threshold_def)
    note tr = hm_trigger_ok [OF ch1 conjunct1 [OF trigger [OF True]] conjunct2 [OF trigger [OF True]]]
    from help_keeps [OF tr(2) [OF g], of "insert a N"] N1 ds show ?thesis
      using code True g tr(1) moved_trans [OF mv] by auto
  next
    case False
    from help_keeps [OF ch1 N1] show ?thesis using code False old t1(1) moved_trans [OF mv] by auto
  qed
qed

section \<open>Traversal\<close>

fun visit :: "(addr \<Rightarrow> 's \<Rightarrow> (bool \<times> 's) option) \<Rightarrow> addr list \<Rightarrow> 's \<Rightarrow> (bool \<times> 's) option" where
  "visit f [] s = Some (True, s)"
| "visit f (a # as) s = do { (go, s) \<leftarrow> f a s; if go then visit f as s else Some (False, s) }"

lemma visit_append:
  "visit f (xs @ ys) s = do { (go, s) \<leftarrow> visit f xs s; if go then visit f ys s else Some (False, s) }"
  by (induction xs arbitrary: s) (auto simp: case_prod_unfold split: bind_splits)

lemma foreach_chain_at: "chain h p xs \<Longrightarrow> foreach_chain h f p s = visit f xs s"
proof (induction xs arbitrary: p s)
  case Nil
  then show ?case by (simp add: foreach_chain.simps)
next
  case (Cons a xs)
  then obtain n where "p = Some a" "h a = Some n" "chain h (next_p n) xs" by auto
  with Cons.IH show ?case
    by (subst foreach_chain.simps) (auto simp: case_prod_unfold split: bind_splits)
qed

lemma foreach_slots_at:
  assumes "tab_ok h t cs" "tab t = Some slots" "i \<le> tmask t + 1"
  shows "foreach_slots h t f i s = visit f (concat (drop i cs)) s"
  using assms(3)
proof (induction "tmask t + 1 - i" arbitrary: i s)
  case 0
  then show ?case using tab_okD(2) [OF assms(1,2)] by (subst foreach_slots.simps) simp
next
  case (Suc k)
  note D = tab_okD [OF assms(1,2)]
  from Suc have i: "i \<le> tmask t" by simp
  have "foreach_chain h f (slots ! i) s = visit f (cs ! i) s" for s
    by (rule foreach_chain_at [OF D(4) [OF i]])
  moreover have "foreach_slots h t f (wrap64 (i + 1)) s = visit f (concat (drop (Suc i) cs)) s" for s
    using Suc i D(3) by simp
  moreover have "drop i cs = cs ! i # drop (Suc i) cs" using i D(2) by (simp add: Cons_nth_drop_Suc)
  ultimately show ?case using i D(1) assms(2)
    by (subst foreach_slots.simps) (auto simp: visit_append case_prod_unfold split: bind_splits)
qed

lemma hm_foreach_ok:
  assumes "hm_ok h m N"
  shows "\<exists>xs. distinct xs \<and> set xs = N \<and> length xs = hm_size m
    \<and> (\<forall>f s. hm_foreach h m f s = map_option snd (visit f xs s))"
proof -
  from assms obtain cs ds where ch: "hm_chains h m cs ds" and N: "N = set (concat cs) \<union> set (concat ds)"
    by (auto simp: hm_ok_def)
  have one: "h_foreach h t f s = visit f (concat xs) s" if "tab_ok h t xs" for t xs f s
  proof (cases "tab t")
    case None
    with that show ?thesis by (simp add: h_foreach_def tab_ok_def)
  next
    case (Some slots)
    with foreach_slots_at [OF that Some, of 0] show ?thesis by (simp add: h_foreach_def)
  qed
  let ?xs = "concat cs @ concat ds"
  have "hm_foreach h m f s = map_option snd (visit f ?xs s)" for f s
    using ch by (auto simp: hm_foreach_def hm_chains_def one visit_append case_prod_unfold split: bind_splits)
  moreover have "distinct ?xs" "set ?xs = N" using ch N by (auto simp: hm_chains_def)
  moreover have "length ?xs = hm_size m"
    using hm_size_ok [OF assms] distinct_card [of ?xs] calculation by simp
  ultimately show ?thesis by blast
qed

section \<open>The maps the program can build\<close>

text \<open>
  Every map starts as \<open>HMap{}\<close>, and its first table has four slots. The insertion that brings it
  to 32 nodes asks \<open>h_init\<close> for 66 slots, which is not a power of two, so the assertion fails:
  no map of the program ever has an older table, or more than 31 nodes.
\<close>

definition hm_small :: "hn_heap \<Rightarrow> HMap \<Rightarrow> addr set \<Rightarrow> bool" where
  "hm_small h m N \<longleftrightarrow> hm_ok h m N \<and> tab (older m) = None \<and> card N \<le> 31
     \<and> (tab (newer m) \<noteq> None \<longrightarrow> tmask (newer m) = 3)"

lemma hm_small_empty: "hm_small h HMap0 {}"
proof -
  have "hm_chains h HMap0 [] []" by (simp add: hm_chains_def tab_ok_def HMap0_def HTable0_def)
  from hm_okI [OF this, of "{}"] show ?thesis by (simp add: hm_small_def HMap0_def HTable0_def)
qed

lemma not_growable_32: "\<not> growable 32"
  by (simp add: growable_def)

lemma hm_open_small: "hm_small h m N \<Longrightarrow> over_threshold (hm_open m) n \<longleftrightarrow> 32 \<le> n"
  by (auto simp: hm_small_def over_threshold_def hm_open_def)

lemma hm_insert_small:
  assumes s: "hm_small h m N" and a: "h a = Some n" "a \<notin> N"
  shows "card N = 31 \<Longrightarrow> hm_insert h m a = None"
    and "card N < 31 \<Longrightarrow> \<exists>h' m'. hm_insert h m a = Some (h', m') \<and> hm_small h' m' (insert a N)
      \<and> moved h h' (insert a N)"
proof -
  have ok: "hm_ok h m N" and c: "card N + 1 < 2 ^ 59" using s by (auto simp: hm_small_def)
  note ins = hm_insert_ok [OF ok a c]
  note thr = hm_open_small [OF s, of "card N + 1"]
  {
    assume "card N = 31"
    with ins(1) thr not_growable_32 show "hm_insert h m a = None" by simp
  }
  assume l: "card N < 31"
  with ins(2) thr obtain h' m' where
    i: "hm_insert h m a = Some (h', m')" "hm_ok h' m' (insert a N)" "moved h h' (insert a N)"
      "older m' = older m" "tmask (newer m') = tmask (newer (hm_open m))"
    using s by (auto simp: hm_small_def)
  have "tmask (newer (hm_open m)) = 3" using s by (auto simp: hm_small_def hm_open_def)
  then have "hm_small h' m' (insert a N)"
    using i s l hm_size_ok [OF ok] a(2) by (auto simp: hm_small_def)
  then show "\<exists>h' m'. hm_insert h m a = Some (h', m') \<and> hm_small h' m' (insert a N) \<and> moved h h' (insert a N)"
    using i by blast
qed

lemma hm_lookup_small:
  assumes s: "hm_small h m N" and eq: "\<forall>a \<in> N. eq a = Some (E a)"
  shows "\<exists>p. hm_lookup h m hc eq = Some (h, m, p) \<and> found h N hc E p"
  using hm_lookup_ok [of h m N eq E hc] assms by (auto simp: hm_small_def)

lemma hm_delete_small:
  assumes s: "hm_small h m N" and eq: "\<forall>a \<in> N. eq a = Some (E a)"
  shows "\<exists>h' m' p. hm_delete h m hc eq = Some (h', m', p) \<and> hm_small h' m' (N - set_option p)
    \<and> moved h h' N \<and> found h N hc E p"
proof -
  from hm_delete_ok [of h m N eq E hc] s eq obtain h' m' p where
    d: "hm_delete h m hc eq = Some (h', m', p)" "hm_ok h' m' (N - set_option p)" "moved h h' N"
      "found h N hc E p" "older m' = older m" "tmask (newer m') = tmask (newer m)"
      "(tab (newer m') = None) = (tab (newer m) = None)"
    by (auto simp: hm_small_def)
  have "card (N - set_option p) \<le> 31"
    using s hm_size_ok [of h m N] card_mono [of N "N - set_option p"] by (auto simp: hm_small_def)
  with d s show ?thesis by (auto simp: hm_small_def)
qed

section \<open>The contract of a keyed map\<close>

text \<open>
  What the sorted set and the database rely on: \<open>inv h m N\<close> says that the map holds the nodes \<open>N\<close>,
  \<open>relinked h h' N\<close> that a step only relinked those. A client stores under \<open>f k\<close> the node of key
  \<open>k\<close> and compares keys; the contract then gives it lookup and deletion by key.
\<close>

locale node_map =
  fixes inv :: "'h \<Rightarrow> 'm \<Rightarrow> 'n set \<Rightarrow> bool"
    and code :: "'h \<Rightarrow> 'n \<Rightarrow> 'c option"
    and look :: "'h \<Rightarrow> 'm \<Rightarrow> 'c \<Rightarrow> ('n \<Rightarrow> bool option) \<Rightarrow> ('h \<times> 'm \<times> 'n option) option"
    and del :: "'h \<Rightarrow> 'm \<Rightarrow> 'c \<Rightarrow> ('n \<Rightarrow> bool option) \<Rightarrow> ('h \<times> 'm \<times> 'n option) option"
    and relinked :: "'h \<Rightarrow> 'h \<Rightarrow> 'n set \<Rightarrow> bool"
  assumes look_node: "inv h m N \<Longrightarrow> \<forall>a \<in> N. eq a = Some (E a) \<Longrightarrow>
      \<exists>p. look h m c eq = Some (h, m, p)
        \<and> (case p of None \<Rightarrow> \<forall>a \<in> N. \<not> (code h a = Some c \<and> E a) | Some a \<Rightarrow> a \<in> N \<and> E a)"
    and del_node: "inv h m N \<Longrightarrow> \<forall>a \<in> N. eq a = Some (E a) \<Longrightarrow>
      \<exists>h' m' p. del h m c eq = Some (h', m', p) \<and> inv h' m' (N - set_option p) \<and> relinked h h' N
        \<and> (case p of None \<Rightarrow> \<forall>a \<in> N. \<not> (code h a = Some c \<and> E a) | Some a \<Rightarrow> a \<in> N \<and> E a)"
begin

lemma lookup_key:
  assumes "inv h m N" "\<forall>a \<in> N. eq a = Some (K a = k)" "\<forall>a \<in> N. code h a = Some (f (K a))"
  shows "\<exists>p. look h m (f k) eq = Some (h, m, p)
    \<and> (case p of None \<Rightarrow> k \<notin> K ` N | Some a \<Rightarrow> a \<in> N \<and> K a = k)"
proof -
  from look_node [OF assms(1,2), of "f k"] obtain p where
    "look h m (f k) eq = Some (h, m, p)"
    "case p of None \<Rightarrow> \<forall>a \<in> N. \<not> (code h a = Some (f k) \<and> K a = k) | Some a \<Rightarrow> a \<in> N \<and> K a = k"
    by blast
  with assms(3) show ?thesis by (auto split: option.splits)
qed

lemma delete_key:
  assumes "inv h m N" "\<forall>a \<in> N. eq a = Some (K a = k)" "\<forall>a \<in> N. code h a = Some (f (K a))"
  shows "\<exists>h' m' p. del h m (f k) eq = Some (h', m', p) \<and> inv h' m' (N - set_option p) \<and> relinked h h' N
    \<and> (case p of None \<Rightarrow> k \<notin> K ` N | Some a \<Rightarrow> a \<in> N \<and> K a = k)"
proof -
  from del_node [OF assms(1,2), of "f k"] obtain h' m' p where
    "del h m (f k) eq = Some (h', m', p)" "inv h' m' (N - set_option p)" "relinked h h' N"
    "case p of None \<Rightarrow> \<forall>a \<in> N. \<not> (code h a = Some (f k) \<and> K a = k) | Some a \<Rightarrow> a \<in> N \<and> K a = k"
    by blast
  with assms(3) show ?thesis by (auto split: option.splits)
qed

end

interpretation nm: node_map hm_small hash_of hm_lookup hm_delete moved
proof (unfold_locales, goal_cases)
  case (1 h m N eq E c)
  from hm_lookup_small [OF 1] obtain p where "hm_lookup h m c eq = Some (h, m, p)" "found h N c E p" by blast
  then show ?case by (auto simp: found_def split: option.splits)
next
  case (2 h m N eq E c)
  from hm_delete_small [OF 2] obtain h' m' p where
    "hm_delete h m c eq = Some (h', m', p)" "hm_small h' m' (N - set_option p)" "moved h h' N" "found h N c E p"
    by blast
  then show ?case by (auto simp: found_def split: option.splits)
qed

text \<open>A map with one node.\<close>

lemma hm_ok_empty: "hm_ok h HMap0 {}"
  using hm_small_empty [of h] by (simp add: hm_small_def)

lemma single_map:
  obtains h m where "hm_ok h m {5}" "hash_of h 5 = Some 9" "hm_insert [5 \<mapsto> \<lparr>next_p = None, hash_code = 9\<rparr>] HMap0 5 = Some (h, m)"
proof -
  let ?h = "[5 \<mapsto> \<lparr>next_p = None, hash_code = 9\<rparr>]"
  have "\<not> over_threshold (hm_open HMap0) 1" by (simp add: over_threshold_def hm_open_def HMap0_def HTable0_def)
  then obtain h m where "hm_insert ?h HMap0 5 = Some (h, m)" "hm_ok h m {5}" "moved ?h h {5}"
    using hm_insert_ok(2) [OF hm_ok_empty [of ?h], of 5] by auto
  moreover from this(3) have "hash_of h 5 = hash_of ?h 5" by (simp add: moved_def)
  then have "hash_of h 5 = Some 9" by (simp add: hash_of_def)
  ultimately show thesis using that [of h m] by blast
qed

end
