(* ===== verification/Zset_Ops.thy ===== *)
theory Zset_Ops
  imports Sorted_Set AVL_Ops Hash_Map "HOL-Library.List_Lexorder" "HOL-Library.Product_Lexorder"
begin

text \<open>
  Correctness of the sorted set. The abstract value of a set is the list of its (score, name) pairs in
  order, \<open>zlist m t\<close>; \<open>zset_ok m z t\<close> says that the two intrusive structures of \<open>z\<close> hold the same
  nodes, those of the balanced tree \<open>t\<close>, strictly sorted. Every operation is shown to return, to keep
  the invariant, to act on the list as its abstract counterpart (\<open>zs_add\<close>, \<open>zs_rem\<close>, \<open>zs_seek\<close>) and
  to write no node outside the set.
\<close>

section \<open>The order is the lexicographic order\<close>

definition zkey :: "u64 \<times> bytes \<Rightarrow> int \<times> bytes" where
  "zkey p = (dbl_key (fst p), snd p)"

lemma memcmp_less:
  "(let rv = memcmp a b (min_len (length a) (length b))
    in if rv \<noteq> 0 then rv < 0 else length a < length b) \<longleftrightarrow> a < b"
proof (induction a arbitrary: b)
  case Nil
  then show ?case by (cases b) (simp_all add: Let_def)
next
  case (Cons x a)
  show ?case
  proof (cases b)
    case Nil
    then show ?thesis by (simp add: Let_def min_len_def)
  next
    case (Cons y bs)
    have "min_len (length (x # a)) (length b) = Suc (min_len (length a) (length bs))"
      using Cons by (simp add: min_len_def)
    with Cons Cons.IH [of bs] show ?thesis by (auto simp: Let_def)
  qed
qed

lemma memcmp_equal: "length a = length b \<Longrightarrow> memcmp a b (length a) = 0 \<longleftrightarrow> a = b"
  by (induction a b rule: list_induct2) auto

lemma zless_iff:
  "\<not> isnan (score zl) \<Longrightarrow> \<not> isnan sc \<Longrightarrow>
   zless zl sc nm \<longleftrightarrow> zkey (score zl, name zl) < zkey (sc, nm)"
  using memcmp_less [of "name zl" nm]
  by (auto simp: zless_def zkey_def dbl_eq_def dbl_lt_def)

section \<open>Abstract sorted sets\<close>

type_synonym zl = "(u64 \<times> bytes) list"

definition zs_put :: "u64 \<times> bytes \<Rightarrow> zl \<Rightarrow> zl" where
  "zs_put p xs = takeWhile (\<lambda>q. \<not> zkey p < zkey q) xs @ p # dropWhile (\<lambda>q. \<not> zkey p < zkey q) xs"

definition zs_rem :: "bytes \<Rightarrow> zl \<Rightarrow> zl" where
  "zs_rem nm xs = filter (\<lambda>q. snd q \<noteq> nm) xs"

definition zs_score :: "bytes \<Rightarrow> zl \<Rightarrow> u64 option" where
  "zs_score nm xs = map_option fst (find (\<lambda>q. snd q = nm) xs)"

definition zs_add :: "bytes \<Rightarrow> u64 \<Rightarrow> zl \<Rightarrow> zl" where
  "zs_add nm sc xs =
     (case zs_score nm xs of
        None \<Rightarrow> zs_put (sc, nm) xs
      | Some s \<Rightarrow> if dbl_eq s sc then xs else zs_put (sc, nm) (zs_rem nm xs))"

definition zs_ok :: "zl \<Rightarrow> bool" where
  "zs_ok xs \<longleftrightarrow> sorted_wrt (\<lambda>p q. zkey p < zkey q) xs \<and> distinct (map snd xs)
     \<and> (\<forall>p \<in> set xs. \<not> isnan (fst p))"

lemma set_cut: "set (takeWhile P xs) \<union> set (dropWhile P xs) = set xs"
  by (metis set_append takeWhile_dropWhile_id)

lemma sorted_put:
  assumes "sorted_wrt (\<lambda>x y. f x < (f y :: 'b::linorder)) xs" "f a \<notin> f ` set xs"
  shows "sorted_wrt (\<lambda>x y. f x < f y)
    (takeWhile (\<lambda>x. \<not> f a < f x) xs @ a # dropWhile (\<lambda>x. \<not> f a < f x) xs)"
  using assms
proof (induction xs)
  case (Cons x xs)
  let ?rest = "takeWhile (\<lambda>x. \<not> f a < f x) xs @ a # dropWhile (\<lambda>x. \<not> f a < f x) xs"
  have x: "\<forall>y \<in> set xs. f x < f y" using Cons.prems(1) by simp
  show ?case
  proof (cases "f a < f x")
    case True
    moreover have "\<forall>y \<in> set xs. f a < f y" using x True by (metis less_trans)
    ultimately show ?thesis using Cons.prems(1) by simp
  next
    case False
    with Cons.prems(2) have ax: "f x < f a" by (metis image_eqI list.set_intros(1) linorder_less_linear)
    have "sorted_wrt (\<lambda>x y. f x < f y) ?rest" using Cons by simp
    moreover have "set ?rest = insert a (set xs)"
      using set_cut [of "\<lambda>x. \<not> f a < f x" xs] by auto
    then have "\<forall>y \<in> set ?rest. f x < f y" using x ax by simp
    moreover have "takeWhile (\<lambda>x. \<not> f a < f x) (x # xs) @ a # dropWhile (\<lambda>x. \<not> f a < f x) (x # xs) = x # ?rest"
      using False by simp
    ultimately show ?thesis by (simp only: sorted_wrt.simps simp_thms)
  qed
qed simp

lemma set_zs_put: "set (zs_put p xs) = insert p (set xs)"
  using set_cut [of "\<lambda>q. \<not> zkey p < zkey q" xs] by (auto simp: zs_put_def)

section \<open>The invariant\<close>

definition zv :: "ZNode store \<Rightarrow> addr \<Rightarrow> u64 \<times> bytes" where
  "zv zs a = (case zs a of None \<Rightarrow> (0, []) | Some z \<Rightarrow> (score z, name z))"

abbreviation zval :: "mem \<Rightarrow> addr \<Rightarrow> u64 \<times> bytes" where
  "zval m \<equiv> zv (zns m)"

definition zv_list :: "ZNode store \<Rightarrow> addr tree \<Rightarrow> zl" where
  "zv_list zs t = map (zv zs) (inorder t)"

abbreviation zlist :: "mem \<Rightarrow> addr tree \<Rightarrow> zl" where
  "zlist m t \<equiv> zv_list (zns m) t"

lemma zv_upd: "zv (zs(a \<mapsto> z)) x = (if x = a then (score z, name z) else zv zs x)"
  by (simp add: zv_def)

definition tree_ok :: "mem \<Rightarrow> ptr \<Rightarrow> addr tree \<Rightarrow> bool" where
  "tree_ok m r t \<longleftrightarrow> tree_at (avl m) None t \<and> r = root_ptr t \<and> bal t \<and> distinct (inorder t) \<and> size t \<le> 31
     \<and> (\<forall>a \<in> set_tree t. zns m a \<noteq> None) \<and> zs_ok (zlist m t)"

definition hash_ok :: "mem \<Rightarrow> HMap \<Rightarrow> addr set \<Rightarrow> bool" where
  "hash_ok m hm N \<longleftrightarrow> hm_small (hns m) hm N
     \<and> (\<forall>a \<in> N. a < brk m \<and> hash_of (hns m) a = Some (string_hash (snd (zval m a))))"

definition zset_ok :: "mem \<Rightarrow> ZSet \<Rightarrow> addr tree \<Rightarrow> bool" where
  "zset_ok m z t \<longleftrightarrow> tree_ok m (root_p z) t \<and> hash_ok m (zmap z) (set_tree t)"

text \<open>Everything an operation may change lies in \<open>S\<close>.\<close>

definition zframe :: "mem \<Rightarrow> mem \<Rightarrow> addr set \<Rightarrow> bool" where
  "zframe m m' S \<longleftrightarrow> brk m \<le> brk m'
     \<and> (\<forall>x. x \<notin> S \<longrightarrow> avl m' x = avl m x \<and> hns m' x = hns m x \<and> zns m' x = zns m x)"

lemma tree_ok_fits: "tree_ok m r t \<Longrightarrow> fits t"
  by (simp add: tree_ok_def fits_def)

lemma tree_ok_sorted:
  assumes "tree_ok m r t"
  shows "sorted_wrt (\<lambda>x y. zkey (zval m x) < zkey (zval m y)) (inorder t)"
    "inj_on (\<lambda>a. snd (zval m a)) (set_tree t)" "a \<in> set_tree t \<Longrightarrow> \<not> isnan (fst (zval m a))"
  using assms
  by (auto simp: tree_ok_def zs_ok_def zv_list_def sorted_wrt_map distinct_map comp_def)

lemma zless_at:
  assumes "zns m a \<noteq> None" "\<not> isnan (fst (zval m a))" "\<not> isnan sc"
  shows "zless_key m a sc nm = Some (zkey (zval m a) < zkey (sc, nm))"
  using assms by (auto simp: zless_key_def zv_def zless_iff)

lemma zless_node_at:
  assumes "zns m a \<noteq> None" "\<not> isnan (fst (zval m a))" "zns m b \<noteq> None" "\<not> isnan (fst (zval m b))"
  shows "zless_node m a b = Some (zkey (zval m a) < zkey (zval m b))"
  using assms zless_at [of m a "fst (zval m b)" "snd (zval m b)"]
  by (auto simp: zless_node_def zv_def)

lemma tree_slot_at:
  assumes "tree_at (avl m) (ctx_par C) t" "\<forall>a \<in> set_tree t. zns m a \<noteq> None \<and> \<not> isnan (fst (zval m a))"
    and "zns m node \<noteq> None" "\<not> isnan (fst (zval m node))"
  defines "g \<equiv> \<lambda>p. zkey (zval m node) < zkey (zval m p)"
  shows "tree_slot m node (root_ptr t) (ctx_par C) (slot_ctx C)
    = Some (ctx_par (descend g t C), slot_ctx (descend g t C))"
  using assms(1,2)
proof (induction t arbitrary: C)
  case Leaf
  then show ?case by (simp add: tree_slot.simps)
next
  case (Node l a r)
  from Node.IH(1) [of "InLeft a r # C"] Node.IH(2) [of "InRight l a # C"] Node.prems
    zless_node_at [OF assms(3,4), of a]
  show ?case by (subst tree_slot.simps) (auto simp: g_def)
qed

lemma tree_insert_ok:
  assumes ok: "tree_ok m (root_p z) t" and room: "size t \<le> 30" and fresh: "node \<notin> set_tree t"
    and n: "avl m node = Some n" "left_p n = None" "right_p n = None"
    and zn: "zns m node \<noteq> None" "\<not> isnan (fst (zval m node))"
    and name: "snd (zval m node) \<notin> (\<lambda>a. snd (zval m a)) ` set_tree t"
  shows "\<exists>h r t'. tree_insert m z node = Some (m\<lparr>avl := h\<rparr>, z\<lparr>root_p := r\<rparr>)
    \<and> tree_ok (m\<lparr>avl := h\<rparr>) r t' \<and> set_tree t' = insert node (set_tree t)
    \<and> zlist m t' = zs_put (zval m node) (zlist m t)
    \<and> (\<forall>x. x \<notin> insert node (set_tree t) \<longrightarrow> h x = avl m x)"
proof -
  let ?f = "\<lambda>a. zkey (zval m a)" and ?C = "descend (\<lambda>p. zkey (zval m node) < zkey (zval m p)) t []"
  let ?t = "fix_up ?C \<langle>\<langle>\<rangle>, node, \<langle>\<rangle>\<rangle>"
  have at: "tree_at (avl m) None t" and r: "root_p z = root_ptr t" and b: "bal t"
    and zs: "\<forall>a \<in> set_tree t. zns m a \<noteq> None" and zok: "zs_ok (zlist m t)"
    using ok by (auto simp: tree_ok_def)
  note fi = tree_ok_fits [OF ok] and srt = tree_ok_sorted [OF ok]
  have "size t + 3 < 2 ^ 32" using room by simp
  from attach_at [OF at fi this fresh n refl] obtain h1 h2 h3 where
    a: "search_slot (avl m) (\<lambda>p. ?f node < ?f p) (root_ptr t) None Var = Some (ctx_par ?C, slot_ctx ?C)"
      "put_slot (avl m) (root_ptr t) (slot_ctx ?C) (Some node) = Some (h1, if t = \<langle>\<rangle> then Some node else root_ptr t)"
      "wr h1 node (\<lambda>n. n\<lparr>parent_p := ctx_par ?C\<rparr>) = Some h2"
      "avl_fix_tree h2 node = Some (h3, root_ptr ?t)" "tree_at h3 None ?t"
      "\<forall>x. x \<noteq> node \<longrightarrow> x \<notin> set_tree t \<longrightarrow> h3 x = avl m x"
    by blast
  have "tree_slot m node (root_ptr t) None Var = Some (ctx_par ?C, slot_ctx ?C)"
    using tree_slot_at [of m "[]" t node] at zs srt(3) zn by simp
  then have ins: "tree_insert m z node = Some (m\<lparr>avl := h3\<rparr>, z\<lparr>root_p := root_ptr ?t\<rparr>)"
    using a(2-4) r by (simp add: tree_insert_def)
  have "sorted_wrt (\<lambda>x y. ?f node < ?f x \<longrightarrow> ?f node < ?f y) (inorder t)"
    using srt(1) by (rule sorted_wrt_mono_rel [rotated]) auto
  from attach_tree [OF b this, of node] have bt: "bal ?t"
    and io: "inorder ?t = takeWhile (\<lambda>x. \<not> ?f node < ?f x) (inorder t) @ node # dropWhile (\<lambda>x. \<not> ?f node < ?f x) (inorder t)"
    by auto
  have zl: "zlist m ?t = zs_put (zval m node) (zlist m t)"
    by (simp add: zv_list_def io zs_put_def takeWhile_map dropWhile_map comp_def)
  have sett: "set_tree ?t = insert node (set_tree t)"
    using io set_cut [of "\<lambda>x. \<not> ?f node < ?f x" "inorder t"] by (auto simp flip: set_inorder)
  have "mset (inorder ?t) = mset (node # inorder t)"
    using io by (metis mset_append mset.simps(2) takeWhile_dropWhile_id union_mset_add_mset_right)
  then have dist: "distinct (inorder ?t)" and sz: "size ?t = size t + 1"
    using fresh fi mset_eq_imp_distinct_iff mset_eq_length
    by (fastforce simp: fits_def, metis length_inorder length_Cons mset_eq_length Suc_eq_plus1)
  have "?f node \<notin> ?f ` set (inorder t)"
    using name by (auto simp: zkey_def)
  from sorted_put [OF srt(1) this] have "sorted_wrt (\<lambda>x y. ?f x < ?f y) (inorder ?t)"
    by (simp only: io)
  moreover have "inj_on (\<lambda>a. snd (zval m a)) (set_tree ?t)"
    using srt(2) name fresh by (simp add: sett)
  ultimately have "zs_ok (zlist m ?t)"
    using srt(3) zn dist by (auto simp: zs_ok_def zv_list_def sorted_wrt_map distinct_map comp_def sett)
  then have "tree_ok (m\<lparr>avl := h3\<rparr>) (root_ptr ?t) ?t"
    using a(5) bt dist sz room sett zs zn by (simp add: tree_ok_def)
  with ins sett zl a(6) show ?thesis by blast
qed

section \<open>Lookup\<close>

lemma hcmp_at: "zns m a \<noteq> None \<Longrightarrow> hcmp m nm a = Some (snd (zval m a) = nm)"
  using memcmp_equal by (auto simp: hcmp_def zv_def)

lemma find_name:
  assumes "a \<in> set xs" "snd (f a) = nm" "inj_on (\<lambda>a. snd (f a)) (set xs)"
  shows "find (\<lambda>q. snd q = nm) (map f xs) = Some (f a)"
  using assms
proof (induction xs)
  case (Cons x xs)
  show ?case
  proof (cases "snd (f x) = nm")
    case True
    with Cons.prems have "x = a" by (auto dest: inj_onD)
    with True show ?thesis by simp
  next
    case False
    with Cons.prems have "a \<in> set xs" by auto
    with Cons False show ?thesis by auto
  qed
qed simp

lemma zs_score_at:
  assumes "tree_ok m r t"
  shows "a \<in> set_tree t \<Longrightarrow> snd (zval m a) = nm \<Longrightarrow> zs_score nm (zlist m t) = Some (fst (zval m a))"
    and "(\<forall>a \<in> set_tree t. snd (zval m a) \<noteq> nm) \<Longrightarrow> zs_score nm (zlist m t) = None"
  using find_name [of a "inorder t" "zval m" nm] tree_ok_sorted(2) [OF assms]
  by (auto simp: zs_score_def zv_list_def find_None_iff)

text \<open>The node a lookup returns: the one with the name, or none when there is none.\<close>

definition named :: "mem \<Rightarrow> addr tree \<Rightarrow> bytes \<Rightarrow> ptr \<Rightarrow> bool" where
  "named m t nm p \<longleftrightarrow>
     (case p of
        None \<Rightarrow> \<forall>a \<in> set_tree t. snd (zval m a) \<noteq> nm
      | Some a \<Rightarrow> a \<in> set_tree t \<and> snd (zval m a) = nm)"

lemma named_score: "tree_ok m r t \<Longrightarrow> named m t nm p \<Longrightarrow>
    zs_score nm (zlist m t) = map_option (\<lambda>a. fst (zval m a)) p"
  by (auto simp: named_def zs_score_at split: option.splits)

lemma name_keys:
  assumes "zset_ok m z t"
  shows "\<forall>a \<in> set_tree t. hcmp m nm a = Some (snd (zval m a) = nm)"
    "\<forall>a \<in> set_tree t. hash_of (hns m) a = Some (string_hash (snd (zval m a)))"
  using assms hcmp_at by (auto simp: zset_ok_def tree_ok_def hash_ok_def)

lemma named_iff:
  "(case p of None \<Rightarrow> nm \<notin> (\<lambda>a. snd (zval m a)) ` set_tree t | Some a \<Rightarrow> a \<in> set_tree t \<and> snd (zval m a) = nm)
   \<longleftrightarrow> named m t nm p"
  by (auto simp: named_def split: option.splits)

lemma zset_lookup_ok:
  assumes "zset_ok m z t"
  shows "\<exists>p. zset_lookup m z nm = Some (m, z, p) \<and> named m t nm p"
proof (cases "root_p z")
  case None
  with assms have "root_ptr t = None" by (simp add: zset_ok_def tree_ok_def)
  with None show ?thesis by (simp add: zset_lookup_def named_def)
next
  case (Some r)
  have "hm_small (hns m) (zmap z) (set_tree t)" using assms by (simp add: zset_ok_def hash_ok_def)
  from nm.lookup_key [OF this name_keys [OF assms], of nm, unfolded named_iff] Some
  show ?thesis by (auto simp: zset_lookup_def)
qed

section \<open>Insertion\<close>

lemma zframe_refl [simp]: "zframe m m S"
  by (simp add: zframe_def)

lemma zs_ok_rem: "zs_ok xs \<Longrightarrow> zs_ok (zs_rem nm xs)"
  by (auto simp: zs_ok_def zs_rem_def sorted_wrt_filter distinct_map_filter)

lemma tree_ok_remove:
  assumes ok: "tree_ok m r t" and a: "a \<in> set_tree t" and at: "tree_at h None t'" and b: "bal t'"
    and io: "inorder t' = remove1 a (inorder t)"
  shows "tree_ok (m\<lparr>avl := h\<rparr>) (root_ptr t') t'" "set_tree t' = set_tree t - {a}"
    "zlist m t' = zs_rem (snd (zval m a)) (zlist m t)" "size t = size t' + 1"
proof -
  have d: "distinct (inorder t)" using ok by (simp add: tree_ok_def)
  show st: "set_tree t' = set_tree t - {a}"
    using io set_remove1_eq [OF d] by (metis set_inorder)
  have "filter (\<lambda>x. a \<noteq> x) (inorder t) = filter (\<lambda>x. snd (zval m x) \<noteq> snd (zval m a)) (inorder t)"
    using tree_ok_sorted(2) [OF ok] a by (intro filter_cong) (auto dest: inj_onD)
  then show zl: "zlist m t' = zs_rem (snd (zval m a)) (zlist m t)"
    using d by (simp add: zv_list_def zs_rem_def io distinct_remove1_removeAll removeAll_filter_not_eq
        filter_map comp_def)
  show sz: "size t = size t' + 1"
    using io a length_remove1 [of a "inorder t"] length_pos_if_in_set [of a "inorder t"]
    by (simp flip: length_inorder)
  have "zs_ok (zlist m t')" unfolding zl using ok zs_ok_rem by (simp add: tree_ok_def)
  then show "tree_ok (m\<lparr>avl := h\<rparr>) (root_ptr t') t'"
    using ok at b d io st sz by (auto simp: tree_ok_def)
qed

lemma avl_init_at:
  assumes "h a \<noteq> None"
  shows "\<exists>n. avl_init h a = Some (h(a \<mapsto> n)) \<and> left_p n = None \<and> right_p n = None"
proof -
  from assms obtain y where "h a = Some y" by auto
  then show ?thesis
    by (intro exI [of _ "y\<lparr>left_p := None, right_p := None, parent_p := None, height_u := 1, cnt_u := 1\<rparr>"])
      (simp add: avl_init_def)
qed

lemma zset_update_moves:
  assumes ok: "zset_ok m z t" and a: "a \<in> set_tree t" and sc: "\<not> isnan sc"
    and za: "zns m a = Some za" and changed: "\<not> dbl_eq (score za) sc"
  shows "\<exists>m' z' t'. zset_update m z a sc = Some (m', z') \<and> zset_ok m' z' t'
    \<and> zlist m' t' = zs_put (sc, name za) (zs_rem (name za) (zlist m t)) \<and> set_tree t' = set_tree t
    \<and> zframe m m' (set_tree t) \<and> brk m' = brk m"
proof -
  have tok: "tree_ok m (root_p z) t" and hok: "hash_ok m (zmap z) (set_tree t)"
    using ok by (auto simp: zset_ok_def)
  have zv: "zval m a = (score za, name za)" using za by (simp add: zv_def)
  have at: "tree_at (avl m) None t" and b: "bal t" using tok by (auto simp: tree_ok_def)
  from avl_delete_at [OF at tree_ok_fits [OF tok] b a] obtain h1 t1 where
    d: "avl_delete (avl m) a = Some (h1, root_ptr t1)" "tree_at h1 None t1" "bal t1"
      "inorder t1 = remove1 a (inorder t)" "h1 a \<noteq> None" "\<forall>x. x \<notin> set_tree t \<longrightarrow> h1 x = avl m x"
    by blast
  note rm = tree_ok_remove [OF tok a d(2-4)]
  from avl_init_at [of h1 a] d(5) obtain h2 n where
    h2: "avl_init h1 a = Some h2" "h2 = h1(a \<mapsto> n)" "left_p n = None" "right_p n = None" by blast
  let ?m = "m\<lparr>avl := h2, zns := (zns m)(a \<mapsto> za\<lparr>score := sc\<rparr>)\<rparr>" and ?z = "z\<lparr>root_p := root_ptr t1\<rparr>"
  have zl1: "zlist ?m t1 = zlist m t1" using rm(2) by (simp add: zv_list_def zv_upd)
  have "tree_at h2 None t1" using d(2) h2(2) rm(2) by simp
  then have tok1: "tree_ok ?m (root_p ?z) t1" using rm(1,2) zl1 by (auto simp: tree_ok_def)
  have "snd (zval m a) \<notin> (\<lambda>x. snd (zval m x)) ` set_tree t1"
    using inj_onD [OF tree_ok_sorted(2) [OF tok], of _ a] a rm(2) by auto
  then have nm: "snd (zval ?m a) \<notin> (\<lambda>x. snd (zval ?m x)) ` set_tree t1"
    using rm(2) zv by (auto simp: zv_upd)
  have pre: "size t1 \<le> 30" "a \<notin> set_tree t1" "avl ?m a = Some n" "zns ?m a \<noteq> None" "\<not> isnan (fst (zval ?m a))"
    using rm(2,4) tok h2(2) sc by (auto simp: tree_ok_def zv_upd)
  from tree_insert_ok [OF tok1 pre(1-3) h2(3,4) pre(4,5) nm] obtain h r t' where
    i: "tree_insert ?m ?z a = Some (?m\<lparr>avl := h\<rparr>, ?z\<lparr>root_p := r\<rparr>)" "tree_ok (?m\<lparr>avl := h\<rparr>) r t'"
      "set_tree t' = insert a (set_tree t1)" "zlist ?m t' = zs_put (zval ?m a) (zlist ?m t1)"
      "\<forall>x. x \<notin> insert a (set_tree t1) \<longrightarrow> h x = avl ?m x"
    by blast
  have st: "set_tree t' = set_tree t" using i(3) rm(2) a by auto
  have "hash_ok (?m\<lparr>avl := h\<rparr>) (zmap z) (set_tree t)" using hok za by (auto simp: hash_ok_def zv_def)
  then have "zset_ok (?m\<lparr>avl := h\<rparr>) (?z\<lparr>root_p := r\<rparr>) t'" using i(2) st by (simp add: zset_ok_def)
  moreover have "zlist (?m\<lparr>avl := h\<rparr>) t' = zs_put (sc, name za) (zs_rem (name za) (zlist m t))"
    using i(4) zl1 rm(3) zv by (simp add: zv_upd)
  moreover have "zframe m (?m\<lparr>avl := h\<rparr>) (set_tree t)"
    using i(5) h2(2) d(6) rm(2) a by (auto simp: zframe_def)
  moreover have "zset_update m z a sc = tree_insert ?m ?z a"
    using changed za d(1) h2(1) by (simp add: zset_update_def)
  ultimately show ?thesis using i(1) st by auto
qed

lemma zset_update_ok:
  assumes ok: "zset_ok m z t" and a: "a \<in> set_tree t" and sc: "\<not> isnan sc"
  shows "\<exists>m' z' t'. zset_update m z a sc = Some (m', z') \<and> zset_ok m' z' t'
    \<and> zlist m' t' = zs_add (snd (zval m a)) sc (zlist m t) \<and> set_tree t' = set_tree t
    \<and> zframe m m' (set_tree t) \<and> brk m' = brk m"
proof -
  have tok: "tree_ok m (root_p z) t" using ok by (simp add: zset_ok_def)
  from tok a obtain za where za: "zns m a = Some za" by (auto simp: tree_ok_def)
  have zv: "zval m a = (score za, name za)" using za by (simp add: zv_def)
  have old: "zs_score (name za) (zlist m t) = Some (score za)" using zs_score_at(1) [OF tok a] zv by simp
  show ?thesis
  proof (cases "dbl_eq (score za) sc")
    case True
    with za zv old ok show ?thesis by (intro exI [of _ m] exI [of _ z]) (auto simp: zset_update_def zs_add_def)
  next
    case False
    with zset_update_moves [OF ok a sc za] zv old show ?thesis by (simp add: zs_add_def)
  qed
qed

lemma hm_small_cong:
  assumes "hm_small h m N" "\<And>a. a \<in> N \<Longrightarrow> h' a = h a"
  shows "hm_small h' m N"
proof -
  have "hm_ok h m N" using assms(1) by (simp add: hm_small_def)
  then obtain cs ds where ch: "hm_chains h m cs ds" and N: "set (concat cs) \<union> set (concat ds) = N"
    unfolding hm_ok_def by blast
  have eq: "h' a = h a" if "a \<in> set (concat cs) \<union> set (concat ds)" for a
    using assms(2) that unfolding N by blast
  have "tab_ok h' (newer m) cs"
    by (rule tab_ok_cong [of h]) (use ch in \<open>simp add: hm_chains_def\<close>, rule eq, blast)
  moreover have "tab_ok h' (older m) ds"
    by (rule tab_ok_cong [of h]) (use ch in \<open>simp add: hm_chains_def\<close>, rule eq, blast)
  ultimately have "hm_chains h' m cs ds" using ch by (simp add: hm_chains_def)
  from hm_okI [OF this N] assms(1) show ?thesis by (simp add: hm_small_def)
qed

text \<open>The memory with a new node for a name, and its insertion into the map and then into the tree.\<close>

definition with_znode :: "mem \<Rightarrow> bytes \<Rightarrow> u64 \<Rightarrow> mem" where
  "with_znode m nm sc =
     m\<lparr>avl := (avl m)(brk m \<mapsto> \<lparr>parent_p = None, left_p = None, right_p = None, height_u = 1, cnt_u = 1\<rparr>),
       hns := (hns m)(brk m \<mapsto> \<lparr>next_p = None, hash_code = string_hash nm\<rparr>),
       zns := (zns m)(brk m \<mapsto> \<lparr>score = sc, name = nm\<rparr>), brk := brk m + 1\<rparr>"

lemma znode_new_eq: "znode_new m nm sc = Some (with_znode m nm sc, brk m)"
  by (simp add: znode_new_def avl_init_def Let_def with_znode_def)

lemma with_znode_map:
  assumes "zset_ok m z t"
  shows "brk m \<notin> set_tree t" "card (set_tree t) = size t" "hm_small (hns (with_znode m nm sc)) (zmap z) (set_tree t)"
    "hns (with_znode m nm sc) (brk m) = Some \<lparr>next_p = None, hash_code = string_hash nm\<rparr>"
proof -
  have hok: "hash_ok m (zmap z) (set_tree t)" using assms by (simp add: zset_ok_def)
  show fr: "brk m \<notin> set_tree t" using hok by (auto simp: hash_ok_def)
  show "card (set_tree t) = size t"
    using assms distinct_card [of "inorder t"] by (simp add: zset_ok_def tree_ok_def)
  show "hm_small (hns (with_znode m nm sc)) (zmap z) (set_tree t)"
  proof (rule hm_small_cong [of "hns m"])
    show "hm_small (hns m) (zmap z) (set_tree t)" using hok by (simp add: hash_ok_def)
  qed (use fr in \<open>auto simp: with_znode_def\<close>)
qed (simp add: with_znode_def)

lemma zset_insert_full:
  assumes ok: "zset_ok m z t" and p: "zset_lookup m z nm = Some (m, z, None)" and sz: "size t = 31"
  shows "zset_insert m z nm sc = None"
proof -
  note w = with_znode_map(1,2) [OF ok] with_znode_map(3,4) [OF ok, of nm sc]
  have "hm_insert (hns (with_znode m nm sc)) (zmap z) (brk m) = None"
    by (rule hm_insert_small(1) [OF w(3,4,1)]) (use sz w(2) in simp)
  with p show ?thesis by (simp add: zset_insert_def znode_new_eq)
qed

lemma zset_insert_new:
  assumes ok: "zset_ok m z t" and sc: "\<not> isnan sc" and p: "zset_lookup m z nm = Some (m, z, None)" "named m t nm None"
    and sz: "size t < 31"
  defines "a \<equiv> brk m"
  shows "\<exists>m' z' t'. zset_insert m z nm sc = Some (m', z', True) \<and> zset_ok m' z' t'
    \<and> zlist m' t' = zs_put (sc, nm) (zlist m t) \<and> set_tree t' = insert a (set_tree t)
    \<and> zframe m m' (insert a (set_tree t)) \<and> brk m' = a + 1"
proof -
  have tok: "tree_ok m (root_p z) t" and hok: "hash_ok m (zmap z) (set_tree t)"
    using ok by (auto simp: zset_ok_def)
  note w = with_znode_map(1,2) [OF ok, folded a_def] with_znode_map(3,4) [OF ok, of nm sc, folded a_def]
  let ?m = "with_znode m nm sc"
  let ?n = "\<lparr>parent_p = None, left_p = None, right_p = None, height_u = 1, cnt_u = 1\<rparr>"
  from hm_insert_small(2) [OF w(3,4,1)] w(2) sz obtain h hm where
    i: "hm_insert (hns ?m) (zmap z) a = Some (h, hm)" "hm_small h hm (insert a (set_tree t))"
      "moved (hns ?m) h (insert a (set_tree t))" by auto
  let ?m1 = "?m\<lparr>hns := h\<rparr>" and ?z1 = "z\<lparr>zmap := hm\<rparr>"
  have zl1: "zlist ?m1 t = zlist m t" using w(1) by (simp add: zv_list_def zv_upd with_znode_def a_def)
  have "tree_at (avl ?m1) None t" using tok w(1) by (simp add: tree_ok_def with_znode_def a_def)
  then have tok1: "tree_ok ?m1 (root_p ?z1) t" using tok zl1 by (auto simp: tree_ok_def with_znode_def)
  have nm: "snd (zval ?m1 a) \<notin> (\<lambda>x. snd (zval ?m1 x)) ` set_tree t"
    using p(2) w(1) by (auto simp: zv_upd named_def with_znode_def a_def split: if_splits)
  have pre: "size t \<le> 30" "avl ?m1 a = Some ?n" "left_p ?n = None" "right_p ?n = None"
    "zns ?m1 a \<noteq> None" "\<not> isnan (fst (zval ?m1 a))"
    using sc sz by (auto simp: zv_upd with_znode_def a_def)
  from tree_insert_ok [OF tok1 pre(1) w(1) pre(2-6) nm] obtain h' r t' where
    t: "tree_insert ?m1 ?z1 a = Some (?m1\<lparr>avl := h'\<rparr>, ?z1\<lparr>root_p := r\<rparr>)" "tree_ok (?m1\<lparr>avl := h'\<rparr>) r t'"
      "set_tree t' = insert a (set_tree t)" "zlist ?m1 t' = zs_put (zval ?m1 a) (zlist ?m1 t)"
      "\<forall>x. x \<notin> insert a (set_tree t) \<longrightarrow> h' x = avl ?m1 x"
    by blast
  let ?m2 = "?m1\<lparr>avl := h'\<rparr>" and ?z2 = "?z1\<lparr>root_p := r\<rparr>"
  have "zset_insert m z nm sc = Some (?m2, ?z2, True)"
    using p(1) i(1) t(1) by (simp add: zset_insert_def znode_new_eq flip: a_def)
  moreover have "hash_of h x = hash_of (hns ?m) x" for x using i(3) by (simp add: moved_def)
  then have "hash_ok ?m2 hm (set_tree t')"
    using i(2) hok t(3) by (auto simp: hash_ok_def zv_def hash_of_def less_Suc_eq with_znode_def a_def)
  then have "zset_ok ?m2 ?z2 t'" using t(2) by (simp add: zset_ok_def)
  moreover have "zlist ?m2 t' = zs_put (sc, nm) (zlist m t)"
    using t(4) zl1 by (simp add: zv_upd with_znode_def a_def)
  moreover have "zframe m ?m2 (insert a (set_tree t))" "brk ?m2 = a + 1"
    using t(5) i(3) by (auto simp: zframe_def moved_def with_znode_def a_def)
  ultimately show ?thesis using t(3) by blast
qed

lemma zset_insert_ok:
  assumes ok: "zset_ok m z t" and sc: "\<not> isnan sc"
  shows "zs_score nm (zlist m t) = None \<Longrightarrow> size t = 31 \<Longrightarrow> zset_insert m z nm sc = None"
    and "zs_score nm (zlist m t) \<noteq> None \<or> size t < 31 \<Longrightarrow>
      \<exists>m' z' t'. zset_insert m z nm sc = Some (m', z', zs_score nm (zlist m t) = None) \<and> zset_ok m' z' t'
        \<and> zlist m' t' = zs_add nm sc (zlist m t) \<and> set_tree t' \<subseteq> insert (brk m) (set_tree t)
        \<and> zframe m m' (insert (brk m) (set_tree t)) \<and> brk m' \<le> brk m + 1"
proof -
  have tok: "tree_ok m (root_p z) t" using ok by (auto simp: zset_ok_def)
  from zset_lookup_ok [OF ok, of nm] obtain p where
    p: "zset_lookup m z nm = Some (m, z, p)" "named m t nm p" by blast
  have score: "zs_score nm (zlist m t) = map_option (\<lambda>a. fst (zval m a)) p"
    by (rule named_score [OF tok p(2)])
  show "zset_insert m z nm sc = None" if "zs_score nm (zlist m t) = None" "size t = 31"
    using zset_insert_full [OF ok _ that(2)] p(1) score that(1) by simp
  assume room: "zs_score nm (zlist m t) \<noteq> None \<or> size t < 31"
  show "\<exists>m' z' t'. zset_insert m z nm sc = Some (m', z', zs_score nm (zlist m t) = None) \<and> zset_ok m' z' t'
        \<and> zlist m' t' = zs_add nm sc (zlist m t) \<and> set_tree t' \<subseteq> insert (brk m) (set_tree t)
        \<and> zframe m m' (insert (brk m) (set_tree t)) \<and> brk m' \<le> brk m + 1"
  proof (cases p)
    case (Some a)
    with p(2) have a: "a \<in> set_tree t" "snd (zval m a) = nm" by (auto simp: named_def)
    from zset_update_ok [OF ok a(1) sc] obtain m' z' t' where
      u: "zset_update m z a sc = Some (m', z')" "zset_ok m' z' t'" "zlist m' t' = zs_add nm sc (zlist m t)"
        "set_tree t' = set_tree t" "zframe m m' (set_tree t)" "brk m' = brk m"
      unfolding a(2) by (elim exE conjE)
    then show ?thesis using p(1) Some score by (auto simp: zset_insert_def zframe_def)
  next
    case None
    with room score have sz: "size t < 31" "zs_add nm sc (zlist m t) = zs_put (sc, nm) (zlist m t)"
      by (simp_all add: zs_add_def)
    from zset_insert_new [OF ok sc _ _ sz(1), of nm] p None obtain m' z' t' where
      "zset_insert m z nm sc = Some (m', z', True)" "zset_ok m' z' t'" "zlist m' t' = zs_put (sc, nm) (zlist m t)"
      "set_tree t' = insert (brk m) (set_tree t)" "zframe m m' (insert (brk m) (set_tree t))" "brk m' = brk m + 1"
      by auto
    then show ?thesis using score None sz(2) by auto
  qed
qed

section \<open>Deletion\<close>

lemma zset_delete_ok:
  assumes ok: "zset_ok m z t" and a: "a \<in> set_tree t"
  shows "\<exists>m' z' t'. zset_delete m z a = Some (m', z') \<and> zset_ok m' z' t'
    \<and> zlist m' t' = zs_rem (snd (zval m a)) (zlist m t) \<and> set_tree t' = set_tree t - {a}
    \<and> zframe m m' (set_tree t) \<and> brk m' = brk m"
proof -
  have tok: "tree_ok m (root_p z) t" and hok: "hash_ok m (zmap z) (set_tree t)"
    using ok by (auto simp: zset_ok_def)
  have zs: "\<forall>a \<in> set_tree t. zns m a \<noteq> None" and at: "tree_at (avl m) None t" and b: "bal t"
    using tok by (auto simp: tree_ok_def)
  from zs a obtain za where za: "zns m a = Some za" by auto
  have nm: "snd (zval m a) = name za" using za by (simp add: zv_def)
  have hash: "hash_of (hns m) a = Some (string_hash (name za))" using hok a nm by (auto simp: hash_ok_def)
  have small: "hm_small (hns m) (zmap z) (set_tree t)" using hok by (simp add: hash_ok_def)
  from nm.delete_key [OF small name_keys [OF ok], of "name za", unfolded named_iff] obtain h hm p where
    d: "hm_delete (hns m) (zmap z) (string_hash (name za)) (hcmp m (name za)) = Some (h, hm, p)"
      "hm_small h hm (set_tree t - set_option p)" "moved (hns m) h (set_tree t)" "named m t (name za) p"
    by blast
  from d(4) have "named m t (name za) p" .
  then have p: "p = Some a"
  proof (cases p)
    case None
    with \<open>named m t (name za) p\<close> a nm show ?thesis by (simp add: named_def)
  next
    case (Some x)
    with \<open>named m t (name za) p\<close> have "x \<in> set_tree t" "snd (zval m x) = snd (zval m a)"
      using nm by (auto simp: named_def)
    with inj_onD [OF tree_ok_sorted(2) [OF tok], of x a] a Some show ?thesis by simp
  qed
  from avl_delete_at [OF at tree_ok_fits [OF tok] b a] obtain h1 t1 where
    t: "avl_delete (avl m) a = Some (h1, root_ptr t1)" "tree_at h1 None t1" "bal t1"
      "inorder t1 = remove1 a (inorder t)" "\<forall>x. x \<notin> set_tree t \<longrightarrow> h1 x = avl m x"
    by blast
  note rm = tree_ok_remove [OF tok a t(2-4)]
  let ?m = "m\<lparr>avl := h1(a := None), hns := h(a := None), zns := (zns m)(a := None)\<rparr>"
  let ?z = "z\<lparr>zmap := hm, root_p := root_ptr t1\<rparr>"
  have "zset_delete m z a = Some (?m, ?z)"
    using za hash d(1) p t(1) by (simp add: zset_delete_def znode_del_def)
  moreover have zl: "zlist ?m t1 = zlist m t1" using rm(2) by (auto simp: zv_list_def zv_def)
  moreover have "tree_ok ?m (root_p ?z) t1"
    using rm(1,2) zl by (auto simp: tree_ok_def)
  moreover have "hm_small (h(a := None)) hm (set_tree t1)"
    by (rule hm_small_cong [of h]) (use d(2) p rm(2) in auto)
  moreover have "hash_of h x = hash_of (hns m) x" for x using d(3) by (simp add: moved_def)
  ultimately have "zset_ok ?m ?z t1"
    using hok rm(2) by (auto simp: zset_ok_def hash_ok_def zv_def hash_of_def)
  with \<open>zset_delete m z a = Some (?m, ?z)\<close> zl rm nm show ?thesis
    using t(5) d(3) a by (intro exI [of _ ?m] exI [of _ ?z] exI [of _ t1]) (auto simp: zframe_def moved_def)
qed

section \<open>Range queries\<close>

lemma target_hd:
  "target xs (int (length (takeWhile P xs))) = (case dropWhile P xs of [] \<Rightarrow> None | a # _ \<Rightarrow> Some a)"
proof (cases "dropWhile P xs")
  case Nil
  then have "length (takeWhile P xs) = length xs" by (metis append_Nil2 takeWhile_dropWhile_id)
  then show ?thesis unfolding Nil by (simp add: target_def)
next
  case (Cons a ys)
  then have xs: "xs = takeWhile P xs @ a # ys" by (metis takeWhile_dropWhile_id)
  have "xs ! length (takeWhile P xs) = a" by (subst (1) xs) simp
  moreover have "length (takeWhile P xs) < length xs" by (subst (2) xs) simp
  ultimately show ?thesis using Cons by (simp add: target_def)
qed

lemma seek_loop_at:
  assumes "tree_at (avl m) par t" "\<forall>a \<in> set_tree t. zns m a \<noteq> None \<and> \<not> isnan (fst (zval m a))"
    and "\<not> isnan sc" "sorted_wrt (\<lambda>x y. \<not> zkey (zval m x) < zkey (sc, nm) \<longrightarrow> \<not> zkey (zval m y) < zkey (sc, nm)) (inorder t)"
  shows "seek_loop m sc nm (root_ptr t) f = Some (case dropWhile (\<lambda>a. zkey (zval m a) < zkey (sc, nm)) (inorder t) of
      [] \<Rightarrow> f | a # _ \<Rightarrow> Some a)"
  using assms(1,2,4)
proof (induction t arbitrary: par f)
  case Leaf
  then show ?case by (simp add: seek_loop.simps)
next
  case (Node l a r)
  let ?P = "\<lambda>a. zkey (zval m a) < zkey (sc, nm)"
  note s = sorted_wrt_node [OF Node.prems(3)]
  have za: "zless_key m a sc nm = Some (?P a)" using Node.prems(2) assms(3) by (intro zless_at) auto
  show ?case
  proof (cases "?P a")
    case True
    have "dropWhile ?P (inorder l @ a # inorder r) = dropWhile ?P (inorder r)"
      using cut_right(2) [of "\<lambda>x. \<not> ?P x" a "inorder l" "inorder r"] True s(3) by simp
    moreover have "seek_loop m sc nm (root_ptr r) f = Some (case dropWhile ?P (inorder r) of [] \<Rightarrow> f | a # _ \<Rightarrow> Some a)"
      using Node.prems(1,2) s(2) by (intro Node.IH(2)) auto
    ultimately show ?thesis using Node.prems(1) za True by (subst seek_loop.simps) simp
  next
    case False
    have "dropWhile ?P (inorder l @ a # inorder r) = dropWhile ?P (inorder l) @ a # inorder r"
      using cut_left(2) [of "\<lambda>x. \<not> ?P x" a "inorder l" "inorder r"] False by simp
    moreover have "seek_loop m sc nm (root_ptr l) (Some a)
        = Some (case dropWhile ?P (inorder l) of [] \<Rightarrow> Some a | a # _ \<Rightarrow> Some a)"
      using Node.prems(1,2) s(1) by (intro Node.IH(1)) auto
    ultimately show ?thesis using Node.prems(1) za False
      by (subst seek_loop.simps) (cases "dropWhile ?P (inorder l)"; simp)
  qed
qed

definition zs_rank :: "u64 \<Rightarrow> bytes \<Rightarrow> zl \<Rightarrow> nat" where
  "zs_rank sc nm xs = length (takeWhile (\<lambda>q. zkey q < zkey (sc, nm)) xs)"

lemma zset_seek_ok:
  assumes "zset_ok m z t" "\<not> isnan sc"
  shows "zset_seek_greater_equal m z sc nm = Some (target (inorder t) (int (zs_rank sc nm (zlist m t))))"
proof -
  have tok: "tree_ok m (root_p z) t" using assms(1) by (simp add: zset_ok_def)
  have "sorted_wrt (\<lambda>x y. \<not> zkey (zval m x) < zkey (sc, nm) \<longrightarrow> \<not> zkey (zval m y) < zkey (sc, nm)) (inorder t)"
    using tree_ok_sorted(1) [OF tok] by (rule sorted_wrt_mono_rel [rotated]) (auto simp: not_less)
  then have "seek_loop m sc nm (root_ptr t) None
      = Some (case dropWhile (\<lambda>a. zkey (zval m a) < zkey (sc, nm)) (inorder t) of [] \<Rightarrow> None | a # _ \<Rightarrow> Some a)"
    using tok tree_ok_sorted(3) [OF tok] assms(2) by (intro seek_loop_at) (auto simp: tree_ok_def)
  then show ?thesis
    using tok by (simp add: zset_seek_greater_equal_def tree_ok_def zs_rank_def zv_list_def takeWhile_map comp_def
        flip: target_hd)
qed

lemma znode_offset_ok:
  assumes "zset_ok m z t"
  shows "znode_offset m (target (inorder t) j) off = Some (case target (inorder t) j of
     None \<Rightarrow> None | Some _ \<Rightarrow> target (inorder t) (j + int32_of off))"
proof -
  have tok: "tree_ok m (root_p z) t" using assms(1) by (simp add: zset_ok_def)
  then have at: "tree_at (avl m) None t" by (simp add: tree_ok_def)
  show ?thesis
    using avl_offset_at [OF at tree_ok_fits [OF tok], of "nat j" "int32_of off"]
    by (auto simp: znode_offset_def target_def)
qed

section \<open>Disposal\<close>

definition freed :: "mem \<Rightarrow> addr set \<Rightarrow> bool" where
  "freed m S \<longleftrightarrow> (\<forall>x \<in> S. avl m x = None \<and> hns m x = None \<and> zns m x = None)"

lemma tree_dispose_at:
  assumes "tree_at (avl m) par t" "distinct (inorder t)" "\<forall>a \<in> set_tree t. zns m a \<noteq> None"
  shows "\<exists>m'. tree_dispose m (root_ptr t) = Some m' \<and> freed m' (set_tree t) \<and> zframe m m' (set_tree t)
    \<and> brk m' = brk m"
  using assms
proof (induction t arbitrary: m par)
  case Leaf
  then show ?case by (simp add: tree_dispose.simps freed_def)
next
  case (Node l a r)
  have dis: "set_tree l \<inter> set_tree r = {}" "a \<notin> set_tree l" "a \<notin> set_tree r" using Node.prems(2) by auto
  from Node.IH(1) [of m "Some a"] Node.prems obtain m1 where
    m1: "tree_dispose m (root_ptr l) = Some m1" "freed m1 (set_tree l)" "zframe m m1 (set_tree l)" "brk m1 = brk m"
    by auto
  have eq1: "avl m1 x = avl m x \<and> zns m1 x = zns m x \<and> hns m1 x = hns m x" if "x \<notin> set_tree l" for x
    using m1(3) that by (simp add: zframe_def)
  have "tree_at (avl m1) (Some a) r"
    using Node.prems(1) eq1 dis by (subst tree_at_cong [of r "avl m1" "avl m"]) auto
  moreover have "\<forall>x \<in> set_tree r. zns m1 x \<noteq> None"
  proof
    fix x assume x: "x \<in> set_tree r"
    with dis(1) have "x \<notin> set_tree l" by blast
    with eq1 [OF this] x Node.prems(3) show "zns m1 x \<noteq> None" by simp
  qed
  ultimately obtain m2 where
    m2: "tree_dispose m1 (root_ptr r) = Some m2" "freed m2 (set_tree r)" "zframe m1 m2 (set_tree r)" "brk m2 = brk m1"
    using Node.IH(2) [of m1 "Some a"] Node.prems(2) by auto
  have eq2: "avl m2 x = avl m1 x \<and> zns m2 x = zns m1 x \<and> hns m2 x = hns m1 x" if "x \<notin> set_tree r" for x
    using m2(3) that by (simp add: zframe_def)
  let ?m = "m2\<lparr>avl := (avl m2)(a := None), hns := (hns m2)(a := None), zns := (zns m2)(a := None)\<rparr>"
  have "zns m2 a \<noteq> None" using eq1 eq2 dis Node.prems(3) by auto
  then have "znode_del m2 a = Some ?m" by (auto simp: znode_del_def)
  moreover have "avl m1 a = Some (node_rec par l r)" using Node.prems(1) eq1 dis by auto
  ultimately have "tree_dispose m (root_ptr \<langle>l, a, r\<rangle>) = Some ?m"
    using Node.prems(1) m1(1) m2(1) by (subst tree_dispose.simps) simp
  moreover have "freed ?m (set_tree \<langle>l, a, r\<rangle>)"
    using m1(2) m2(2) eq2 dis by (auto simp: freed_def)
  moreover have "zframe m ?m (set_tree \<langle>l, a, r\<rangle>)"
    using eq1 eq2 m1(4) m2(4) by (auto simp: zframe_def)
  ultimately show ?case using m1(4) m2(4) by auto
qed

lemma zset_clear_ok:
  assumes "zset_ok m z t"
  shows "\<exists>m'. zset_clear m z = Some (m', k_empty_zset) \<and> freed m' (set_tree t) \<and> zframe m m' (set_tree t)
    \<and> brk m' = brk m"
proof -
  have "tree_at (avl m) None t" "distinct (inorder t)" "\<forall>a \<in> set_tree t. zns m a \<noteq> None" "root_p z = root_ptr t"
    using assms by (auto simp: zset_ok_def tree_ok_def)
  from tree_dispose_at [OF this(1-3)] this(4) show ?thesis
    by (auto simp: zset_clear_def k_empty_zset_def hm_clear_def Let_def)
qed

lemma zset_ok_empty: "zset_ok m k_empty_zset \<langle>\<rangle>"
  using hm_small_empty [of "hns m"]
  by (simp add: zset_ok_def tree_ok_def hash_ok_def k_empty_zset_def zs_ok_def zv_list_def)

text \<open>A set is untouched by a step that writes none of its nodes.\<close>

lemma zset_ok_frame:
  assumes ok: "zset_ok m z t" and fr: "zframe m m' S" and dis: "set_tree t \<inter> S = {}"
  shows "zset_ok m' z t" "zlist m' t = zlist m t"
proof -
  have eq: "avl m' x = avl m x" "hns m' x = hns m x" "zns m' x = zns m x" if "x \<in> set_tree t" for x
    using fr dis that by (auto simp: zframe_def)
  show zl: "zlist m' t = zlist m t" using eq(3) by (simp add: zv_list_def zv_def)
  have "tree_at (avl m') None t"
    using ok eq(1) by (subst tree_at_cong [of t "avl m'" "avl m"]) (auto simp: zset_ok_def tree_ok_def)
  moreover have "hm_small (hns m') (zmap z) (set_tree t)"
    by (rule hm_small_cong [of "hns m"]) (use ok eq(2) in \<open>auto simp: zset_ok_def hash_ok_def\<close>)
  moreover have "brk m \<le> brk m'" using fr by (simp add: zframe_def)
  ultimately show "zset_ok m' z t"
    using ok zl eq by (fastforce simp: zset_ok_def tree_ok_def hash_ok_def hash_of_def zv_def)
qed

text \<open>A set with one member.\<close>

lemma single_zset:
  obtains m z t a where "zset_ok m z t" "zlist m t = [(0, [110])]" "inorder t = [a]" "size t = 1" "set_tree t = {a}"
proof -
  let ?m = "\<lparr>avl = Map.empty, hns = Map.empty, zns = Map.empty, brk = 0\<rparr> :: mem"
  have "\<not> isnan 0" by (simp add: eval_simps)
  moreover have "zlist ?m \<langle>\<rangle> = []" by (simp add: zv_list_def)
  ultimately obtain m z t where z: "zset_ok m z t" "zlist m t = [(0, [110])]"
    using zset_insert_ok(2) [OF zset_ok_empty [of ?m], of 0 "[110]"]
    by (auto simp: zs_score_def zs_add_def zs_put_def)
  from z(2) obtain a where a: "inorder t = [a]" by (auto simp: zv_list_def map_eq_Cons_conv)
  have "size t = length (inorder t)" "set_tree t = set (inorder t)" by simp_all
  with that [OF z a] a show thesis by simp
qed

end
