(* ===== verification/Database.thy ===== *)
theory Database
  imports Commands Zset_Ops
begin

text \<open>
  The commands as operations on an abstract database: a finite map from keys to entries, an entry
  being its type, its string, its sorted list of (score, name) pairs and its deadline. \<open>server_ok sv A\<close>
  says that the state \<open>sv\<close> is well formed and represents \<open>A\<close>; \<open>run_spec\<close> is what a request does to
  \<open>A\<close> and what it answers. The theorem of this theory is that \<open>run_request\<close> implements \<open>run_spec\<close>.
\<close>

section \<open>The abstract database\<close>

record aentry =
  a_type :: u32
  a_val :: bytes
  a_zs :: zl
  a_ttl :: "u64 option"

type_synonym adb = "bytes \<rightharpoonup> aentry"

definition new_entry :: "u32 \<Rightarrow> bytes \<Rightarrow> zl \<Rightarrow> aentry" where
  "new_entry ty v zs = \<lparr>a_type = ty, a_val = v, a_zs = zs, a_ttl = None\<rparr>"

text \<open>The number of keys of the database, and of members of a set, from which an insertion aborts.\<close>

definition full :: nat where
  "full = 31"

definition spec_get :: "bytes \<Rightarrow> adb \<Rightarrow> resp" where
  "spec_get k A = (case A k of None \<Rightarrow> RNil | Some e \<Rightarrow> RStr (a_val e))"

definition spec_set :: "bytes \<Rightarrow> bytes \<Rightarrow> adb \<Rightarrow> adb option" where
  "spec_set k v A =
     (case A k of
        Some e \<Rightarrow> Some (A(k \<mapsto> e\<lparr>a_val := v\<rparr>))
      | None \<Rightarrow> if card (dom A) = full then None else Some (A(k \<mapsto> new_entry TYPE_INIT v [])))"

definition spec_del :: "bytes \<Rightarrow> adb \<Rightarrow> adb \<times> resp" where
  "spec_del k A = (A(k := None), RInt (if A k = None then 0 else 1))"

definition spec_pexpire :: "u64 \<Rightarrow> bytes \<Rightarrow> bytes \<Rightarrow> adb \<Rightarrow> adb \<times> resp" where
  "spec_pexpire now k arg A =
     (case str2int arg of
        None \<Rightarrow> (A, RErr ERR_BAD_ARG (lit ''expect int''))
      | Some t \<Rightarrow>
          (case A k of
             None \<Rightarrow> (A, RInt 0)
           | Some e \<Rightarrow> (A(k \<mapsto> e\<lparr>a_ttl := if t < 0 then None else Some (now + word_of_int t)\<rparr>), RInt 1)))"

definition spec_pttl :: "u64 \<Rightarrow> bytes \<Rightarrow> adb \<Rightarrow> resp" where
  "spec_pttl now k A =
     (case A k of
        None \<Rightarrow> RInt (-2)
      | Some e \<Rightarrow>
          (case a_ttl e of
             None \<Rightarrow> RInt (-1)
           | Some d \<Rightarrow> RInt (if d > now then uint (d - now) else 0)))"

definition bad_type :: resp where
  "bad_type = RErr ERR_BAD_TYP (lit ''expect zset'')"

definition spec_zadd :: "bytes \<Rightarrow> bytes \<Rightarrow> bytes \<Rightarrow> adb \<Rightarrow> (adb \<times> resp) option" where
  "spec_zadd k arg nm A =
     (case str2dbl arg of
        None \<Rightarrow> Some (A, RErr ERR_BAD_ARG (lit ''expect float''))
      | Some sc \<Rightarrow>
          (case A k of
             None \<Rightarrow>
               if card (dom A) = full then None
               else Some (A(k \<mapsto> new_entry TYPE_ZSET [] [(sc, nm)]), RInt 1)
           | Some e \<Rightarrow>
               if a_type e \<noteq> TYPE_ZSET then Some (A, bad_type)
               else if zs_score nm (a_zs e) = None \<and> length (a_zs e) = full then None
               else Some (A(k \<mapsto> e\<lparr>a_zs := zs_add nm sc (a_zs e)\<rparr>),
                          RInt (if zs_score nm (a_zs e) = None then 1 else 0))))"

definition spec_zrem :: "bytes \<Rightarrow> bytes \<Rightarrow> adb \<Rightarrow> adb \<times> resp" where
  "spec_zrem k nm A =
     (case A k of
        None \<Rightarrow> (A, RInt 0)
      | Some e \<Rightarrow>
          if a_type e \<noteq> TYPE_ZSET then (A, bad_type)
          else (A(k \<mapsto> e\<lparr>a_zs := zs_rem nm (a_zs e)\<rparr>), RInt (if zs_score nm (a_zs e) = None then 0 else 1)))"

definition spec_zscore :: "bytes \<Rightarrow> bytes \<Rightarrow> adb \<Rightarrow> resp" where
  "spec_zscore k nm A =
     (case A k of
        None \<Rightarrow> RNil
      | Some e \<Rightarrow>
          if a_type e \<noteq> TYPE_ZSET then bad_type
          else (case zs_score nm (a_zs e) of None \<Rightarrow> RNil | Some s \<Rightarrow> RDbl s))"

text \<open>
  The pairs a query selects: from the first at or after (score, name), moved by the offset, as many
  pairs as it takes to reach the limit of array elements, each pair being two of them.
\<close>

definition zs_query :: "u64 \<Rightarrow> bytes \<Rightarrow> int \<Rightarrow> int \<Rightarrow> zl \<Rightarrow> zl" where
  "zs_query sc nm offset limit xs =
     (let i = int (zs_rank sc nm xs); j = i + int32_of offset
      in if limit \<le> 0 \<or> i \<ge> int (length xs) \<or> j < 0 then []
         else take ((nat limit + 1) div 2) (drop (nat j) xs))"

definition spec_zquery :: "bytes \<Rightarrow> bytes \<Rightarrow> bytes \<Rightarrow> bytes \<Rightarrow> bytes \<Rightarrow> adb \<Rightarrow> resp" where
  "spec_zquery k arg nm off_arg lim_arg A =
     (case str2dbl arg of
        None \<Rightarrow> RErr ERR_BAD_ARG (lit ''expect fp number'')
      | Some sc \<Rightarrow>
          (case (str2int off_arg, str2int lim_arg) of
             (Some offset, Some limit) \<Rightarrow>
               (let pairs = (\<lambda>xs. RArr (concat (map (\<lambda>(s, n). [RStr n, RDbl s]) xs))) in
                case A k of
                  None \<Rightarrow> RArr []
                | Some e \<Rightarrow>
                    if a_type e \<noteq> TYPE_ZSET then bad_type
                    else pairs (zs_query sc nm offset limit (a_zs e)))
           | _ \<Rightarrow> RErr ERR_BAD_ARG (lit ''expect int'')))"

definition spec_keys :: "bytes list \<Rightarrow> adb \<Rightarrow> resp" where
  "spec_keys ks A = RArr (map (\<lambda>k. RStr (k @ lit '' : '' @ a_val (the (A k)))) ks)"

text \<open>
  One request: the database afterwards and the answer; \<open>None\<close> when the process aborts. The order in
  which \<open>keys\<close> lists the keys is not determined, it is the argument \<open>ks\<close>.
\<close>

definition run_spec :: "u64 \<Rightarrow> bytes list \<Rightarrow> bytes list \<Rightarrow> adb \<Rightarrow> (adb \<times> resp) option" where
  "run_spec now ks cmd A =
     (if is_cmd cmd 1 ''ping'' then Some (A, RStr (lit ''pong''))
      else if is_cmd cmd 2 ''get'' then Some (A, spec_get (cmd ! 1) A)
      else if is_cmd cmd 3 ''set'' then map_option (\<lambda>A'. (A', RNil)) (spec_set (cmd ! 1) (cmd ! 2) A)
      else if is_cmd cmd 2 ''del'' then Some (spec_del (cmd ! 1) A)
      else if is_cmd cmd 1 ''keys'' then Some (A, spec_keys ks A)
      else if is_cmd cmd 4 ''zadd'' then spec_zadd (cmd ! 1) (cmd ! 2) (cmd ! 3) A
      else if is_cmd cmd 3 ''zrem'' then Some (spec_zrem (cmd ! 1) (cmd ! 2) A)
      else if is_cmd cmd 3 ''zscore'' then Some (A, spec_zscore (cmd ! 1) (cmd ! 2) A)
      else if is_cmd cmd 6 ''zquery''
        then Some (A, spec_zquery (cmd ! 1) (cmd ! 2) (cmd ! 3) (cmd ! 4) (cmd ! 5) A)
      else if is_cmd cmd 2 ''pttl'' then Some (A, spec_pttl now (cmd ! 1) A)
      else if is_cmd cmd 3 ''pexpire'' then Some (spec_pexpire now (cmd ! 1) (cmd ! 2) A)
      else Some (A, RErr ERR_UNKNOWN (lit ''unknown command'')))"

section \<open>Deadlines\<close>

definition deadline :: "HeapItem list \<Rightarrow> addr \<Rightarrow> u64 option" where
  "deadline h a = map_option val (find (\<lambda>x. ref x = Some a) h)"

lemma deadline_None: "deadline h a = None \<longleftrightarrow> a \<notin> cells h"
  by (auto simp: deadline_def find_None_iff cells_def)

lemma refs_ok_inj:
  assumes "refs_ok h r" "i < length h" "j < length h" "ref (h ! i) = ref (h ! j)"
  shows "i = j"
  using assms unfolding refs_ok_def by (metis option.inject)

lemma deadline_item:
  assumes "refs_ok h r" "x \<in> set h" "ref x = Some a"
  shows "deadline h a = Some (val x)"
proof -
  obtain y where y: "find (\<lambda>x. ref x = Some a) h = Some y"
    using assms(2,3) by (cases "find (\<lambda>x. ref x = Some a) h") (auto simp: find_None_iff)
  then have "y \<in> set h" "ref y = Some a" by (auto simp: find_Some_iff)
  with assms have "y = x" by (auto simp: in_set_conv_nth dest: refs_ok_inj)
  with y show ?thesis by (simp add: deadline_def)
qed

lemma deadline_index:
  assumes "refs_ok h r" "a \<in> cells h"
  shows "\<exists>i < length h. r a = Some i \<and> ref (h ! i) = Some a \<and> deadline h a = Some (val (h ! i))"
proof -
  from assms(2) obtain i where i: "i < length h" "ref (h ! i) = Some a"
    by (auto simp: cells_def in_set_conv_nth)
  moreover have "r a = Some i" using assms(1) i by (auto simp: refs_ok_def)
  ultimately show ?thesis using deadline_item [OF assms(1), of "h ! i" a] by auto
qed

text \<open>Deadlines depend on the items only, not on their order.\<close>

lemma deadline_mset:
  assumes "refs_ok h r" "refs_ok h' r'" "mset h = mset h'"
  shows "deadline h a = deadline h' a"
proof (cases "a \<in> cells h")
  case True
  then obtain x where x: "x \<in> set h" "ref x = Some a" by (auto simp: cells_def)
  with mset_eq_setD [OF assms(3)] have "x \<in> set h'" by simp
  with x show ?thesis using deadline_item [OF assms(1)] deadline_item [OF assms(2)] by simp
next
  case False
  then have "a \<notin> cells h'" using mset_eq_setD [OF assms(3)] by (simp add: cells_def)
  with False show ?thesis using deadline_None by metis
qed

lemma length_cells: "refs_ok h r \<Longrightarrow> length h = card (cells h)"
proof -
  assume ok: "refs_ok h r"
  let ?xs = "map (\<lambda>x. the (ref x)) h"
  have some: "\<exists>a. ref x = Some a" if "x \<in> set h" for x
    using ok that by (auto simp: refs_ok_def in_set_conv_nth)
  have "cells h = set ?xs" using some by (force simp: cells_def)
  moreover have "distinct ?xs"
  proof (simp add: distinct_conv_nth, intro allI impI)
    fix i j assume ij: "i < length h" "j < length h" "i \<noteq> j"
    with some [of "h ! i"] some [of "h ! j"] refs_ok_inj [OF ok ij(1,2)]
    show "the (ref (h ! i)) \<noteq> the (ref (h ! j))" by force
  qed
  ultimately show ?thesis using distinct_card [of ?xs] by simp
qed

section \<open>The invariant\<close>

text \<open>
  \<open>N\<close> is the set of addresses of the entries, \<open>T a\<close> the tree of the sorted set of entry \<open>a\<close>. An
  entry owns its own address and the nodes of its set; no two entries share an address.
\<close>

definition owned :: "(addr \<Rightarrow> addr tree) \<Rightarrow> addr \<Rightarrow> addr set" where
  "owned T a = insert a (set_tree (T a))"

definition entry_ok :: "server \<Rightarrow> (addr \<Rightarrow> addr tree) \<Rightarrow> addr \<Rightarrow> bool" where
  "entry_ok sv T a \<longleftrightarrow>
     (\<exists>e. ents sv a = Some e \<and> hash_of (shns sv) a = Some (string_hash (ekey e))
        \<and> zset_ok (smem sv) (ezset e) (T a) \<and> (etype e \<noteq> TYPE_ZSET \<longrightarrow> T a = \<langle>\<rangle>)
        \<and> length (evalue e) \<le> k_max_msg)
     \<and> a < brk (smem sv) \<and> a \<notin> set_tree (T a)"

definition ttl_ok :: "server \<Rightarrow> addr set \<Rightarrow> bool" where
  "ttl_ok sv N \<longleftrightarrow> heap_ok (ttls sv) \<and> refs_ok (ttls sv) (idxs sv) \<and> cells (ttls sv) \<subseteq> N
     \<and> (\<forall>a \<in> N. a \<notin> cells (ttls sv) \<longrightarrow> idxs sv a = Some npos)"

definition key_of :: "server \<Rightarrow> addr \<Rightarrow> bytes" where
  "key_of sv a = ekey (the (ents sv a))"

definition sv_inv :: "server \<Rightarrow> addr set \<Rightarrow> (addr \<Rightarrow> addr tree) \<Rightarrow> bool" where
  "sv_inv sv N T \<longleftrightarrow> hm_small (shns sv) (db sv) N \<and> (\<forall>a \<in> N. entry_ok sv T a) \<and> inj_on (key_of sv) N
     \<and> (\<forall>a \<in> N. \<forall>b \<in> N. a \<noteq> b \<longrightarrow> owned T a \<inter> owned T b = {}) \<and> ttl_ok sv N"

definition aent :: "server \<Rightarrow> (addr \<Rightarrow> addr tree) \<Rightarrow> addr \<Rightarrow> aentry" where
  "aent sv T a =
     (let e = the (ents sv a)
      in \<lparr>a_type = etype e, a_val = evalue e, a_zs = zlist (smem sv) (T a), a_ttl = deadline (ttls sv) a\<rparr>)"

definition abs_ok :: "server \<Rightarrow> addr set \<Rightarrow> (addr \<Rightarrow> addr tree) \<Rightarrow> adb \<Rightarrow> bool" where
  "abs_ok sv N T A \<longleftrightarrow> dom A = key_of sv ` N \<and> (\<forall>a \<in> N. A (key_of sv a) = Some (aent sv T a))"

definition server_ok :: "server \<Rightarrow> adb \<Rightarrow> bool" where
  "server_ok sv A \<longleftrightarrow> (\<exists>N T. sv_inv sv N T \<and> abs_ok sv N T A) \<and> pool sv = []"

lemma sv_invD:
  assumes "sv_inv sv N T"
  shows "hm_small (shns sv) (db sv) N" "a \<in> N \<Longrightarrow> entry_ok sv T a" "inj_on (key_of sv) N"
    "a \<in> N \<Longrightarrow> b \<in> N \<Longrightarrow> a \<noteq> b \<Longrightarrow> owned T a \<inter> owned T b = {}" "ttl_ok sv N"
    "card N \<le> 31" "finite N"
  using assms hm_size_ok by (auto simp: sv_inv_def hm_small_def)

lemma card_dom: "sv_inv sv N T \<Longrightarrow> abs_ok sv N T A \<Longrightarrow> card (dom A) = card N"
  by (simp add: abs_ok_def sv_inv_def card_image)

lemma owned_bound:
  assumes "entry_ok sv T a" "x \<in> owned T a"
  shows "x < brk (smem sv)"
  using assms by (auto simp: entry_ok_def owned_def zset_ok_def hash_ok_def)

text \<open>The lookup at the start of every handler.\<close>

lemma entry_keys:
  assumes "sv_inv sv N T"
  shows "\<forall>a \<in> N. entry_equals sv k a = Some (key_of sv a = k)"
    "\<forall>a \<in> N. hash_of (shns sv) a = Some (string_hash (key_of sv a))"
  using sv_invD(2) [OF assms] by (fastforce simp: entry_equals_def key_of_def entry_ok_def)+

lemma db_lookup_ok:
  assumes inv: "sv_inv sv N T" and abs: "abs_ok sv N T A"
  shows "\<exists>p. db_lookup sv k = Some (sv, p)
    \<and> (case p of None \<Rightarrow> A k = None | Some a \<Rightarrow> a \<in> N \<and> key_of sv a = k \<and> A k = Some (aent sv T a))"
proof -
  from nm.lookup_key [OF sv_invD(1) [OF inv] entry_keys [OF inv], of k] obtain p where
    p: "hm_lookup (shns sv) (db sv) (string_hash k) (entry_equals sv k) = Some (shns sv, db sv, p)"
      "case p of None \<Rightarrow> k \<notin> key_of sv ` N | Some a \<Rightarrow> a \<in> N \<and> key_of sv a = k"
    by blast
  moreover have "case p of None \<Rightarrow> A k = None | Some a \<Rightarrow> a \<in> N \<and> key_of sv a = k \<and> A k = Some (aent sv T a)"
    using p(2) abs by (auto simp: abs_ok_def split: option.splits)
  ultimately show ?thesis by (simp add: db_lookup_def)
qed

text \<open>Changing what one entry stands for.\<close>

lemma abs_ok_update:
  assumes abs: "abs_ok sv N T A" and inj: "inj_on (key_of sv) N" and a: "a \<in> N"
    and keys: "\<And>b. key_of sv' b = key_of sv b" and other: "\<And>b. b \<in> N \<Longrightarrow> b \<noteq> a \<Longrightarrow> aent sv' T' b = aent sv T b"
  shows "abs_ok sv' N T' (A(key_of sv a \<mapsto> aent sv' T' a))"
proof -
  have ne: "key_of sv b \<noteq> key_of sv a" if "b \<in> N" "b \<noteq> a" for b
    using inj_onD [OF inj, of b a] that a by auto
  have "(A(key_of sv a \<mapsto> aent sv' T' a)) (key_of sv' b) = Some (aent sv' T' b)" if "b \<in> N" for b
    using abs keys other [OF that] ne [OF that] that by (cases "b = a") (auto simp: abs_ok_def)
  moreover have "dom (A(key_of sv a \<mapsto> aent sv' T' a)) = key_of sv' ` N"
    using abs a keys by (auto simp: abs_ok_def)
  ultimately show ?thesis by (simp add: abs_ok_def)
qed

text \<open>Changing one entry and its set.\<close>

lemma modify_entry:
  assumes inv: "sv_inv sv N T" and abs: "abs_ok sv N T A" and a: "a \<in> N" and e: "ents sv a = Some e"
    and fr: "zframe (smem sv) m' S" and S: "S \<subseteq> insert (brk (smem sv)) (set_tree (T a))"
    and z: "zset_ok m' (ezset e') t'" and t': "set_tree t' \<subseteq> insert (brk (smem sv)) (set_tree (T a))"
    and e': "ekey e' = ekey e" "etype e' \<noteq> TYPE_ZSET \<longrightarrow> t' = \<langle>\<rangle>" "length (evalue e') \<le> k_max_msg"
  defines "sv' \<equiv> sv\<lparr>smem := m', ents := (ents sv)(a \<mapsto> e')\<rparr>" and "T' \<equiv> T(a := t')"
  shows "sv_inv sv' N T'" "abs_ok sv' N T' (A(ekey e \<mapsto> aent sv' T' a))"
    "aent sv' T' a = (aent sv T a)\<lparr>a_type := etype e', a_val := evalue e', a_zs := zlist m' t'\<rparr>"
proof -
  note D = sv_invD [OF inv]
  have below: "x < brk (smem sv)" if "b \<in> N" "x \<in> owned T b" for b x
    using owned_bound [OF D(2)] that by blast
  have disS: "owned T b \<inter> S = {}" if "b \<in> N" "b \<noteq> a" for b
    using S D(4) [OF that(1) a that(2)] below [OF that(1)] by (fastforce simp: owned_def)
  have ain: "a \<notin> insert (brk (smem sv)) (set_tree (T a))"
    using D(2) [OF a] by (auto simp: entry_ok_def)
  have NS: "b \<notin> S" if "b \<in> N" for b
    using disS [of b] ain S that by (cases "b = a") (auto simp: owned_def)
  have hns: "hns m' b = shns sv b" if "b \<in> N" for b using fr NS [OF that] by (simp add: zframe_def)
  have brk: "brk (smem sv) \<le> brk m'" using fr by (simp add: zframe_def)
  have keys: "key_of sv' b = key_of sv b" for b using e e'(1) by (simp add: key_of_def sv'_def)
  have ent: "entry_ok sv' T' b" if b: "b \<in> N" for b
  proof (cases "b = a")
    case True
    with D(2) [OF a] e e' z ain t' brk hns [OF a] show ?thesis
      by (auto simp: entry_ok_def sv'_def T'_def hash_of_def)
  next
    case False
    have "set_tree (T b) \<inter> S = {}" using disS [OF b False] by (auto simp: owned_def)
    with zset_ok_frame(1) [OF _ fr, of _ "T b"] D(2) [OF b] False brk hns [OF b] show ?thesis
      by (auto simp: entry_ok_def sv'_def T'_def hash_of_def)
  qed
  have small: "hm_small (shns sv') (db sv') N"
    by (rule hm_small_cong [of "shns sv"]) (use D(1) hns in \<open>simp_all add: sv'_def\<close>)
  have "owned T' b \<inter> owned T' c = {}" if "b \<in> N" "c \<in> N" "b \<noteq> c" for b c
  proof -
    have sub: "owned T' a \<subseteq> insert (brk (smem sv)) (owned T a)" using t' by (auto simp: owned_def T'_def)
    have "owned T' a \<inter> owned T x = {}" if x: "x \<in> N" "x \<noteq> a" for x
      using sub D(4) [OF a x(1)] x(2) below [OF x(1)] by fastforce
    then show ?thesis using D(4) [OF that] that by (cases "b = a"; cases "c = a") (auto simp: owned_def T'_def)
  qed
  with small ent D(3,5) keys show "sv_inv sv' N T'"
    by (auto simp: sv_inv_def inj_on_def ttl_ok_def sv'_def)
  show "aent sv' T' a = (aent sv T a)\<lparr>a_type := etype e', a_val := evalue e', a_zs := zlist m' t'\<rparr>"
    by (simp add: aent_def sv'_def T'_def Let_def)
  have other: "aent sv' T' b = aent sv T b" if "b \<in> N" "b \<noteq> a" for b
  proof -
    have "set_tree (T b) \<inter> S = {}" using disS [OF that] by (auto simp: owned_def)
    with zset_ok_frame(2) [OF _ fr, of _ "T b"] D(2) [OF that(1)] that(2) show ?thesis
      by (auto simp: entry_ok_def aent_def sv'_def T'_def)
  qed
  have "key_of sv a = ekey e" using e by (simp add: key_of_def)
  with abs_ok_update [OF abs D(3) a keys other] show "abs_ok sv' N T' (A(ekey e \<mapsto> aent sv' T' a))" by simp
qed

text \<open>The entries' own nodes and the nodes of the sets are apart.\<close>

lemma tree_apart:
  assumes inv: "sv_inv sv N T" and b: "b \<in> N"
  shows "set_tree (T b) \<inter> N = {}"
proof -
  have "c \<notin> set_tree (T b)" if c: "c \<in> N" for c
    using sv_invD(4) [OF inv b c] sv_invD(2) [OF inv b] by (cases "c = b") (auto simp: owned_def entry_ok_def)
  then show ?thesis by blast
qed

lemma refs_ok_upd: "a \<notin> cells h \<Longrightarrow> refs_ok h (r(a \<mapsto> i)) = refs_ok h r"
  unfolding refs_ok_def cells_def by (auto dest: nth_mem) (metis nth_mem)+

lemma refs_ok_clear:
  assumes "a \<notin> cells h" "refs_ok h r"
  shows "refs_ok h (r(a := None))"
  unfolding refs_ok_def
proof (intro allI impI)
  fix i assume i: "i < length h"
  with assms(2) obtain b where b: "ref (h ! i) = Some b" "r b = Some i" by (auto simp: refs_ok_def)
  with assms(1) i have "b \<noteq> a" by (auto simp: cells_def)
  with b show "\<exists>b. ref (h ! i) = Some b \<and> (r(a := None)) b = Some i" by auto
qed

text \<open>
  A new entry: its node is linked into the map, at the next free address, which no entry owns.
\<close>

definition linked_entry :: "server \<Rightarrow> bytes \<Rightarrow> u32 \<Rightarrow> bytes \<Rightarrow> hn_heap \<Rightarrow> HMap \<Rightarrow> server" where
  "linked_entry sv k ty v h d =
     (let a = brk (smem sv)
      in sv\<lparr>idxs := (idxs sv)(a \<mapsto> npos), smem := (smem sv)\<lparr>brk := Suc a, hns := h\<rparr>,
            ents := (ents sv)(a \<mapsto> \<lparr>ekey = k, etype = ty, evalue = v, ezset = k_empty_zset\<rparr>), db := d\<rparr>)"

lemma fresh_address:
  assumes "sv_inv sv N T" "b \<in> N" "x \<in> owned T b"
  shows "x < brk (smem sv)"
  using owned_bound [OF sv_invD(2) [OF assms(1)]] assms(2,3) by blast

lemma db_insert_code:
  fixes sv :: server
  defines "a \<equiv> brk (smem sv)"
  shows "db_insert sv k ty v = do {
      (h, d) \<leftarrow> hm_insert ((shns sv)(a \<mapsto> \<lparr>next_p = None, hash_code = string_hash k\<rparr>)) (db sv) a;
      Some (linked_entry sv k ty v h d, a) }"
  by (simp add: db_insert_def entry_new_def linked_entry_def Let_def a_def)

lemma db_insert_node:
  fixes k :: bytes
  assumes inv: "sv_inv sv N T"
  defines "a \<equiv> brk (smem sv)" and "h0 \<equiv> (shns sv)(brk (smem sv) \<mapsto> \<lparr>next_p = None, hash_code = string_hash k\<rparr>)"
  shows "a \<notin> N" "hm_small h0 (db sv) N" "h0 a = Some \<lparr>next_p = None, hash_code = string_hash k\<rparr>"
proof -
  show aN: "a \<notin> N" using fresh_address [OF inv] by (auto simp: owned_def a_def)
  show "hm_small h0 (db sv) N"
    by (rule hm_small_cong [of "shns sv"]) (use sv_invD(1) [OF inv] aN in \<open>auto simp: h0_def a_def\<close>)
qed (simp add: h0_def a_def)

lemma db_insert_full:
  assumes "sv_inv sv N T" "card N = 31"
  shows "db_insert sv k ty v = None"
  unfolding db_insert_code hm_insert_small(1) [OF db_insert_node(2,3,1) [OF assms(1)] assms(2)] by simp

lemma db_insert_room:
  assumes inv: "sv_inv sv N T" and abs: "abs_ok sv N T A" and k: "A k = None" and v: "length v \<le> k_max_msg"
    and room: "card N < 31"
  defines "a \<equiv> brk (smem sv)"
  shows "\<exists>sv'. db_insert sv k ty v = Some (sv', a) \<and> sv_inv sv' (insert a N) (T(a := \<langle>\<rangle>))
      \<and> abs_ok sv' (insert a N) (T(a := \<langle>\<rangle>)) (A(k \<mapsto> new_entry ty v []))
      \<and> ents sv' a = Some \<lparr>ekey = k, etype = ty, evalue = v, ezset = k_empty_zset\<rparr>"
proof -
  note D = sv_invD [OF inv]
  have below: "x < a" if "b \<in> N" "x \<in> owned T b" for b x
    using fresh_address [OF inv that] by (simp add: a_def)
  let ?h = "(shns sv)(a \<mapsto> \<lparr>next_p = None, hash_code = string_hash k\<rparr>)"
  let ?e = "\<lparr>ekey = k, etype = ty, evalue = v, ezset = k_empty_zset\<rparr>"
  have aN: "a \<notin> N" using db_insert_node(1) [OF inv] by (simp add: a_def)
  from hm_insert_small(2) [OF db_insert_node(2,3,1) [OF inv] room, of k, folded a_def] obtain h d where
    i: "hm_insert ?h (db sv) a = Some (h, d)" "hm_small h d (insert a N)" "moved ?h h (insert a N)"
    by blast
  let ?sv = "sv\<lparr>idxs := (idxs sv)(a \<mapsto> npos), smem := (smem sv)\<lparr>brk := Suc a, hns := h\<rparr>,
        ents := (ents sv)(a \<mapsto> ?e), db := d\<rparr>" and ?T = "T(a := \<langle>\<rangle>)"
  have code: "db_insert sv k ty v = Some (?sv, a)"
    using i(1) by (simp add: db_insert_code linked_entry_def Let_def flip: a_def)
  have hash: "hash_of h x = hash_of ?h x" for x using i(3) by (simp add: moved_def)
  have fr: "zframe (smem sv) (smem ?sv) (insert a N)"
    using i(3) by (auto simp: zframe_def moved_def a_def)
  have dis: "set_tree (T b) \<inter> insert a N = {}" if "b \<in> N" for b
    using tree_apart [OF inv that] below [OF that] by (auto simp: owned_def)
  have keys: "key_of ?sv b = (if b = a then k else key_of sv b)" for b by (simp add: key_of_def)
  have ent: "entry_ok ?sv ?T b" if b: "b \<in> insert a N" for b
  proof (cases "b = a")
    case True
    with v hash zset_ok_empty show ?thesis by (auto simp: entry_ok_def hash_of_def)
  next
    case False
    with b have bN: "b \<in> N" by simp
    from zset_ok_frame(1) [OF _ fr dis [OF bN]] D(2) [OF bN] False hash show ?thesis
      by (auto simp: entry_ok_def hash_of_def a_def)
  qed
  have "k \<notin> key_of sv ` N" using abs k by (auto simp: abs_ok_def)
  then have "inj_on (key_of ?sv) (insert a N)"
    using D(3) aN keys by (auto simp: inj_on_def)
  moreover have "owned ?T b \<inter> owned ?T c = {}" if "b \<in> insert a N" "c \<in> insert a N" "b \<noteq> c" for b c
    using D(4) [of b c] that below by (cases "b = a"; cases "c = a") (fastforce simp: owned_def)+
  moreover have "ttl_ok ?sv (insert a N)"
    using D(5) aN refs_ok_upd [of a "ttls sv"] by (auto simp: ttl_ok_def)
  ultimately have inv': "sv_inv ?sv (insert a N) ?T"
    using i(2) ent by (simp add: sv_inv_def)
  have "aent ?sv ?T b = aent sv T b" if "b \<in> N" for b
    using zset_ok_frame(2) [OF _ fr dis [OF that]] D(2) [OF that] that aN
    by (auto simp: aent_def entry_ok_def)
  moreover have "deadline (ttls sv) a = None" using D(5) aN by (auto simp: deadline_None ttl_ok_def)
  then have "aent ?sv ?T a = new_entry ty v []" by (simp add: aent_def new_entry_def zv_list_def)
  ultimately have "abs_ok ?sv (insert a N) ?T (A(k \<mapsto> new_entry ty v []))"
    using abs keys aN \<open>k \<notin> key_of sv ` N\<close> by (auto simp: abs_ok_def)
  with inv' show ?thesis using code by (intro exI [of _ ?sv]) simp
qed

section \<open>Changing a deadline\<close>

lemma deadline_cong:
  assumes "refs_ok h r" "refs_ok h' r'" "\<forall>x. ref x = Some b \<longrightarrow> x \<in> set h \<longleftrightarrow> x \<in> set h'"
  shows "deadline h b = deadline h' b" "b \<in> cells h \<longleftrightarrow> b \<in> cells h'"
proof -
  show c: "b \<in> cells h \<longleftrightarrow> b \<in> cells h'" using assms(3) by (auto simp: cells_def)
  show "deadline h b = deadline h' b"
  proof (cases "b \<in> cells h")
    case True
    then obtain x where "x \<in> set h" "ref x = Some b" by (auto simp: cells_def)
    with assms(3) deadline_item [OF assms(1)] deadline_item [OF assms(2)] show ?thesis by simp
  next
    case False
    with c show ?thesis using deadline_None by metis
  qed
qed

text \<open>
  Replacing heap and indices, when only the item of \<open>a\<close> may have changed: what is left to show is
  the invariant of the heap and the new deadline of \<open>a\<close>.
\<close>

lemma modify_ttl:
  assumes inv: "sv_inv sv N T" and abs: "abs_ok sv N T A" and a: "a \<in> N"
    and h: "heap_ok h" "refs_ok h r" "a \<notin> cells h \<Longrightarrow> r a = Some npos"
    and items: "\<forall>x. ref x \<noteq> Some a \<longrightarrow> x \<in> set h \<longleftrightarrow> x \<in> set (ttls sv)"
    and idx: "\<forall>b. b \<noteq> a \<longrightarrow> b \<notin> cells h \<longrightarrow> r b = idxs sv b"
    and d: "deadline h a = d"
  defines "sv' \<equiv> sv\<lparr>ttls := h, idxs := r\<rparr>"
  shows "sv_inv sv' N T \<and> abs_ok sv' N T (A(key_of sv a \<mapsto> (aent sv T a)\<lparr>a_ttl := d\<rparr>))"
proof
  note D = sv_invD [OF inv]
  have ok: "refs_ok (ttls sv) (idxs sv)" and cN: "cells (ttls sv) \<subseteq> N"
    and np: "\<forall>b \<in> N. b \<notin> cells (ttls sv) \<longrightarrow> idxs sv b = Some npos"
    using D(5) by (auto simp: ttl_ok_def)
  have other: "deadline h b = deadline (ttls sv) b" "b \<in> cells h \<longleftrightarrow> b \<in> cells (ttls sv)" if "b \<noteq> a" for b
    using deadline_cong [OF h(2) ok, of b] items that by auto
  have "ttl_ok sv' N"
    unfolding ttl_ok_def sv'_def
  proof (intro conjI ballI impI, simp_all add: h)
    show "cells h \<subseteq> N"
    proof
      fix b assume "b \<in> cells h"
      then show "b \<in> N" using other(2) [of b] cN a by (cases "b = a") auto
    qed
  next
    fix b assume "b \<in> N" "b \<notin> cells h"
    then show "r b = Some npos" using h(3) idx np other(2) [of b] by (cases "b = a") auto
  qed
  then show "sv_inv sv' N T"
    using inv unfolding sv_inv_def by (auto simp: sv'_def entry_ok_def key_of_def inj_on_def)
  have ae: "aent sv' T b = (if b = a then (aent sv T a)\<lparr>a_ttl := d\<rparr> else aent sv T b)" for b
    using other(1) d by (simp add: aent_def sv'_def Let_def)
  have "key_of sv' b = key_of sv b" for b by (simp add: key_of_def sv'_def)
  from abs_ok_update [OF abs D(3) a this, of T] show "abs_ok sv' N T (A(key_of sv a \<mapsto> (aent sv T a)\<lparr>a_ttl := d\<rparr>))"
    by (simp add: ae)
qed

text \<open>
  The heap after the deadline of one entry has been set to \<open>d\<close>: the item of the entry is the only one
  that changes. There are three ways: the item is removed, replaced, or added.
\<close>

definition deadline_set :: "HeapItem list \<Rightarrow> refs \<Rightarrow> addr \<Rightarrow> u64 option \<Rightarrow> HeapItem list \<Rightarrow> refs \<Rightarrow> bool" where
  "deadline_set h r a d h' r' \<longleftrightarrow> heap_ok h' \<and> refs_ok h' r' \<and> deadline h' a = d
     \<and> (a \<notin> cells h' \<longrightarrow> r' a = Some npos)
     \<and> (\<forall>x. ref x \<noteq> Some a \<longrightarrow> x \<in> set h' \<longleftrightarrow> x \<in> set h)
     \<and> (\<forall>b. b \<noteq> a \<longrightarrow> b \<notin> cells h' \<longrightarrow> r' b = r b)"

lemma deadline_removed:
  assumes ok: "heap_ok h" "refs_ok h r" "small_heap h" and i: "i < length h" "ref (h ! i) = Some a"
  shows "\<exists>h' r'. heap_delete h r i = Some (h', r') \<and> r' a \<noteq> None \<and> deadline_set h r a None h' (r'(a \<mapsto> npos))"
proof -
  from heap_delete_correct [OF ok i(1)] obtain h' r' where
    del: "heap_delete h r i = Some (h', r')" "heap_ok h'" "refs_ok h' r'"
      "add_mset (h ! i) (mset h') = mset h" "\<forall>b. b \<notin> cells h' \<longrightarrow> r' b = r b"
    by blast
  have mem: "set h = insert (h ! i) (set h')"
    using del(4) by (metis set_mset_add_mset_insert set_mset_mset)
  have "distinct h" using refs_ok_inj [OF ok(2)] by (auto simp: distinct_conv_nth)
  then have gone: "h ! i \<notin> set h'"
    using del(4) by (metis distinct.simps(2) mset.simps(2) mset_eq_imp_distinct_iff)
  have only: "x = h ! i" if x: "x \<in> set h" "ref x = Some a" for x
  proof -
    from x(1) obtain j where "j < length h" "x = h ! j" by (auto simp: in_set_conv_nth)
    with refs_ok_inj [OF ok(2), of j i] x(2) i show ?thesis by simp
  qed
  then have ac: "a \<notin> cells h'" using mem gone by (auto simp: cells_def)
  have "r a = Some i" using ok(2) i by (auto simp: refs_ok_def)
  moreover have "refs_ok h' (r'(a \<mapsto> npos))" using del(3) refs_ok_upd [OF ac] by simp
  moreover have "\<forall>x. ref x \<noteq> Some a \<longrightarrow> x \<in> set h' \<longleftrightarrow> x \<in> set h" using mem i(2) by auto
  ultimately show ?thesis using del(1,2,5) ac deadline_None [of h' a] by (auto simp: deadline_set_def)
qed

lemma deadline_upserted:
  assumes rep: "repaired h1 r (heap_upsert h r pos \<lparr>val = v, ref = Some a\<rparr>)"
    and item: "\<lparr>val = v, ref = Some a\<rparr> \<in> set h1"
    and others: "\<forall>x. ref x \<noteq> Some a \<longrightarrow> x \<in> set h1 \<longleftrightarrow> x \<in> set h"
  shows "\<exists>h' r'. heap_upsert h r pos \<lparr>val = v, ref = Some a\<rparr> = Some (h', r') \<and> deadline_set h r a (Some v) h' r'"
proof -
  from rep obtain h' r' where
    up: "heap_upsert h r pos \<lparr>val = v, ref = Some a\<rparr> = Some (h', r')" "heap_ok h'" "refs_ok h' r'" "mset h' = mset h1"
      "\<forall>b. b \<notin> cells h1 \<longrightarrow> r' b = r b"
    by (auto simp: repaired_def)
  have same: "set h' = set h1" by (rule mset_eq_setD [OF up(4)])
  then have "cells h' = cells h1" "a \<in> cells h'" using item by (force simp: cells_def)+
  moreover have "deadline h' a = Some v" using deadline_item [OF up(3)] item same by fastforce
  ultimately show ?thesis using up others same by (auto simp: deadline_set_def)
qed

lemma entry_set_ttl_present:
  assumes ok: "heap_ok h" "refs_ok h r" "length h \<le> 31" and mem: "a \<in> cells h" and sv: "ttls sv = h" "idxs sv = r"
  shows "\<exists>h' r'. entry_set_ttl sv now a t = Some (sv\<lparr>ttls := h', idxs := r'\<rparr>)
    \<and> deadline_set h r a (if t < 0 then None else Some (now + word_of_int t)) h' r'"
proof -
  from deadline_index [OF ok(2) mem] obtain i where
    i: "i < length h" "r a = Some i" "ref (h ! i) = Some a" by blast
  have inp: "i \<noteq> npos" and small: "small_heap h" using i(1) ok(3) by (auto simp: npos_def small_heap_def)
  show ?thesis
  proof (cases "t < 0")
    case neg: True
    from deadline_removed [OF ok(1,2) small i(1,3)] obtain h' r' where
      "heap_delete h r i = Some (h', r')" "r' a \<noteq> None" "deadline_set h r a None h' (r'(a \<mapsto> npos))" by blast
    with neg inp i(2) sv show ?thesis
      by (intro exI [of _ h'] exI [of _ "r'(a \<mapsto> npos)"]) (auto simp: entry_set_ttl_def)
  next
    case pos: False
    let ?item = "\<lparr>val = now + word_of_int t, ref = Some a\<rparr> :: HeapItem"
    have "?item \<in> set (h[i := ?item])" using i(1) by (simp add: set_update_memI)
    moreover have "\<forall>x. ref x \<noteq> Some a \<longrightarrow> x \<in> set (h[i := ?item]) \<longleftrightarrow> x \<in> set h"
      using i by (auto simp: in_set_conv_nth nth_list_update)
    ultimately obtain h' r' where
      "heap_upsert h r i ?item = Some (h', r')" "deadline_set h r a (Some (now + word_of_int t)) h' r'"
      using deadline_upserted [OF heap_upsert_update [OF ok(1,2) small i(1,3), of ?item]] by auto
    with pos inp i(2) sv show ?thesis
      by (intro exI [of _ h'] exI [of _ r']) (auto simp: entry_set_ttl_def)
  qed
qed

lemma entry_set_ttl_absent:
  assumes ok: "heap_ok h" "refs_ok h r" "length h \<le> 31" "a \<notin> cells h" and np: "r a = Some npos"
    and sv: "ttls sv = h" "idxs sv = r"
  shows "\<exists>h' r'. entry_set_ttl sv now a t = Some (sv\<lparr>ttls := h', idxs := r'\<rparr>)
    \<and> deadline_set h r a (if t < 0 then None else Some (now + word_of_int t)) h' r'"
proof (cases "t < 0")
  case True
  then have "entry_set_ttl sv now a t = Some (sv\<lparr>ttls := h, idxs := r\<rparr>)" using np sv by (simp add: entry_set_ttl_def)
  with True ok np deadline_None [of h a] show ?thesis
    by (intro exI [of _ h] exI [of _ r]) (auto simp: deadline_set_def)
next
  case pos: False
  let ?item = "\<lparr>val = now + word_of_int t, ref = Some a\<rparr> :: HeapItem"
  have "small_heap (h @ [?item])" "length h \<le> npos" using ok(3) by (auto simp: small_heap_def npos_def)
  from heap_upsert_insert [OF ok(1,2) this, of a npos] np ok(4)
  have "repaired (h @ [?item]) r (heap_upsert h r npos ?item)" by simp
  moreover have "\<forall>x. ref x \<noteq> Some a \<longrightarrow> x \<in> set (h @ [?item]) \<longleftrightarrow> x \<in> set h" by auto
  ultimately obtain h' r' where
    "heap_upsert h r npos ?item = Some (h', r')" "deadline_set h r a (Some (now + word_of_int t)) h' r'"
    using deadline_upserted [of "h @ [?item]" r h npos "now + word_of_int t" a] by auto
  with pos np sv show ?thesis
    by (intro exI [of _ h'] exI [of _ r']) (auto simp: entry_set_ttl_def)
qed

lemma entry_set_ttl_heap:
  assumes "heap_ok h" "refs_ok h r" "length h \<le> 31" "a \<notin> cells h \<longrightarrow> r a = Some npos" "ttls sv = h" "idxs sv = r"
  shows "\<exists>h' r'. entry_set_ttl sv now a t = Some (sv\<lparr>ttls := h', idxs := r'\<rparr>)
    \<and> deadline_set h r a (if t < 0 then None else Some (now + word_of_int t)) h' r'"
  using entry_set_ttl_present [of h r a sv now t] entry_set_ttl_absent [of h r a sv now t] assms
  by (cases "a \<in> cells h") auto

lemma entry_set_ttl_ok:
  assumes inv: "sv_inv sv N T" and abs: "abs_ok sv N T A" and a: "a \<in> N"
    and d: "d = (if t < 0 then None else Some (now + word_of_int t))"
  shows "\<exists>h r. entry_set_ttl sv now a t = Some (sv\<lparr>ttls := h, idxs := r\<rparr>)
    \<and> sv_inv (sv\<lparr>ttls := h, idxs := r\<rparr>) N T
    \<and> abs_ok (sv\<lparr>ttls := h, idxs := r\<rparr>) N T (A(key_of sv a \<mapsto> (aent sv T a)\<lparr>a_ttl := d\<rparr>))"
proof -
  note D = sv_invD [OF inv]
  have ok: "heap_ok (ttls sv)" "refs_ok (ttls sv) (idxs sv)" "a \<notin> cells (ttls sv) \<longrightarrow> idxs sv a = Some npos"
    and cN: "cells (ttls sv) \<subseteq> N"
    using D(5) a by (auto simp: ttl_ok_def)
  have "length (ttls sv) \<le> 31" using length_cells [OF ok(2)] card_mono [OF D(7) cN] D(6) by simp
  from entry_set_ttl_heap [OF ok(1,2) this ok(3) refl refl, of now t] obtain h r where
    "entry_set_ttl sv now a t = Some (sv\<lparr>ttls := h, idxs := r\<rparr>)" and s: "deadline_set (ttls sv) (idxs sv) a d h r"
    unfolding d by blast
  with modify_ttl [OF inv abs a, of h r d] show ?thesis by (auto simp: deadline_set_def)
qed

section \<open>Deleting an entry\<close>

text \<open>Forgetting entry \<open>a\<close>, once its deadline is gone and its memory has been released.\<close>

lemma remove_entry:
  assumes inv: "sv_inv sv N T" and abs: "abs_ok sv N T A" and a: "a \<in> N" and dl: "a \<notin> cells (ttls sv)"
    and hm: "hm_small h d (N - {a})" "\<forall>x \<in> N - {a}. hash_of h x = hash_of (shns sv) x"
    and fr: "zframe (smem sv) m' (N \<union> set_tree (T a))" and mh: "\<forall>x \<in> N - {a}. hns m' x = h x"
  defines "sv' \<equiv> sv\<lparr>smem := m', ents := (ents sv)(a := None), idxs := (idxs sv)(a := None), db := d\<rparr>"
  shows "sv_inv sv' (N - {a}) T \<and> abs_ok sv' (N - {a}) T (A(key_of sv a := None))"
proof
  note D = sv_invD [OF inv]
  have apart: "set_tree (T b) \<inter> (N \<union> set_tree (T a)) = {}" if "b \<in> N" "b \<noteq> a" for b
    using tree_apart [OF inv that(1)] D(4) [OF that(1) a that(2)] by (auto simp: owned_def)
  have keys: "key_of sv' b = key_of sv b" if "b \<noteq> a" for b using that by (simp add: key_of_def sv'_def)
  have ent: "entry_ok sv' T b" if b: "b \<in> N - {a}" for b
  proof -
    have "zset_ok m' z (T b)" if "zset_ok (smem sv) z (T b)" for z
      using zset_ok_frame(1) [OF that fr] apart b by auto
    moreover have "hash_of (hns m') b = hash_of (shns sv) b"
      using mh hm(2) b by (simp add: hash_of_def)
    moreover have "brk (smem sv) \<le> brk m'" using fr by (simp add: zframe_def)
    ultimately show ?thesis using D(2) [of b] b by (auto simp: entry_ok_def sv'_def)
  qed
  have small: "hm_small (shns sv') (db sv') (N - {a})"
    by (rule hm_small_cong [of h]) (use hm(1) mh in \<open>auto simp: sv'_def\<close>)
  have "refs_ok (ttls sv) ((idxs sv)(a := None))"
    using D(5) refs_ok_clear [OF dl] by (simp add: ttl_ok_def)
  then have "ttl_ok sv' (N - {a})" using D(5) dl by (auto simp: ttl_ok_def sv'_def)
  with small ent D(3,4) keys show "sv_inv sv' (N - {a}) T"
    by (auto simp: sv_inv_def inj_on_def)
  have ae: "aent sv' T b = aent sv T b" if b: "b \<in> N - {a}" for b
    using zset_ok_frame(2) [OF _ fr, of _ "T b"] apart b D(2) [of b]
    by (auto simp: aent_def sv'_def entry_ok_def)
  have ne: "key_of sv b \<noteq> key_of sv a" if "b \<in> N - {a}" for b
    using inj_onD [OF D(3), of b a] that a by auto
  have "dom (A(key_of sv a := None)) = key_of sv' ` (N - {a})"
    using abs ne keys a by (auto simp: abs_ok_def image_iff)
  then show "abs_ok sv' (N - {a}) T (A(key_of sv a := None))"
    using abs ae ne keys by (auto simp: abs_ok_def)
qed

lemma entry_set_ttl_local:
  "entry_set_ttl (sv\<lparr>smem := m, db := d\<rparr>) now a t
    = map_option (\<lambda>s. s\<lparr>smem := m, db := d\<rparr>) (entry_set_ttl sv now a t)"
  by (auto simp: entry_set_ttl_def Let_def split: bind_splits)

lemma entry_del_ok:
  assumes inv: "sv_inv sv N T" and abs: "abs_ok sv N T A" and a: "a \<in> N"
    and hm: "hm_small h d (N - {a})" "moved (shns sv) h N"
  shows "\<exists>sv'. entry_del (sv\<lparr>smem := (smem sv)\<lparr>hns := h\<rparr>, db := d\<rparr>) now a = Some sv'
    \<and> sv_inv sv' (N - {a}) T \<and> abs_ok sv' (N - {a}) T (A(key_of sv a := None)) \<and> pool sv' = pool sv"
proof -
  from entry_set_ttl_ok [OF inv abs a refl, of now "-1"] obtain tt r where
    t: "entry_set_ttl sv now a (-1) = Some (sv\<lparr>ttls := tt, idxs := r\<rparr>)"
      "sv_inv (sv\<lparr>ttls := tt, idxs := r\<rparr>) N T"
      "abs_ok (sv\<lparr>ttls := tt, idxs := r\<rparr>) N T (A(key_of sv a \<mapsto> (aent sv T a)\<lparr>a_ttl := None\<rparr>))"
    by auto
  let ?s = "sv\<lparr>ttls := tt, idxs := r\<rparr>" and ?m = "(smem sv)\<lparr>hns := h\<rparr>"
  have key: "key_of ?s a = key_of sv a" by (simp add: key_of_def)
  have "aent ?s T a = (aent sv T a)\<lparr>a_ttl := None\<rparr>" using t(3) a key by (auto simp: abs_ok_def)
  then have dl: "a \<notin> cells (ttls ?s)" using deadline_None [of tt a] by (simp add: aent_def Let_def)
  from sv_invD(2) [OF inv a] obtain e where
    e: "ents sv a = Some e" "zset_ok (smem sv) (ezset e) (T a)" "etype e \<noteq> TYPE_ZSET \<longrightarrow> T a = \<langle>\<rangle>"
    by (auto simp: entry_ok_def)
  have fr: "zframe (smem sv) ?m N" using hm(2) by (auto simp: zframe_def moved_def)
  from zset_ok_frame(1) [OF e(2) fr tree_apart [OF inv a]] have zok: "zset_ok ?m (ezset e) (T a)" .
  have sz: "hm_size (zmap (ezset e)) \<le> 31"
    using e(2) hm_size_ok by (auto simp: zset_ok_def hash_ok_def hm_small_def)
  obtain m1 where m1: "zframe ?m m1 (set_tree (T a))"
    "entry_del_sync (sv\<lparr>ttls := tt, idxs := r, smem := ?m, db := d\<rparr>) a
      = Some (?s\<lparr>smem := m1\<lparr>hns := (hns m1)(a := None)\<rparr>, ents := (ents sv)(a := None), idxs := r(a := None), db := d\<rparr>)"
  proof (cases "etype e = TYPE_ZSET")
    case True
    from zset_clear_ok [OF zok] obtain m1 where
      "zset_clear ?m (ezset e) = Some (m1, k_empty_zset)" "zframe ?m m1 (set_tree (T a))" by blast
    with True e(1) show ?thesis by (intro that [of m1]) (simp_all add: entry_del_sync_def)
  next
    case False
    with e(1) show ?thesis by (intro that [of ?m]) (simp_all add: entry_del_sync_def)
  qed
  let ?m2 = "m1\<lparr>hns := (hns m1)(a := None)\<rparr>"
  let ?s2 = "?s\<lparr>smem := ?m2, ents := (ents sv)(a := None), idxs := r(a := None), db := d\<rparr>"
  have "entry_del (sv\<lparr>smem := ?m, db := d\<rparr>) now a = Some ?s2"
    using entry_set_ttl_local [where sv = sv and m = ?m and d = d and now = now and a = a and t = "-1"] t(1) e(1) sz m1(2)
    by (auto simp: entry_del_def k_large_container_size_def Let_def)
  moreover have "zframe (smem ?s) ?m2 (N \<union> set_tree (T a))"
    using fr m1(1) a by (auto simp: zframe_def)
  moreover have "hns ?m2 x = h x" if "x \<in> N - {a}" for x
    using m1(1) that tree_apart [OF inv a] by (auto simp: zframe_def)
  moreover have "\<forall>x \<in> N - {a}. hash_of h x = hash_of (shns ?s) x" using hm(2) by (simp add: moved_def)
  ultimately show ?thesis
    using remove_entry [OF t(2,3) a dl hm(1), of ?m2] key by (intro exI [of _ ?s2]) auto
qed

end
