(* ===== verification/Refinement.thy ===== *)
theory Refinement
  imports Database
begin

text \<open>
  Each command handler implements its abstract counterpart, and so does \<open>run_request\<close>: it returns
  exactly when the specification does, appends exactly the serialization of the specified answer to
  the response buffer, and leaves a well-formed state that represents the specified database.
\<close>

section \<open>The refinement relation\<close>

definition implements :: "(server \<times> bytes) option \<Rightarrow> bytes \<Rightarrow> (adb \<times> resp) option \<Rightarrow> bool" where
  "implements res out spec \<longleftrightarrow>
     rel_option (\<lambda>(A, r) (sv, out'). server_ok sv A \<and> out' = out @ ser r) spec res"

lemma server_okI: "sv_inv sv N T \<Longrightarrow> abs_ok sv N T A \<Longrightarrow> pool sv = [] \<Longrightarrow> server_ok sv A"
  by (auto simp: server_ok_def)

lemma server_okE:
  assumes "server_ok sv A"
  obtains N T where "sv_inv sv N T" "abs_ok sv N T A" "pool sv = []"
  using assms by (auto simp: server_ok_def)

text \<open>The database holds the key, at entry \<open>a\<close>, or it does not.\<close>

lemma lookup_cases:
  assumes inv: "sv_inv sv N T" and abs: "abs_ok sv N T A"
  obtains (miss) "db_lookup sv k = Some (sv, None)" "A k = None"
  | (hit) a e where "db_lookup sv k = Some (sv, Some a)" "a \<in> N" "ents sv a = Some e" "ekey e = k"
      "A k = Some (aent sv T a)" "etype e = a_type (aent sv T a)" "evalue e = a_val (aent sv T a)"
      "zset_ok (smem sv) (ezset e) (T a)" "a_zs (aent sv T a) = zlist (smem sv) (T a)"
      "etype e \<noteq> TYPE_ZSET \<longrightarrow> T a = \<langle>\<rangle>" "length (evalue e) \<le> k_max_msg"
      "a_ttl (aent sv T a) = deadline (ttls sv) a"
proof -
  from db_lookup_ok [OF inv abs, of k] obtain p where
    p: "db_lookup sv k = Some (sv, p)"
      "case p of None \<Rightarrow> A k = None | Some a \<Rightarrow> a \<in> N \<and> key_of sv a = k \<and> A k = Some (aent sv T a)"
    by blast
  show thesis
  proof (cases p)
    case None
    with p miss show thesis by simp
  next
    case (Some a)
    with p(2) have a: "a \<in> N" "key_of sv a = k" "A k = Some (aent sv T a)" by auto
    from sv_invD(2) [OF inv a(1)] obtain e where
      e: "ents sv a = Some e" "zset_ok (smem sv) (ezset e) (T a)" "etype e \<noteq> TYPE_ZSET \<longrightarrow> T a = \<langle>\<rangle>"
        "length (evalue e) \<le> k_max_msg"
      by (auto simp: entry_ok_def)
    have ae: "aent sv T a = \<lparr>a_type = etype e, a_val = evalue e, a_zs = zlist (smem sv) (T a),
        a_ttl = deadline (ttls sv) a\<rparr>"
      using e(1) by (simp add: aent_def Let_def)
    have "ekey e = k" using a(2) e(1) by (simp add: key_of_def)
    show thesis
      by (rule hit [of a e]) (use p(1) Some a(1,3) e \<open>ekey e = k\<close> in \<open>simp_all only: ae aentry.simps\<close>)
  qed
qed

text \<open>An entry keeps its key while its string or its set changes.\<close>

lemma update_value:
  assumes inv: "sv_inv sv N T" "abs_ok sv N T A" and pl: "pool sv = []" and a: "a \<in> N"
    and e: "ents sv a = Some e" and v: "length v \<le> k_max_msg"
  shows "server_ok (sv\<lparr>ents := (ents sv)(a \<mapsto> e\<lparr>evalue := v\<rparr>)\<rparr>) (A(ekey e \<mapsto> (aent sv T a)\<lparr>a_val := v\<rparr>))"
proof -
  let ?e = "e\<lparr>evalue := v\<rparr>"
  have ok: "zset_ok (smem sv) (ezset ?e) (T a)" "ekey ?e = ekey e" "etype ?e \<noteq> TYPE_ZSET \<longrightarrow> T a = \<langle>\<rangle>"
    "length (evalue ?e) \<le> k_max_msg"
    using sv_invD(2) [OF inv(1) a] e v by (auto simp: entry_ok_def)
  note md = modify_entry [OF inv a e zframe_refl [of _ "{}"] empty_subsetI ok(1) subset_insertI ok(2-4)]
  have "(aent sv T a)\<lparr>a_type := etype ?e, a_val := evalue ?e, a_zs := zlist (smem sv) (T a)\<rparr>
      = (aent sv T a)\<lparr>a_val := v\<rparr>"
    using e by (simp add: aent_def Let_def)
  with md server_okI pl show ?thesis by (simp add: fun_upd_idem)
qed

lemma update_zset:
  assumes inv: "sv_inv sv N T" "abs_ok sv N T A" and pl: "pool sv = []" and a: "a \<in> N"
    and e: "ents sv a = Some e" "etype e = TYPE_ZSET" and z: "zset_ok m' z t"
    and fr: "zframe (smem sv) m' S" "S \<subseteq> insert (brk (smem sv)) (set_tree (T a))"
    and t: "set_tree t \<subseteq> insert (brk (smem sv)) (set_tree (T a))"
  shows "server_ok (sv\<lparr>smem := m', ents := (ents sv)(a \<mapsto> e\<lparr>ezset := z\<rparr>)\<rparr>)
    (A(ekey e \<mapsto> (aent sv T a)\<lparr>a_zs := zlist m' t\<rparr>))"
proof -
  let ?e = "e\<lparr>ezset := z\<rparr>"
  have ok: "zset_ok m' (ezset ?e) t" "ekey ?e = ekey e" "etype ?e \<noteq> TYPE_ZSET \<longrightarrow> t = \<langle>\<rangle>"
    "length (evalue ?e) \<le> k_max_msg"
    using sv_invD(2) [OF inv(1) a] e z by (auto simp: entry_ok_def)
  note md = modify_entry [OF inv a e(1) fr ok(1) t ok(2-4)]
  have "(aent sv T a)\<lparr>a_type := etype ?e, a_val := evalue ?e, a_zs := zlist m' t\<rparr>
      = (aent sv T a)\<lparr>a_zs := zlist m' t\<rparr>"
    using e by (simp add: aent_def Let_def)
  with md server_okI pl show ?thesis by simp
qed

lemma db_insert_pool: "db_insert sv k ty v = Some (sv', a) \<Longrightarrow> pool sv' = pool sv"
  by (auto simp: db_insert_def entry_new_def Let_def split: bind_splits)

lemma ttls_length:
  assumes "sv_inv sv N T"
  shows "length (ttls sv) \<le> 31"
proof -
  note D = sv_invD [OF assms]
  have "length (ttls sv) \<le> card N"
    using length_cells [of "ttls sv" "idxs sv"] D(5) card_mono [OF D(7)] by (simp add: ttl_ok_def)
  with D(6) show ?thesis by simp
qed

section \<open>Key commands\<close>

lemma get_key_ok:
  assumes "server_ok sv A" "2 \<le> length cmd"
  shows "implements (get_key sv cmd out) out (Some (A, spec_get (cmd ! 1) A))"
proof -
  from assms(1) obtain N T where inv: "sv_inv sv N T" "abs_ok sv N T A" by (rule server_okE)
  show ?thesis
    using inv
  proof (cases rule: lookup_cases [where k = "cmd ! 1"])
    case miss
    with assms show ?thesis by (simp add: implements_def get_key_def spec_get_def)
  next
    case (hit a e)
    with assms show ?thesis by (simp add: implements_def get_key_def spec_get_def)
  qed
qed

lemma set_key_ok:
  assumes "server_ok sv A" "3 \<le> length cmd" "length (cmd ! 2) \<le> k_max_msg"
  shows "implements (set_key sv cmd out) out (map_option (\<lambda>A'. (A', RNil)) (spec_set (cmd ! 1) (cmd ! 2) A))"
proof -
  let ?k = "cmd ! 1" and ?v = "cmd ! 2"
  from assms(1) obtain N T where inv: "sv_inv sv N T" "abs_ok sv N T A" and pl: "pool sv = []"
    by (rule server_okE)
  show ?thesis
    using inv
  proof (cases rule: lookup_cases [where k = ?k])
    case miss
    show ?thesis
    proof (cases "card N = 31")
      case True
      with db_insert_full [OF inv(1) True] miss assms(2) card_dom [OF inv] show ?thesis
        by (simp add: implements_def set_key_def spec_set_def full_def)
    next
      case False
      with sv_invD(6) [OF inv(1)] have "card N < 31" by simp
      from db_insert_room [OF inv miss(2) assms(3) this, of TYPE_INIT] obtain sv' a where
        i: "db_insert sv ?k TYPE_INIT ?v = Some (sv', a)" "sv_inv sv' (insert a N) (T(a := \<langle>\<rangle>))"
          "abs_ok sv' (insert a N) (T(a := \<langle>\<rangle>)) (A(?k \<mapsto> new_entry TYPE_INIT ?v []))"
        by blast
      from server_okI [OF i(2,3)] pl db_insert_pool [OF i(1)]
      have "server_ok sv' (A(?k \<mapsto> new_entry TYPE_INIT ?v []))" by simp
      with False i(1) miss assms(2) card_dom [OF inv] show ?thesis
        by (simp add: implements_def set_key_def spec_set_def full_def)
    qed
  next
    case (hit a e)
    from update_value [OF inv pl hit(2,3) assms(3)] hit(1,3-5) assms(2) show ?thesis
      by (simp add: implements_def set_key_def spec_set_def)
  qed
qed

lemma db_delete_ok:
  assumes inv: "sv_inv sv N T" and abs: "abs_ok sv N T A"
  shows "\<exists>h d p. hm_delete (shns sv) (db sv) (string_hash k) (entry_equals sv k) = Some (h, d, p)
    \<and> hm_small h d (N - set_option p) \<and> moved (shns sv) h N
    \<and> (case p of None \<Rightarrow> A k = None | Some a \<Rightarrow> a \<in> N \<and> key_of sv a = k)"
proof -
  from nm.delete_key [OF sv_invD(1) [OF inv] entry_keys [OF inv], of k] obtain h d p where
    d: "hm_delete (shns sv) (db sv) (string_hash k) (entry_equals sv k) = Some (h, d, p)"
      "hm_small h d (N - set_option p)" "moved (shns sv) h N"
      "case p of None \<Rightarrow> k \<notin> key_of sv ` N | Some a \<Rightarrow> a \<in> N \<and> key_of sv a = k"
    by blast
  moreover have "case p of None \<Rightarrow> A k = None | Some a \<Rightarrow> a \<in> N \<and> key_of sv a = k"
    using d(4) abs by (auto simp: abs_ok_def split: option.splits)
  ultimately show ?thesis by blast
qed

text \<open>Relinking the nodes of the entries changes nothing else.\<close>

lemma move_nodes:
  assumes inv: "sv_inv sv N T" and abs: "abs_ok sv N T A" and hm: "hm_small h d N" "moved (shns sv) h N"
  defines "sv' \<equiv> sv\<lparr>smem := (smem sv)\<lparr>hns := h\<rparr>, db := d\<rparr>"
  shows "sv_inv sv' N T" "abs_ok sv' N T A"
proof -
  note D = sv_invD [OF inv]
  have fr: "zframe (smem sv) (smem sv') N" using hm(2) by (auto simp: zframe_def moved_def sv'_def)
  have "entry_ok sv' T b" if b: "b \<in> N" for b
    using D(2) [OF b] zset_ok_frame(1) [OF _ fr tree_apart [OF inv b]] hm(2)
    by (auto simp: entry_ok_def sv'_def moved_def)
  moreover have keys: "key_of sv' = key_of sv" by (auto simp: key_of_def sv'_def)
  ultimately show "sv_inv sv' N T"
    using D(3,4,5) hm(1) by (auto simp: sv_inv_def sv'_def ttl_ok_def)
  have "aent sv' T b = aent sv T b" for b by (simp add: aent_def sv'_def)
  with keys abs show "abs_ok sv' N T A" by (simp add: abs_ok_def)
qed

lemma del_key_ok:
  assumes "server_ok sv A" "2 \<le> length cmd"
  shows "implements (del_key sv now cmd out) out (Some (spec_del (cmd ! 1) A))"
proof -
  let ?k = "cmd ! 1"
  from assms(1) obtain N T where inv: "sv_inv sv N T" "abs_ok sv N T A" and pl: "pool sv = []"
    by (rule server_okE)
  from db_delete_ok [OF inv, of ?k] obtain h d p where
    d: "hm_delete (shns sv) (db sv) (string_hash ?k) (entry_equals sv ?k) = Some (h, d, p)"
      "hm_small h d (N - set_option p)" "moved (shns sv) h N"
      "case p of None \<Rightarrow> A ?k = None | Some a \<Rightarrow> a \<in> N \<and> key_of sv a = ?k"
    by blast
  show ?thesis
  proof (cases p)
    case None
    with d have "A ?k = None" "hm_small h d N" by simp_all
    have "A(?k := None) = A" using \<open>A ?k = None\<close> by auto
    moreover have "server_ok (sv\<lparr>smem := (smem sv)\<lparr>hns := h\<rparr>, db := d\<rparr>) A"
      using server_okI [OF move_nodes [OF inv \<open>hm_small h d N\<close> d(3)]] pl by simp
    ultimately show ?thesis
      using d(1) None \<open>A ?k = None\<close> assms(2) by (simp add: implements_def del_key_def spec_del_def)
  next
    case (Some a)
    with d(4) have a: "a \<in> N" "key_of sv a = ?k" by auto
    have "A ?k \<noteq> None" using inv(2) a by (auto simp: abs_ok_def)
    from entry_del_ok [OF inv a(1), of h d now] d(2,3) Some obtain sv' where
      "entry_del (sv\<lparr>smem := (smem sv)\<lparr>hns := h\<rparr>, db := d\<rparr>) now a = Some sv'"
      "sv_inv sv' (N - {a}) T" "abs_ok sv' (N - {a}) T (A(key_of sv a := None))" "pool sv' = pool sv"
      by auto
    with server_okI [of sv'] pl d(1) Some a(2) \<open>A ?k \<noteq> None\<close> assms(2) show ?thesis
      by (auto simp: implements_def del_key_def spec_del_def)
  qed
qed

section \<open>Deadlines\<close>

lemma set_ttl_ok:
  assumes "server_ok sv A" "3 \<le> length cmd"
  shows "implements (set_ttl_ms sv now cmd out) out (Some (spec_pexpire now (cmd ! 1) (cmd ! 2) A))"
proof (cases "str2int (cmd ! 2)")
  case None
  with assms show ?thesis by (simp add: implements_def set_ttl_ms_def spec_pexpire_def)
next
  case (Some t)
  from assms(1) obtain N T where inv: "sv_inv sv N T" "abs_ok sv N T A" and pl: "pool sv = []"
    by (rule server_okE)
  show ?thesis
    using inv
  proof (cases rule: lookup_cases [where k = "cmd ! 1"])
    case miss
    with assms Some show ?thesis by (simp add: implements_def set_ttl_ms_def spec_pexpire_def)
  next
    case (hit a e)
    let ?d = "if t < 0 then None else Some (now + word_of_int t)"
    from entry_set_ttl_ok [OF inv hit(2), of ?d t now] obtain h r where
      s: "entry_set_ttl sv now a t = Some (sv\<lparr>ttls := h, idxs := r\<rparr>)"
        "sv_inv (sv\<lparr>ttls := h, idxs := r\<rparr>) N T"
        "abs_ok (sv\<lparr>ttls := h, idxs := r\<rparr>) N T (A(key_of sv a \<mapsto> (aent sv T a)\<lparr>a_ttl := ?d\<rparr>))"
      by blast
    have "key_of sv a = cmd ! 1" using hit(3,4) by (simp add: key_of_def)
    with server_okI [OF s(2,3)] pl
    have "server_ok (sv\<lparr>ttls := h, idxs := r\<rparr>) (A(cmd ! 1 \<mapsto> (aent sv T a)\<lparr>a_ttl := ?d\<rparr>))" by simp
    with assms(2) Some hit(1,5) s(1) show ?thesis
      by (simp add: implements_def set_ttl_ms_def spec_pexpire_def)
  qed
qed

lemma get_ttl_ok:
  assumes "server_ok sv A" "2 \<le> length cmd"
  shows "implements (get_ttl_ms sv now cmd out) out (Some (A, spec_pttl now (cmd ! 1) A))"
proof -
  from assms(1) obtain N T where inv: "sv_inv sv N T" "abs_ok sv N T A" by (rule server_okE)
  show ?thesis
    using inv
  proof (cases rule: lookup_cases [where k = "cmd ! 1"])
    case miss
    with assms show ?thesis by (simp add: implements_def get_ttl_ms_def spec_pttl_def)
  next
    case (hit a e)
    have ttl: "ttl_ok sv N" by (rule sv_invD(5) [OF inv(1)])
    then have refs: "refs_ok (ttls sv) (idxs sv)" by (simp add: ttl_ok_def)
    show ?thesis
    proof (cases "a \<in> cells (ttls sv)")
      case True
      from deadline_index [OF refs True] obtain i where
        i: "i < length (ttls sv)" "idxs sv a = Some i" "deadline (ttls sv) a = Some (val (ttls sv ! i))"
        by blast
      have "i \<noteq> npos" using i(1) ttls_length [OF inv(1)] by (simp add: npos_def)
      with hit(1,5,12) i assms show ?thesis by (simp add: implements_def get_ttl_ms_def spec_pttl_def)
    next
      case False
      with ttl hit(2) have "idxs sv a = Some npos" by (simp add: ttl_ok_def)
      moreover have "deadline (ttls sv) a = None" using False deadline_None by metis
      ultimately show ?thesis
        using hit(1,5,12) assms by (simp add: implements_def get_ttl_ms_def spec_pttl_def)
    qed
  qed
qed

section \<open>Listing the keys\<close>

lemma visit_keys:
  assumes "\<forall>a \<in> set xs. ents sv a \<noteq> None"
  shows "visit (cb_keys sv) xs out
    = Some (True, out @ concat (map (\<lambda>a. ser (RStr (key_of sv a @ lit '' : '' @ evalue (the (ents sv a))))) xs))"
  using assms
proof (induction xs arbitrary: out)
  case (Cons a xs)
  then obtain e where "ents sv a = Some e" by auto
  with Cons show ?case by (simp add: cb_keys_def key_of_def del: ser.simps)
qed simp

lemma all_keys_ok:
  assumes "server_ok sv A"
  shows "\<exists>ks. distinct ks \<and> set ks = dom A \<and> implements (all_keys sv cmd out) out (Some (A, spec_keys ks A))"
proof -
  from assms obtain N T where inv: "sv_inv sv N T" "abs_ok sv N T A" by (rule server_okE)
  have "hm_ok (shns sv) (db sv) N" using sv_invD(1) [OF inv(1)] by (simp add: hm_small_def)
  from hm_foreach_ok [OF this] obtain xs where
    xs: "distinct xs" "set xs = N" "length xs = hm_size (db sv)"
      "\<And>f s :: bytes. hm_foreach (shns sv) (db sv) f s = map_option snd (visit f xs s)"
    by metis
  let ?ks = "map (key_of sv) xs"
  have ent: "\<forall>a \<in> set xs. ents sv a \<noteq> None"
    using sv_invD(2) [OF inv(1)] by (fastforce simp: xs(2) entry_ok_def)
  have val: "a_val (the (A (key_of sv a))) = evalue (the (ents sv a))" if "a \<in> set xs" for a
    using inv(2) that by (simp add: abs_ok_def xs(2) aent_def Let_def)
  let ?vs = "map (\<lambda>k. RStr (k @ lit '' : '' @ a_val (the (A k)))) ?ks"
  have "concat (map (\<lambda>a. ser (RStr (key_of sv a @ lit '' : '' @ evalue (the (ents sv a))))) xs) = concat (map ser ?vs)"
    using val by (simp add: comp_def cong: map_cong)
  then have "all_keys sv cmd out = Some (sv, out_arr out (of_nat (length ?vs)) @ concat (map ser ?vs))"
    by (simp add: all_keys_def xs(3,4) visit_keys [OF ent] del: ser.simps)
  then have "implements (all_keys sv cmd out) out (Some (A, spec_keys ?ks A))"
    using assms by (simp only: implements_def spec_keys_def out_arr_ser option.rel_inject prod.case)
  moreover have "distinct ?ks" using xs(1,2) sv_invD(3) [OF inv(1)] by (simp add: distinct_map)
  moreover have "set ?ks = dom A" using inv(2) by (simp add: abs_ok_def xs(2))
  ultimately show ?thesis by blast
qed

section \<open>Sorted set commands\<close>

lemma zlist_size: "length (zlist m t) = size t"
  by (simp add: zv_list_def)

lemma zs_add_empty: "zs_add nm sc [] = [(sc, nm)]"
  by (simp add: zs_add_def zs_score_def zs_put_def)

text \<open>Inserting into the set of an entry that has one.\<close>

lemma entry_zadd:
  assumes inv: "sv_inv sv N T" "abs_ok sv N T A" and pl: "pool sv = []" and a: "a \<in> N"
    and e: "ents sv a = Some e" "etype e = TYPE_ZSET" and sc: "\<not> isnan sc"
  defines "xs \<equiv> zlist (smem sv) (T a)"
  shows "if zs_score nm xs = None \<and> length xs = full then zset_insert (smem sv) (ezset e) nm sc = None
    else \<exists>m z. zset_insert (smem sv) (ezset e) nm sc = Some (m, z, zs_score nm xs = None)
      \<and> server_ok (sv\<lparr>smem := m, ents := (ents sv)(a \<mapsto> e\<lparr>ezset := z\<rparr>)\<rparr>)
          (A(ekey e \<mapsto> (aent sv T a)\<lparr>a_zs := zs_add nm sc xs\<rparr>))"
proof (cases "zs_score nm xs = None \<and> length xs = full")
  case True
  have "zset_ok (smem sv) (ezset e) (T a)" using sv_invD(2) [OF inv(1) a] e by (auto simp: entry_ok_def)
  from zset_insert_ok(1) [OF this sc] True show ?thesis by (simp add: xs_def zlist_size full_def)
next
  case False
  have ok: "zset_ok (smem sv) (ezset e) (T a)" using sv_invD(2) [OF inv(1) a] e by (auto simp: entry_ok_def)
  then have "size (T a) \<le> 31" by (simp add: zset_ok_def tree_ok_def)
  with False have "zs_score nm xs \<noteq> None \<or> size (T a) < 31" by (auto simp: xs_def zlist_size full_def)
  from zset_insert_ok(2) [OF ok sc this [unfolded xs_def]] obtain m z t where
    i: "zset_insert (smem sv) (ezset e) nm sc = Some (m, z, zs_score nm xs = None)" "zset_ok m z t"
      "zlist m t = zs_add nm sc xs" "set_tree t \<subseteq> insert (brk (smem sv)) (set_tree (T a))"
      "zframe (smem sv) m (insert (brk (smem sv)) (set_tree (T a)))"
    unfolding xs_def by blast
  from update_zset [OF inv pl a e i(2,5) subset_refl i(4)] i(1,3) False show ?thesis by auto
qed

lemma zcmd_add_new:
  assumes inv: "sv_inv sv N T" "abs_ok sv N T A" and pl: "pool sv = []" and k: "A k = None"
    and room: "card N < 31" and nan: "\<not> isnan sc"
  shows "\<exists>sv' a m z sv2. db_insert sv k TYPE_ZSET [] = Some (sv', a) \<and> rd (ents sv') ezset a = Some k_empty_zset
    \<and> zset_insert (smem sv') k_empty_zset nm sc = Some (m, z, True)
    \<and> put_zset sv' (Zset_of a) m z = Some sv2 \<and> server_ok sv2 (A(k \<mapsto> new_entry TYPE_ZSET [] [(sc, nm)]))"
proof -
  define a where "a = brk (smem sv)"
  let ?e = "\<lparr>ekey = k, etype = TYPE_ZSET, evalue = [], ezset = k_empty_zset\<rparr>"
  from db_insert_room [OF inv k _ room, of "[]" TYPE_ZSET, folded a_def] obtain sv' where
    i: "db_insert sv k TYPE_ZSET [] = Some (sv', a)" "sv_inv sv' (insert a N) (T(a := \<langle>\<rangle>))"
      "abs_ok sv' (insert a N) (T(a := \<langle>\<rangle>)) (A(k \<mapsto> new_entry TYPE_ZSET [] []))" "ents sv' a = Some ?e"
    by auto
  have ae: "aent sv' (T(a := \<langle>\<rangle>)) a = new_entry TYPE_ZSET [] []"
    using i(3,4) by (auto simp: abs_ok_def key_of_def)
  have pl': "pool sv' = []" using pl db_insert_pool [OF i(1)] by simp
  from entry_zadd [OF i(2,3) pl' insertI1 i(4) _ nan, of nm] ae obtain m z where
    "zset_insert (smem sv') k_empty_zset nm sc = Some (m, z, True)"
    "server_ok (sv'\<lparr>smem := m, ents := (ents sv')(a \<mapsto> ?e\<lparr>ezset := z\<rparr>)\<rparr>)
      (A(k \<mapsto> new_entry TYPE_ZSET [] [(sc, nm)]))"
    by (auto simp: zs_add_empty new_entry_def full_def zv_list_def zs_score_def)
  with i(1,4) show ?thesis by (simp add: put_zset_def)
qed

lemma zcmd_add_ok:
  assumes "server_ok sv A" "4 \<le> length cmd"
  shows "implements (zcmd_add sv cmd out) out (spec_zadd (cmd ! 1) (cmd ! 2) (cmd ! 3) A)"
proof (cases "str2dbl (cmd ! 2)")
  case None
  with assms show ?thesis by (simp add: implements_def zcmd_add_def spec_zadd_def)
next
  case (Some sc)
  let ?k = "cmd ! 1" and ?nm = "cmd ! 3"
  have nan: "\<not> isnan sc" by (rule str2dbl_not_nan [OF Some])
  from assms(1) obtain N T where inv: "sv_inv sv N T" "abs_ok sv N T A" and pl: "pool sv = []"
    by (rule server_okE)
  show ?thesis
    using inv
  proof (cases rule: lookup_cases [where k = ?k])
    case miss
    show ?thesis
    proof (cases "card N = 31")
      case True
      with db_insert_full [OF inv(1) True] miss assms(2) card_dom [OF inv] Some show ?thesis
        by (simp add: implements_def zcmd_add_def spec_zadd_def full_def)
    next
      case False
      with sv_invD(6) [OF inv(1)] have "card N < 31" by simp
      from zcmd_add_new [OF inv pl miss(2) this nan, of ?nm] obtain sv' a m z sv2 where
        "db_insert sv ?k TYPE_ZSET [] = Some (sv', a)" "rd (ents sv') ezset a = Some k_empty_zset"
        "zset_insert (smem sv') k_empty_zset ?nm sc = Some (m, z, True)"
        "put_zset sv' (Zset_of a) m z = Some sv2" "server_ok sv2 (A(?k \<mapsto> new_entry TYPE_ZSET [] [(sc, ?nm)]))"
        by blast
      with False miss assms(2) card_dom [OF inv] Some show ?thesis
        by (simp add: implements_def zcmd_add_def spec_zadd_def full_def)
    qed
  next
    case (hit a e)
    show ?thesis
    proof (cases "etype e = TYPE_ZSET")
      case False
      with hit(1,3,5,6) assms Some show ?thesis
        by (simp add: implements_def zcmd_add_def spec_zadd_def bad_type_def)
    next
      case True
      from entry_zadd [OF inv pl hit(2,3) True nan, of ?nm] True hit(1,3-6,9) assms(2) Some show ?thesis
        by (auto simp: implements_def zcmd_add_def spec_zadd_def put_zset_def split: if_splits)
    qed
  qed
qed

lemma zs_rem_absent: "zs_score nm xs = None \<Longrightarrow> zs_rem nm xs = xs"
  by (auto simp: zs_score_def zs_rem_def find_None_iff intro: filter_True)

lemma smem_idle: "sv\<lparr>smem := smem sv\<rparr> = sv"
  by (cases sv) simp

text \<open>What \<open>expect_zset\<close> finds: no entry, an entry of another type, or a sorted set.\<close>

lemma expect_zset_cases:
  assumes inv: "sv_inv sv N T" and abs: "abs_ok sv N T A"
  obtains (miss) "expect_zset sv k = Some (sv, Some Empty_zset)" "A k = None"
  | (bad) ae where "expect_zset sv k = Some (sv, None)" "A k = Some ae" "a_type ae \<noteq> TYPE_ZSET"
  | (zset) a e where "expect_zset sv k = Some (sv, Some (Zset_of a))" "a \<in> N" "ents sv a = Some e"
      "ekey e = k" "etype e = TYPE_ZSET" "A k = Some (aent sv T a)" "a_type (aent sv T a) = TYPE_ZSET"
      "zset_ok (smem sv) (ezset e) (T a)" "a_zs (aent sv T a) = zlist (smem sv) (T a)"
  using assms
proof (cases rule: lookup_cases [where k = k])
  case miss
  with that(1) show thesis by (simp add: expect_zset_def)
next
  case (hit a e)
  show thesis
  proof (cases "etype e = TYPE_ZSET")
    case True
    from that(3) [of a e] hit True show thesis by (simp add: expect_zset_def)
  next
    case False
    from that(2) [of "aent sv T a"] hit False show thesis by (simp add: expect_zset_def)
  qed
qed

lemma zset_lookup_empty: "zset_lookup m k_empty_zset nm = Some (m, k_empty_zset, None)"
  by (simp add: zset_lookup_def k_empty_zset_def)

lemma zcmd_remove_ok:
  assumes "server_ok sv A" "3 \<le> length cmd"
  shows "implements (zcmd_remove sv cmd out) out (Some (spec_zrem (cmd ! 1) (cmd ! 2) A))"
proof -
  let ?nm = "cmd ! 2"
  from assms(1) obtain N T where inv: "sv_inv sv N T" "abs_ok sv N T A" and pl: "pool sv = []"
    by (rule server_okE)
  note code = implements_def zcmd_remove_def spec_zrem_def put_zset_def get_zset_def bad_type_def
  show ?thesis
    using inv
  proof (cases rule: expect_zset_cases [where k = "cmd ! 1"])
    case miss
    with assms show ?thesis by (simp add: code zset_lookup_empty smem_idle)
  next
    case (bad ae)
    with assms show ?thesis by (simp add: code)
  next
    case (zset a e)
    have tok: "tree_ok (smem sv) (root_p (ezset e)) (T a)" using zset(8) by (simp add: zset_ok_def)
    from zset_lookup_ok [OF zset(8), of ?nm] obtain p where
      p: "zset_lookup (smem sv) (ezset e) ?nm = Some (smem sv, ezset e, p)" "named (smem sv) (T a) ?nm p"
      by blast
    note sc = named_score [OF tok p(2)]
    show ?thesis
    proof (cases p)
      case None
      from update_zset [OF inv pl zset(2,3,5,8) zframe_refl [of _ "{}"] empty_subsetI subset_insertI]
        None p(1) sc zset assms(2) zs_rem_absent [of ?nm "zlist (smem sv) (T a)"]
      show ?thesis by (simp add: code)
    next
      case (Some x)
      with p(2) have x: "x \<in> set_tree (T a)" "snd (zval (smem sv) x) = ?nm" by (auto simp: named_def)
      from zset_delete_ok [OF zset(8) x(1)] obtain m z t where
        d: "zset_delete (smem sv) (ezset e) x = Some (m, z)" "zset_ok m z t"
          "zlist m t = zs_rem ?nm (zlist (smem sv) (T a))" "set_tree t = set_tree (T a) - {x}"
          "zframe (smem sv) m (set_tree (T a))"
        unfolding x(2) by blast
      have "set_tree t \<subseteq> insert (brk (smem sv)) (set_tree (T a))" using d(4) by auto
      from update_zset [OF inv pl zset(2,3,5) d(2,5) subset_insertI this] d(1,3) Some p(1) sc zset assms(2)
      show ?thesis by (simp add: code)
    qed
  qed
qed

lemma zcmd_score_ok:
  assumes "server_ok sv A" "3 \<le> length cmd"
  shows "implements (zcmd_score sv cmd out) out (Some (A, spec_zscore (cmd ! 1) (cmd ! 2) A))"
proof -
  let ?nm = "cmd ! 2"
  from assms(1) obtain N T where inv: "sv_inv sv N T" "abs_ok sv N T A" by (rule server_okE)
  note code = implements_def zcmd_score_def spec_zscore_def put_zset_def get_zset_def bad_type_def
  show ?thesis
    using inv
  proof (cases rule: expect_zset_cases [where k = "cmd ! 1"])
    case miss
    with assms show ?thesis by (simp add: code zset_lookup_empty smem_idle)
  next
    case (bad ae)
    with assms show ?thesis by (simp add: code)
  next
    case (zset a e)
    have tok: "tree_ok (smem sv) (root_p (ezset e)) (T a)" using zset(8) by (simp add: zset_ok_def)
    from zset_lookup_ok [OF zset(8), of ?nm] obtain p where
      p: "zset_lookup (smem sv) (ezset e) ?nm = Some (smem sv, ezset e, p)" "named (smem sv) (T a) ?nm p"
      by blast
    note sc = named_score [OF tok p(2)]
    have idle: "sv\<lparr>smem := smem sv, ents := (ents sv)(a \<mapsto> e)\<rparr> = sv"
      using zset(3) by (cases sv) (simp add: fun_upd_idem)
    show ?thesis
    proof (cases p)
      case None
      with p(1) sc zset assms idle show ?thesis by (simp add: code)
    next
      case (Some x)
      with p(2) have x: "x \<in> set_tree (T a)" by (auto simp: named_def)
      with tok obtain zn where zn: "zns (smem sv) x = Some zn" by (auto simp: tree_ok_def)
      with Some p(1) sc zset assms idle show ?thesis by (simp add: code zv_def)
    qed
  qed
qed

section \<open>Range queries\<close>

lemma target_in: "j < length xs \<Longrightarrow> target xs (int j) = Some (xs ! j)"
  by (simp add: target_def)

lemma target_out: "length xs \<le> j \<Longrightarrow> target xs (int j) = None"
  by (simp add: target_def)

lemma next_node:
  assumes "zset_ok m z t" "j < size t"
  shows "znode_offset m (target (inorder t) (int j)) 1 = Some (target (inorder t) (int (Suc j)))"
  using znode_offset_ok [OF assms(1), of "int j" 1] assms(2)
  by (simp add: target_in int32_of_id add.commute)

lemma half_step:
  assumes "n < limit"
  shows "(limit - n + 1) div 2 = Suc ((limit - (n + 2) + 1) div 2)"
proof (cases "limit = Suc n")
  case False
  with assms obtain k where "limit = n + 2 + k" by (metis Suc_lessI add_2_eq_Suc' le_add_diff_inverse less_eq_Suc_le)
  then show ?thesis by simp
qed simp

text \<open>The counting loop walks to the end of the set or to the limit, two elements a step.\<close>

lemma count_loop_at:
  assumes ok: "zset_ok m z t" and "n + 2 * (size t - j) < 2 ^ 64"
  shows "count_loop m limit (target (inorder t) (int j)) n = Some (n + 2 * min ((limit - n + 1) div 2) (size t - j))"
  using assms(2)
proof (induction "size t - j" arbitrary: j n)
  case 0
  then show ?case by (subst count_loop.simps) (simp add: target_out)
next
  case (Suc d)
  then have j: "j < size t" by simp
  then have some: "target (inorder t) (int j) = Some (inorder t ! j)" by (simp add: target_in)
  show ?case
  proof (cases "n < limit")
    case False
    then show ?thesis by (subst count_loop.simps) simp
  next
    case True
    have "wrap64 (n + 2) = n + 2" using Suc.prems Suc.hyps(2) by simp
    moreover have "count_loop m limit (target (inorder t) (int (Suc j))) (n + 2)
        = Some (n + 2 + 2 * min ((limit - (n + 2) + 1) div 2) (size t - Suc j))"
      using Suc.prems Suc.hyps(2) by (intro Suc.hyps(1)) simp_all
    moreover have "n + 2 + 2 * min ((limit - (n + 2) + 1) div 2) (size t - Suc j)
        = n + 2 * min ((limit - n + 1) div 2) (size t - j)"
      using half_step [OF True] Suc_diff_Suc [OF j] by (metis add.assoc add_2_eq_Suc min_Suc_Suc mult_2 mult_Suc_right)
    ultimately show ?thesis
      using True some next_node [OF ok j] by (subst count_loop.simps) simp
  qed
qed

abbreviation pair_items :: "zl \<Rightarrow> resp list" where
  "pair_items xs \<equiv> concat (map (\<lambda>(s, n). [RStr n, RDbl s]) xs)"

lemma emit_loop_at:
  assumes ok: "zset_ok m z t"
  shows "emit_loop m k (target (inorder t) (int j)) out
    = Some (out @ concat (map ser (pair_items (take k (drop j (zlist m t))))))"
proof (induction k arbitrary: j out)
  case (Suc k)
  show ?case
  proof (cases "j < size t")
    case False
    then show ?thesis by (simp add: target_out zlist_size)
  next
    case True
    let ?a = "inorder t ! j"
    have "?a \<in> set (inorder t)" using True by (simp del: set_inorder)
    with ok obtain zn where zn: "zns m ?a = Some zn" by (auto simp: zset_ok_def tree_ok_def)
    have "drop j (zlist m t) = (score zn, name zn) # drop (Suc j) (zlist m t)"
      using True zn by (subst Cons_nth_drop_Suc [symmetric]) (simp_all add: zv_list_def zv_def)
    then show ?thesis
      using next_node [OF ok True] True zn Suc.IH [of "Suc j"] by (simp add: target_in del: ser.simps)
  qed
qed simp

lemma length_pair_items: "length (pair_items xs) = 2 * length xs"
  by (induction xs) auto

lemma query_at:
  assumes ok: "zset_ok m z t" and nan: "\<not> isnan sc" and lim: "0 < limit"
  shows "do {
      znode \<leftarrow> zset_seek_greater_equal m z sc nm;
      if znode = None then Some (sv, out_arr out 0)
      else do {
        znode \<leftarrow> znode_offset m znode offset;
        if znode = None then Some (sv, out_arr out 0)
        else do {
          n \<leftarrow> count_loop m (nat limit) znode 0;
          resp \<leftarrow> emit_loop m (n div 2) znode (out_arr out (of_nat n));
          Some (sv, resp)
        }
      }
    } = Some (sv, out @ ser (RArr (pair_items (zs_query sc nm offset limit (zlist m t)))))"
proof -
  let ?xs = "zlist m t" and ?i = "int (zs_rank sc nm (zlist m t))"
  let ?j = "?i + int32_of offset"
  have sz: "size t \<le> 31" using ok by (simp add: zset_ok_def tree_ok_def)
  have empty: "out_arr out 0 = out @ ser (RArr (pair_items []))"
    using out_arr_ser [of out "[]"] by simp
  note seek = zset_seek_ok [OF ok nan, of nm] and off = znode_offset_ok [OF ok, of ?i offset]
  show ?thesis
  proof (cases "?i < int (size t) \<and> 0 \<le> ?j \<and> ?j < int (size t)")
    case False
    then have "zs_query sc nm offset limit ?xs = []"
      using lim by (auto simp: zs_query_def Let_def zlist_size)
    with False seek off empty show ?thesis by (auto simp: target_def simp del: ser.simps)
  next
    case True
    define j where "j = nat ?j"
    let ?ys = "take ((nat limit + 1) div 2) (drop j ?xs)"
    have tj: "target (inorder t) ?j = target (inorder t) (int j)" using True by (simp add: j_def)
    have cnt: "count_loop m (nat limit) (target (inorder t) (int j)) 0 = Some (2 * length ?ys)"
      using count_loop_at [OF ok, of 0 j "nat limit"] sz by (simp add: zlist_size min.commute)
    have "take (length ?ys) (drop j ?xs) = ?ys" by (metis append_take_drop_id append_eq_conv_conj)
    then have emit: "emit_loop m (length ?ys) (target (inorder t) (int j)) (out_arr out (of_nat (2 * length ?ys)))
        = Some (out @ ser (RArr (pair_items ?ys)))"
      by (simp only: emit_loop_at [OF ok] out_arr_ser flip: length_pair_items)
    have "zs_query sc nm offset limit ?xs = ?ys"
      using True lim by (simp add: zs_query_def Let_def zlist_size j_def)
    moreover have "target (inorder t) ?i \<noteq> None" "target (inorder t) (int j) \<noteq> None"
      using True by (simp_all add: target_def j_def)
    ultimately show ?thesis using seek off cnt emit tj by (auto simp del: ser.simps)
  qed
qed

lemma zcmd_query_ok:
  assumes "server_ok sv A" "6 \<le> length cmd"
  shows "implements (zcmd_query sv cmd out) out
    (Some (A, spec_zquery (cmd ! 1) (cmd ! 2) (cmd ! 3) (cmd ! 4) (cmd ! 5) A))"
proof (cases "str2dbl (cmd ! 2) = None \<or> str2int (cmd ! 4) = None \<or> str2int (cmd ! 5) = None")
  case True
  with assms show ?thesis
    by (auto simp: implements_def zcmd_query_def spec_zquery_def split: option.splits)
next
  case False
  then obtain sc offset limit where
    args: "str2dbl (cmd ! 2) = Some sc" "str2int (cmd ! 4) = Some offset" "str2int (cmd ! 5) = Some limit"
    by auto
  have nan: "\<not> isnan sc" by (rule str2dbl_not_nan [OF args(1)])
  from assms(1) obtain N T where inv: "sv_inv sv N T" "abs_ok sv N T A" by (rule server_okE)
  have arr0: "out_arr out 0 = out @ ser (RArr [])" using out_arr_ser [of out "[]"] by simp
  note code = implements_def zcmd_query_def spec_zquery_def get_zset_def args arr0
  show ?thesis
    using inv
  proof (cases rule: expect_zset_cases [where k = "cmd ! 1"])
    case miss
    with assms query_at [OF zset_ok_empty nan, of limit "smem sv" "cmd ! 3" sv out offset]
    show ?thesis by (auto simp: code zs_query_def zv_list_def simp del: ser.simps)
  next
    case (bad ae)
    with assms show ?thesis by (simp add: code bad_type_def)
  next
    case (zset a e)
    show ?thesis
    proof (cases "limit \<le> 0")
      case True
      then have "zs_query sc (cmd ! 3) offset limit (zlist (smem sv) (T a)) = []" by (simp add: zs_query_def)
      with True zset assms show ?thesis by (simp add: code del: ser.simps)
    next
      case False
      then have "0 < limit" by simp
      from query_at [OF zset(8) nan this, of "cmd ! 3" sv out offset] False zset assms
      show ?thesis by (simp add: code del: ser.simps)
    qed
  qed
qed

section \<open>The request\<close>

theorem run_request_implements:
  assumes ok: "server_ok sv A" and len: "\<forall>s \<in> set cmd. length s \<le> k_max_msg"
  shows "\<exists>ks. distinct ks \<and> set ks = dom A \<and> implements (run_request sv now cmd out) out (run_spec now ks cmd A)"
proof -
  from all_keys_ok [OF ok, of cmd out] obtain ks where
    ks: "distinct ks" "set ks = dom A" "implements (all_keys sv cmd out) out (Some (A, spec_keys ks A))"
    by blast
  have val: "length (cmd ! 2) \<le> k_max_msg" if "length cmd = 3" using len that by simp
  have simple: "implements (Some (sv, out @ ser r)) out (Some (A, r))" for r
    using ok by (simp add: implements_def)
  have "implements (run_request sv now cmd out) out (run_spec now ks cmd A)"
    using get_key_ok [OF ok, of cmd] set_key_ok [OF ok, of cmd] del_key_ok [OF ok, of cmd]
      set_ttl_ok [OF ok, of cmd] get_ttl_ok [OF ok, of cmd] zcmd_add_ok [OF ok, of cmd]
      zcmd_remove_ok [OF ok, of cmd] zcmd_score_ok [OF ok, of cmd] zcmd_query_ok [OF ok, of cmd] ks(3) val
    by (simp add: run_request_def run_spec_def is_cmd_def simple del: ser.simps)
  with ks(1,2) show ?thesis by blast
qed

text \<open>The empty database at start-up.\<close>

definition server0 :: server where
  "server0 = \<lparr>smem = \<lparr>avl = Map.empty, hns = Map.empty, zns = Map.empty, brk = 0\<rparr>,
     ents = Map.empty, idxs = Map.empty, db = HMap0, ttls = [], pool = []\<rparr>"

lemma server_ok_init: "server_ok server0 Map.empty"
proof -
  have "sv_inv server0 {} (\<lambda>_. \<langle>\<rangle>)"
    using hm_small_empty [of "Map.empty"]
    by (simp add: sv_inv_def server0_def ttl_ok_def heap_ok_def refs_ok_def cells_def)
  moreover have "abs_ok server0 {} (\<lambda>_. \<langle>\<rangle>) Map.empty" by (simp add: abs_ok_def)
  ultimately show ?thesis by (rule server_okI) (simp add: server0_def)
qed

text \<open>The database fills up to its limit.\<close>

lemma inj_small_keys: "n \<le> 256 \<Longrightarrow> inj_on (\<lambda>i. [of_nat i :: u8]) {..<n}"
  by (auto simp: inj_on_def of_nat_word_inj)

lemma server_fill:
  assumes "n \<le> full"
  shows "\<exists>sv A. server_ok sv A \<and> dom A = (\<lambda>i. [of_nat i :: u8]) ` {..<n}"
  using assms
proof (induction n)
  case 0
  show ?case using server_ok_init by auto
next
  case (Suc n)
  then obtain sv A where sv: "server_ok sv A" "dom A = (\<lambda>i. [of_nat i :: u8]) ` {..<n}" by auto
  have "card (dom A) = n" unfolding sv(2) using inj_small_keys [of n] Suc.prems by (simp add: card_image full_def)
  then have "spec_set [of_nat n] [] A \<noteq> None"
    using Suc.prems by (auto simp: spec_set_def split: option.splits)
  then obtain A' where A': "spec_set [of_nat n] [] A = Some A'" by blast
  from set_key_ok [OF sv(1), of "[[], [of_nat n], []]" "[]"] A' obtain sv' where "server_ok sv' A'"
    by (auto simp: implements_def option_rel_Some1)
  moreover have "dom A' = insert [of_nat n] (dom A)"
    using A' by (auto simp: spec_set_def split: option.splits if_splits)
  ultimately show ?case using sv(2) by (auto simp: lessThan_Suc)
qed

end
