(* ===== verification/Bounds.thy ===== *)
theory Bounds
  imports Refinement
begin

text \<open>
  Bounds kept by every request, proved on the abstract database: keys, values and member names come
  from requests, so none is longer than a message, and no table holds more than \<open>full\<close> items. The
  response to any request therefore stays below \<open>2 ^ 32\<close> bytes, far from the width of \<open>size_t\<close>.
\<close>

definition adb_ok :: "adb \<Rightarrow> bool" where
  "adb_ok A \<longleftrightarrow> finite (dom A) \<and> card (dom A) \<le> full
     \<and> (\<forall>k e. A k = Some e \<longrightarrow> length k \<le> k_max_msg \<and> length (a_val e) \<le> k_max_msg
          \<and> length (a_zs e) \<le> full \<and> (\<forall>p \<in> set (a_zs e). length (snd p) \<le> k_max_msg))"

lemma adb_ok_empty: "adb_ok Map.empty"
  by (simp add: adb_ok_def)

lemma adb_okD:
  assumes "adb_ok A" "A k = Some e"
  shows "length k \<le> k_max_msg" "length (a_val e) \<le> k_max_msg" "length (a_zs e) \<le> full"
    "p \<in> set (a_zs e) \<Longrightarrow> length (snd p) \<le> k_max_msg"
  using assms by (auto simp: adb_ok_def)

text \<open>Replacing an entry, adding one and removing one.\<close>

lemma adb_ok_upd:
  assumes "adb_ok A" "A k = Some e" "length (a_val e') \<le> k_max_msg" "length (a_zs e') \<le> full"
    "\<forall>p \<in> set (a_zs e'). length (snd p) \<le> k_max_msg"
  shows "adb_ok (A(k \<mapsto> e'))"
proof -
  have "dom (A(k \<mapsto> e')) = dom A" using assms(2) by auto
  with assms show ?thesis by (auto simp: adb_ok_def)
qed

lemma adb_ok_new:
  assumes "adb_ok A" "A k = None" "card (dom A) \<noteq> full" "length k \<le> k_max_msg"
    "length (a_val e') \<le> k_max_msg" "length (a_zs e') \<le> full" "\<forall>p \<in> set (a_zs e'). length (snd p) \<le> k_max_msg"
  shows "adb_ok (A(k \<mapsto> e'))"
proof -
  have "card (dom (A(k \<mapsto> e'))) = Suc (card (dom A))"
    using assms(1,2) by (simp add: adb_ok_def domIff)
  with assms show ?thesis by (auto simp: adb_ok_def)
qed

lemma adb_ok_del: "adb_ok A \<Longrightarrow> adb_ok (A(k := None))"
  using card_mono [of "dom A" "dom A - {k}"] by (auto simp: adb_ok_def)

lemma adb_ok_zs:
  assumes "adb_ok A" "A k = Some e" "length xs \<le> full"
    "\<forall>p \<in> set xs. p \<in> set (a_zs e) \<or> length (snd p) \<le> k_max_msg"
  shows "adb_ok (A(k \<mapsto> e\<lparr>a_zs := xs\<rparr>))"
  using assms adb_okD [OF assms(1,2)] by (intro adb_ok_upd [OF assms(1,2)]) auto

lemma length_zs_put: "length (zs_put p xs) = Suc (length xs)"
  using arg_cong [OF takeWhile_dropWhile_id [of "\<lambda>q. \<not> zkey p < zkey q" xs], of length]
  by (simp add: zs_put_def del: takeWhile_dropWhile_id)

lemma zs_score_Some: "zs_score nm xs = Some s \<Longrightarrow> (s, nm) \<in> set xs"
  by (auto simp: zs_score_def find_Some_iff) (metis nth_mem prod.exhaust_sel snd_conv)

lemma length_zs_rem_less: "zs_score nm xs = Some s \<Longrightarrow> length (zs_rem nm xs) < length xs"
  using length_filter_less [of "(s, nm)" xs "\<lambda>q. snd q \<noteq> nm"] zs_score_Some [of nm xs s]
  by (simp add: zs_rem_def)

lemma zs_add_bounds:
  "length (zs_add nm sc xs) \<le> (if zs_score nm xs = None then Suc (length xs) else length xs)"
  "p \<in> set (zs_add nm sc xs) \<Longrightarrow> p \<in> set xs \<or> snd p = nm"
  using length_zs_rem_less [of nm xs]
  by (auto simp: zs_add_def length_zs_put set_zs_put zs_rem_def split: option.splits if_splits)

section \<open>Requests keep the bounds\<close>

lemma spec_set_bounds:
  assumes "adb_ok A" "length k \<le> k_max_msg" "length v \<le> k_max_msg" "spec_set k v A = Some A'"
  shows "adb_ok A'"
proof (cases "A k")
  case None
  with assms(2-4) show ?thesis
    using adb_ok_new [OF assms(1) None] by (auto simp: spec_set_def new_entry_def split: if_splits)
next
  case (Some e)
  with assms(3,4) adb_okD [OF assms(1) Some] show ?thesis
    using adb_ok_upd [OF assms(1) Some, of "e\<lparr>a_val := v\<rparr>"] by (auto simp: spec_set_def)
qed

lemma spec_zadd_bounds:
  assumes ok: "adb_ok A" and k: "length k \<le> k_max_msg" and nm: "length nm \<le> k_max_msg"
    and res: "spec_zadd k arg nm A = Some (A', r)"
  shows "adb_ok A' \<and> length (ser r) \<le> 64"
proof (cases "str2dbl arg")
  case None
  with ok res show ?thesis by (auto simp: spec_zadd_def lit_def)
next
  case (Some sc)
  show ?thesis
  proof (cases "A k")
    case None
    with Some res have A': "A' = A(k \<mapsto> new_entry TYPE_ZSET [] [(sc, nm)])" "r = RInt 1" "card (dom A) \<noteq> full"
      by (auto simp: spec_zadd_def split: if_splits)
    have "adb_ok A'"
      unfolding A' using A'(3) nm k by (intro adb_ok_new [OF ok None]) (auto simp: new_entry_def full_def)
    with A' show ?thesis by simp
  next
    case e: (Some e)
    show ?thesis
    proof (cases "a_type e = TYPE_ZSET")
      case False
      with Some e ok res show ?thesis by (auto simp: spec_zadd_def bad_type_def lit_def)
    next
      case True
      with Some e res have A': "A' = A(k \<mapsto> e\<lparr>a_zs := zs_add nm sc (a_zs e)\<rparr>)"
        "\<not> (zs_score nm (a_zs e) = None \<and> length (a_zs e) = full)" "length (ser r) \<le> 64"
        by (auto simp: spec_zadd_def split: if_splits)
      have "length (zs_add nm sc (a_zs e)) \<le> full"
        using zs_add_bounds(1) [of nm sc "a_zs e"] A'(2) adb_okD(3) [OF ok e] by (auto split: if_splits)
      moreover have "\<forall>p \<in> set (zs_add nm sc (a_zs e)). p \<in> set (a_zs e) \<or> length (snd p) \<le> k_max_msg"
        using zs_add_bounds(2) nm by blast
      ultimately have "adb_ok A'" unfolding A' by (rule adb_ok_zs [OF ok e])
      with A' show ?thesis by simp
    qed
  qed
qed

lemma spec_zrem_bounds: "adb_ok A \<Longrightarrow> adb_ok (fst (spec_zrem k nm A)) \<and> length (ser (snd (spec_zrem k nm A))) \<le> 64"
proof (cases "A k")
  case (Some e)
  assume ok: "adb_ok A"
  have "length (zs_rem nm (a_zs e)) \<le> full"
    using adb_okD(3) [OF ok Some] length_filter_le [of "\<lambda>q. snd q \<noteq> nm" "a_zs e"]
    unfolding zs_rem_def by (rule order.trans [rotated])
  then have "adb_ok (A(k \<mapsto> e\<lparr>a_zs := zs_rem nm (a_zs e)\<rparr>))"
    by (rule adb_ok_zs [OF ok Some]) (simp add: zs_rem_def)
  with ok Some show ?thesis by (auto simp: spec_zrem_def bad_type_def lit_def)
qed (simp add: spec_zrem_def)

lemma spec_pexpire_bounds:
  "adb_ok A \<Longrightarrow> adb_ok (fst (spec_pexpire now k arg A)) \<and> length (ser (snd (spec_pexpire now k arg A))) \<le> 64"
  using adb_ok_upd [of A k] adb_okD [of A k]
  by (auto simp: spec_pexpire_def lit_def split: option.splits)

lemma length_concat_le: "\<forall>x \<in> set xs. length (f x) \<le> b \<Longrightarrow> length (concat (map f xs)) \<le> length xs * b"
  by (induction xs) (auto simp: add_mono)

lemma spec_keys_bounds:
  assumes ok: "adb_ok A" and ks: "distinct ks" "set ks = dom A"
  shows "length (ser (spec_keys ks A)) < 2 ^ 32"
proof -
  let ?f = "\<lambda>k. ser (RStr (k @ lit '' : '' @ a_val (the (A k))))"
  have "length (?f k) \<le> 2 * k_max_msg + 8" if "k \<in> set ks" for k
  proof -
    from that ks(2) obtain e where "A k = Some e" by auto
    with adb_okD(1,2) [OF ok this] show ?thesis by (simp add: lit_def)
  qed
  then have "length (concat (map ?f ks)) \<le> length ks * (2 * k_max_msg + 8)"
    by (intro length_concat_le) blast
  moreover have "length ks \<le> 31"
    using distinct_card [OF ks(1)] ok ks(2) by (simp add: adb_ok_def full_def)
  then have "length ks * (2 * k_max_msg + 8) \<le> 31 * (2 * k_max_msg + 8)" by (rule mult_le_mono1)
  ultimately show ?thesis by (simp add: spec_keys_def comp_def k_max_msg_def)
qed

lemma length_pairs:
  "\<forall>p \<in> set xs. length (snd p) \<le> b \<Longrightarrow>
   length (concat (map ser (pair_items xs))) \<le> length xs * (b + 14)"
  by (induction xs) (auto simp: split_beta)

lemma spec_zquery_bounds:
  assumes ok: "adb_ok A"
  shows "length (ser (spec_zquery k arg nm off lim A)) < 2 ^ 32"
proof (cases "A k")
  case None
  then show ?thesis by (auto simp: spec_zquery_def lit_def split: option.splits)
next
  case (Some e)
  have "length (concat (map ser (pair_items (zs_query sc nm i j (a_zs e))))) \<le> 31 * (k_max_msg + 14)" for sc i j
  proof -
    let ?q = "zs_query sc nm i j (a_zs e)"
    have "set ?q \<subseteq> set (a_zs e)" "length ?q \<le> length (a_zs e)"
      by (auto simp: zs_query_def Let_def dest: in_set_takeD in_set_dropD)
    with adb_okD(3,4) [OF ok Some] have "length ?q \<le> 31" "\<forall>p \<in> set ?q. length (snd p) \<le> k_max_msg"
      by (auto simp: full_def)
    with length_pairs [of ?q k_max_msg] mult_le_mono1 [of "length ?q" 31 "k_max_msg + 14"]
    show ?thesis by linarith
  qed
  then have "length (concat (map ser (pair_items (zs_query sc nm i j (a_zs e))))) + 5 < 2 ^ 32" for sc i j
    by (rule le_less_trans [OF add_le_mono1]) (simp add: k_max_msg_def)
  then have "length (ser (RArr (pair_items (zs_query sc nm i j (a_zs e))))) < 2 ^ 32" for sc i j
    by simp
  with Some show ?thesis
    by (auto simp: spec_zquery_def bad_type_def lit_def Let_def simp del: ser.simps(7) split: option.splits)
qed

text \<open>Every request keeps the bounds, and its answer is bounded.\<close>

lemma run_spec_bounds:
  assumes ok: "adb_ok A" and len: "\<forall>s \<in> set cmd. length s \<le> k_max_msg"
    and ks: "distinct ks" "set ks = dom A" and res: "run_spec now ks cmd A = Some (A', r)"
  shows "adb_ok A' \<and> length (ser r) < 2 ^ 32"
proof -
  have nth: "i < length cmd \<Longrightarrow> length (cmd ! i) \<le> k_max_msg" for i using len by simp
  have get: "length (ser (spec_get k A)) < 2 ^ 32" for k
    using adb_okD(2) [OF ok, of k] by (auto simp: spec_get_def k_max_msg_def split: option.splits)
  have small: "length (ser (spec_zscore k nm A)) < 2 ^ 32" "length (ser (spec_pttl now k A)) < 2 ^ 32"
    "length (ser (snd (spec_del k A))) < 2 ^ 32" for k nm
    by (auto simp: spec_zscore_def spec_pttl_def spec_del_def bad_type_def lit_def split: option.splits)
  have z: "adb_ok A' \<and> length (ser r) \<le> 64" if "is_cmd cmd 4 ''zadd''" "spec_zadd (cmd ! 1) (cmd ! 2) (cmd ! 3) A = Some (A', r)"
    using spec_zadd_bounds [OF ok nth nth that(2)] that(1) by (simp add: is_cmd_def)
  have s: "adb_ok A''" if "is_cmd cmd 3 ''set''" "spec_set (cmd ! 1) (cmd ! 2) A = Some A''" for A''
    using spec_set_bounds [OF ok nth nth that(2)] that(1) by (simp add: is_cmd_def)
  show ?thesis
    using res ok get small spec_zrem_bounds [OF ok, of "cmd ! 1" "cmd ! 2"]
      spec_pexpire_bounds [OF ok, of now "cmd ! 1" "cmd ! 2"] spec_keys_bounds [OF ok ks]
      spec_zquery_bounds [OF ok] adb_ok_del [OF ok] z s
    by (auto simp: run_spec_def spec_del_def lit_def split: if_splits)
qed

end
