(* ===== verification/Protocol.thy ===== *)
theory Protocol
  imports Buffer_IO
begin

text \<open>
  The request protocol: \<open>net/protocol.h\<close> and \<open>net/protocol.cpp\<close> (the server's side), the
  request half of \<open>client.cpp\<close>, and the blocking transfer loops \<open>read_all\<close> and \<open>write_all\<close>
  of \<open>net/netio.h\<close>.

  The pair of pointers \<open>cursor\<close> and \<open>end\<close> is the list of bytes between them. A helper with a
  \<open>bool\<close> result and out-parameters is an option: \<open>None\<close> is its \<open>false\<close>. The contract between
  the two sides is the locale \<open>argv_codec\<close>, interpreted on the client's encoder and the
  server's parser.
\<close>

section \<open>Server side (net/protocol.h, net/protocol.cpp)\<close>

definition read_header :: "bytes \<Rightarrow> (u32 \<times> bytes) option" where
  "read_header cursor =
     (if length cursor < 4 then None
      else Some (u32_of_bytes (take 4 cursor), drop 4 cursor))"

definition read_string :: "bytes \<Rightarrow> u32 \<Rightarrow> (bytes \<times> bytes) option" where
  "read_string cursor len =
     (if length cursor < unat len then None
      else Some (take (unat len) cursor, drop (unat len) cursor))"

text \<open>
  The loop of \<open>parse_request\<close>: the status, the cursor and the vector \<open>cmd\<close> when it ends. An
  empty string is pushed before its bytes are read, so a failed read leaves it in \<open>cmd\<close>.
\<close>

function parse_args :: "nat \<Rightarrow> bytes \<Rightarrow> bytes list \<Rightarrow> int \<times> bytes \<times> bytes list" where
  "parse_args num_args cursor cmd =
     (if length cmd < num_args then
        (case read_header cursor of
           None \<Rightarrow> (-1, cursor, cmd)
         | Some (len, cursor1) \<Rightarrow>
             (let cmd1 = cmd @ [[]] in
              case read_string cursor1 len of
                None \<Rightarrow> (-1, cursor1, cmd1)
              | Some (s, cursor2) \<Rightarrow> parse_args num_args cursor2 (butlast cmd1 @ [s])))
      else (0, cursor, cmd))"
  by pat_completeness auto
termination
  by (relation "measure (\<lambda>(num_args, cursor, cmd). num_args - length cmd)") auto

definition parse_request :: "bytes \<Rightarrow> int \<times> bytes list" where
  "parse_request data =
     (case read_header data of
        None \<Rightarrow> (-1, [])
      | Some (num_args, cursor) \<Rightarrow>
          (if unat num_args > k_max_args then (-1, [])
           else (case parse_args (unat num_args) cursor [] of
                   (status, cursor', cmd) \<Rightarrow>
                     if status < 0 then (-1, cmd)
                     else if cursor' \<noteq> [] then (-1, cmd)
                     else (0, cmd))))"

record Response =
  status :: u32
  data :: bytes

definition generate_response :: "Response \<Rightarrow> bytes \<Rightarrow> bytes" where
  "generate_response resp out =
     (let resp_len = 4 + (of_nat (length (data resp)) :: u32);
          out = append_buffer out (u32_bytes resp_len);
          out = append_buffer out (u32_bytes (status resp))
      in append_buffer out (data resp))"

declare parse_args.simps [simp del]

lemmas protocol_defs [eval_simps] = read_header_def read_string_def parse_request_def
  parse_args.simps generate_response_def

section \<open>Client side (client.cpp)\<close>

definition append_arg :: "bytes \<Rightarrow> bytes \<Rightarrow> bytes" where
  "append_arg arg payload =
     (let arg_len = (of_nat (length arg) :: u32);
          payload = append_buffer payload (u32_bytes arg_len)
      in if arg_len \<noteq> 0 then append_buffer payload (take (unat arg_len) arg) else payload)"

definition request_payload :: "bytes list \<Rightarrow> bytes" where
  "request_payload cmd =
     (let num_args = (of_nat (length cmd) :: u32)
      in fold append_arg cmd (append_buffer [] (u32_bytes num_args)))"

definition request_frame :: "bytes list \<Rightarrow> bytes option" where
  "request_frame cmd =
     (let payload = request_payload cmd;
          payload_len = (of_nat (length payload) :: u32)
      in if unat payload_len > k_max_msg then None
         else Some (append_buffer (append_buffer [] (u32_bytes payload_len)) payload))"

lemmas request_defs [eval_simps] = append_arg_def request_payload_def request_frame_def

section \<open>Blocking transfers (net/netio.h)\<close>

text \<open>
  The kernel's side of a transfer is a script: the results of the successive system calls. A
  \<open>write\<close> returns the number of bytes it took or an error (zero or less); a \<open>read\<close> delivers
  bytes, or end of file, or an error with \<open>errno\<close> set. A call beyond the end of the script blocks,
  so the model does not return there either. \<open>read_all\<close> returns the status, the bytes read and
  whether a failed call has set \<open>errno\<close>.
\<close>

datatype read_result = Read_data bytes | Read_eof | Read_again | Read_error

fun write_all :: "int list \<Rightarrow> bytes \<Rightarrow> bytes \<Rightarrow> (int \<times> bytes) option" where
  "write_all rvs [] sent = Some (0, sent)"
| "write_all [] (b # buf) sent = None"
| "write_all (rv # rvs) (b # buf) sent =
     (if rv \<le> 0 then Some (-1, sent)
      else do {
        assertion (nat rv \<le> length (b # buf));
        write_all rvs (drop (nat rv) (b # buf)) (sent @ take (nat rv) (b # buf))
      })"

fun read_all ::
    "read_result list \<Rightarrow> nat \<Rightarrow> bytes \<Rightarrow> (int \<times> bytes \<times> bool \<times> read_result list) option" where
  "read_all rds 0 buf = Some (0, buf, False, rds)"
| "read_all [] (Suc n) buf = None"
| "read_all (rv # rds) (Suc n) buf =
     (case rv of
        Read_data chunk \<Rightarrow>
          if chunk = [] then Some (-1, buf, False, rds)
          else do {
            assertion (length chunk \<le> Suc n);
            read_all rds (Suc n - length chunk) (buf @ chunk)
          }
      | Read_eof \<Rightarrow> Some (-1, buf, False, rds)
      | Read_again \<Rightarrow> Some (-1, buf, True, rds)
      | Read_error \<Rightarrow> Some (-1, buf, True, rds))"

text \<open>\<open>send_request\<close>: the status and the bytes handed to the kernel.\<close>

definition send_request :: "int list \<Rightarrow> bytes list \<Rightarrow> (int \<times> bytes) option" where
  "send_request rvs cmd =
     (case request_frame cmd of
        None \<Rightarrow> Some (-1, [])
      | Some frame \<Rightarrow> write_all rvs frame [])"

declare send_request_def [eval_simps]

section \<open>The encoding as a function\<close>

definition arg_bytes :: "bytes \<Rightarrow> bytes" where
  "arg_bytes arg = u32_bytes (of_nat (length arg)) @ arg"

definition argv_ok :: "bytes list \<Rightarrow> bool" where
  "argv_ok cmd \<longleftrightarrow> length cmd \<le> k_max_args \<and> (\<forall>a \<in> set cmd. length a < 2 ^ 32)"

lemma u32_of_nat [simp]: "n < 2 ^ 32 \<Longrightarrow> unat (of_nat n :: u32) = n"
  by (simp add: of_nat_inverse)

lemma append_arg_eq: "length arg < 2 ^ 32 \<Longrightarrow> append_arg arg payload = payload @ arg_bytes arg"
  by (auto simp: append_arg_def arg_bytes_def append_buffer_def Let_def dest: arg_cong [of _ _ unat])

lemma fold_append_arg:
  "\<forall>a \<in> set cmd. length a < 2 ^ 32 \<Longrightarrow> fold append_arg cmd p = p @ concat (map arg_bytes cmd)"
  by (induction cmd arbitrary: p) (auto simp: append_arg_eq)

lemma request_payload_eq:
  "argv_ok cmd \<Longrightarrow>
   request_payload cmd = u32_bytes (of_nat (length cmd)) @ concat (map arg_bytes cmd)"
  by (simp add: request_payload_def append_buffer_def fold_append_arg argv_ok_def)

lemma read_header_enc [simp]: "read_header (u32_bytes v @ rest) = Some (v, rest)"
  by (simp add: read_header_def)

lemma read_header_SomeD: "read_header cursor = Some (v, rest) \<Longrightarrow> cursor = u32_bytes v @ rest"
  by (auto simp: read_header_def u32c.enc_split split: if_splits)

lemma read_string_enc [simp]:
  "length s < 2 ^ 32 \<Longrightarrow> read_string (s @ rest) (of_nat (length s)) = Some (s, rest)"
  by (simp add: read_string_def)

lemma read_string_SomeD:
  "read_string cursor len = Some (s, rest) \<Longrightarrow>
   cursor = s @ rest \<and> length s < 2 ^ 32 \<and> len = of_nat (length s)"
  using unat_bound [of len] by (auto simp: read_string_def split: if_splits)

lemma parse_args_enc:
  assumes "\<forall>a \<in> set args. length a < 2 ^ 32" "num_args = length cmd + length args"
  shows "parse_args num_args (concat (map arg_bytes args) @ rest) cmd = (0, rest, cmd @ args)"
  using assms
proof (induction args arbitrary: cmd)
  case Nil
  then show ?case by (simp add: parse_args.simps)
next
  case (Cons a args)
  have "parse_args num_args (concat (map arg_bytes args) @ rest) (cmd @ [a])
      = (0, rest, (cmd @ [a]) @ args)"
    by (rule Cons.IH) (use Cons.prems in auto)
  with Cons.prems show ?case
    by (subst parse_args.simps) (simp add: arg_bytes_def)
qed

lemma parse_args_sound:
  assumes "parse_args num_args cursor cmd = (0, rest, cmd')" "length cmd \<le> num_args"
  shows "\<exists>args. cmd' = cmd @ args \<and> length cmd' = num_args
           \<and> (\<forall>a \<in> set args. length a < 2 ^ 32) \<and> cursor = concat (map arg_bytes args) @ rest"
  using assms
proof (induction num_args cursor cmd rule: parse_args.induct)
  case (1 num_args cursor cmd)
  show ?case
  proof (cases "length cmd < num_args")
    case False
    with "1.prems" show ?thesis by (simp add: parse_args.simps [of num_args cursor cmd])
  next
    case True
    with "1.prems"(1) obtain len c1 s c2 where
      hd: "read_header cursor = Some (len, c1)" and st: "read_string c1 len = Some (s, c2)" and
      rec: "parse_args num_args c2 (cmd @ [s]) = (0, rest, cmd')"
      by (auto simp: parse_args.simps [of num_args cursor cmd] Let_def split: option.splits)
    have "\<exists>args. cmd' = (cmd @ [s]) @ args \<and> length cmd' = num_args
        \<and> (\<forall>a \<in> set args. length a < 2 ^ 32) \<and> c2 = concat (map arg_bytes args) @ rest"
      using "1.IH" [OF True hd refl refl st refl] rec True by simp
    then obtain args where "cmd' = cmd @ (s # args)" "length cmd' = num_args"
      "\<forall>a \<in> set args. length a < 2 ^ 32" "c2 = concat (map arg_bytes args) @ rest"
      by auto
    with read_header_SomeD [OF hd] read_string_SomeD [OF st] show ?thesis
      by (intro exI [of _ "s # args"]) (auto simp: arg_bytes_def [of s])
  qed
qed

lemma parse_request_cases: "fst (parse_request d) = 0 \<or> fst (parse_request d) = -1"
  by (auto simp: parse_request_def split: option.splits prod.splits)

lemma parse_args_status: "fst (parse_args n c cmd) = 0 \<or> fst (parse_args n c cmd) = -1"
proof (induction n c cmd rule: parse_args.induct)
  case (1 n c cmd)
  then show ?case
    by (simp add: parse_args.simps [of n c cmd] Let_def split: option.split)
qed

lemma k_max_args_small: "k_max_args < 2 ^ 32"
  by (simp add: k_max_args_def)

lemma parse_request_payload: "argv_ok cmd \<Longrightarrow> parse_request (request_payload cmd) = (0, cmd)"
  using k_max_args_small parse_args_enc [of cmd "length cmd" "[]" "[]"]
  by (simp add: parse_request_def request_payload_eq argv_ok_def)

lemma parse_request_sound:
  assumes "parse_request d = (0, cmd)"
  shows "argv_ok cmd \<and> d = request_payload cmd"
proof -
  from assms obtain num_args cursor st where
    hd: "read_header d = Some (num_args, cursor)" and le: "unat num_args \<le> k_max_args" and
    st: "parse_args (unat num_args) cursor [] = (st, [], cmd)" "0 \<le> st"
    by (auto simp: parse_request_def not_less split: option.splits if_splits prod.splits)
  with parse_args_status [of "unat num_args" cursor "[]"]
  have pa: "parse_args (unat num_args) cursor [] = (0, [], cmd)" by auto
  from parse_args_sound [OF pa] have
    len: "length cmd = unat num_args" and ok: "\<forall>a \<in> set cmd. length a < 2 ^ 32" and
    cur: "cursor = concat (map arg_bytes cmd)"
    by auto
  from len le ok have "argv_ok cmd" by (simp add: argv_ok_def)
  with read_header_SomeD [OF hd] cur len show ?thesis
    by (simp add: request_payload_eq)
qed

section \<open>The contract between the two sides\<close>

locale argv_codec =
  fixes encode :: "'r \<Rightarrow> bytes"
    and decode :: "bytes \<Rightarrow> int \<times> 'r"
    and ok :: "'r \<Rightarrow> bool"
  assumes decode_encode: "ok r \<Longrightarrow> decode (encode r) = (0, r)"
    and decode_sound: "decode d = (0, r) \<Longrightarrow> ok r \<and> d = encode r"
    and decode_status: "fst (decode d) = 0 \<or> fst (decode d) = -1"
begin

lemma encode_inj: "ok r \<Longrightarrow> ok r' \<Longrightarrow> encode r = encode r' \<Longrightarrow> r = r'"
  using decode_encode by (metis prod.inject)

lemma accepts_iff: "decode d = (0, r) \<longleftrightarrow> ok r \<and> d = encode r"
  using decode_encode decode_sound by blast

lemma rejects_iff: "fst (decode d) = -1 \<longleftrightarrow> (\<forall>r. ok r \<longrightarrow> d \<noteq> encode r)"
proof
  assume "fst (decode d) = -1"
  then show "\<forall>r. ok r \<longrightarrow> d \<noteq> encode r"
    using decode_encode by fastforce
next
  assume none: "\<forall>r. ok r \<longrightarrow> d \<noteq> encode r"
  have "fst (decode d) \<noteq> 0"
    using decode_sound [of d "snd (decode d)"] none by (metis prod.collapse)
  with decode_status show "fst (decode d) = -1" by blast
qed

end

interpretation argv: argv_codec request_payload parse_request argv_ok
  by unfold_locales
    (auto simp: parse_request_payload parse_request_cases dest: parse_request_sound)

section \<open>Transfers move exactly the bytes asked for\<close>

lemma write_all_ok:
  assumes "write_all rvs buf sent = Some (0, out)"
  shows "out = sent @ buf"
  using assms
proof (induction rvs buf sent rule: write_all.induct)
  case (3 rv rvs b buf sent)
  then show ?case
    by (cases "nat rv \<le> length (b # buf)")
      (auto simp: assertion_def simp del: take_Cons' drop_Cons' split: if_splits)
qed auto

lemma write_all_prefix:
  assumes "write_all rvs buf sent = Some (st, out)"
  shows "(st = 0 \<or> st = -1) \<and> (\<exists>k. out = sent @ take k buf)"
  using assms
proof (induction rvs buf sent rule: write_all.induct)
  case (3 rv rvs b buf sent)
  show ?case
  proof (cases "rv \<le> 0")
    case True
    with "3.prems" show ?thesis by (auto intro: exI [of _ 0])
  next
    case False
    with "3.prems" have le: "nat rv \<le> length (b # buf)" and
      rec: "write_all rvs (drop (nat rv) (b # buf)) (sent @ take (nat rv) (b # buf)) = Some (st, out)"
      by (auto simp: assertion_def split: if_splits)
    from "3.IH" [OF False _ rec] le obtain k where
      "st = 0 \<or> st = -1" "out = (sent @ take (nat rv) (b # buf)) @ take k (drop (nat rv) (b # buf))"
      by (auto simp: assertion_def)
    then show ?thesis by (auto simp: take_add intro!: exI [of _ "nat rv + k"])
  qed
qed (auto intro: exI [of _ 0])

lemma read_all_ok:
  assumes "concat chunks = bs" "\<forall>c \<in> set chunks. c \<noteq> []"
  shows "read_all (map Read_data chunks @ rds) (length bs) buf = Some (0, buf @ bs, False, rds)"
  using assms
proof (induction chunks arbitrary: bs buf)
  case (Cons c chunks)
  from Cons.prems obtain m where m: "length bs = Suc m"
    by (cases "length bs") auto
  from Cons.prems m have "length c \<le> Suc m" "Suc m - length c = length (concat chunks)"
    by auto
  with Cons m show ?case by auto
qed simp

end
