(* ===== verification/Printf.thy ===== *)
theory Printf
  imports Common
begin

text \<open>
  The conversions of \<open>printf\<close> that the programs use for numbers: \<open>%d\<close>, \<open>%lld\<close> and \<open>%u\<close> are the
  decimal notation of \<open>Common\<close>; \<open>%g\<close> prints a double with six significant digits, rounded to
  nearest from its exact value, in fixed notation when the exponent of the rounded number is at
  least -4 and less than 6 and in scientific notation otherwise, without trailing zeros. The theory \<open>Decimal\<close>
  relates \<open>%g\<close> to \<open>strtod\<close>.
\<close>

unbundle bit_operations_syntax

section \<open>The formats\<close>

abbreviation fmt_d :: "int \<Rightarrow> bytes" where
  "fmt_d \<equiv> dec_int"

text \<open>The magnitude of a finite double as a fraction.\<close>

definition dbl_frac :: "u64 \<Rightarrow> nat \<times> nat" where
  "dbl_frac d =
     (let mag = unat (dbl_mag d);
          ex = mag div 2 ^ 52;
          m = (if ex = 0 then mag else 2 ^ 52 + mag mod 2 ^ 52);
          e = int (max ex 1) - 1075
      in (m * 2 ^ nat e, 2 ^ nat (- e)))"

text \<open>The decimal exponent of \<open>p / q\<close>: the largest \<open>X\<close> with \<open>10 ^ X \<le> p / q\<close>.\<close>

function exp10_up :: "nat \<Rightarrow> nat \<Rightarrow> nat" where
  "exp10_up p q = (if 0 < q \<and> 10 * q \<le> p then Suc (exp10_up p (10 * q)) else 0)"
  by pat_completeness auto
termination
  by (relation "measure (\<lambda>(p, q). p - q)") auto

function exp10_down :: "nat \<Rightarrow> nat \<Rightarrow> nat" where
  "exp10_down p q = (if 0 < p \<and> p < q then Suc (exp10_down (10 * p) q) else 0)"
  by pat_completeness auto
termination
  by (relation "measure (\<lambda>(p, q). q - p)") auto

declare exp10_up.simps [simp del] exp10_down.simps [simp del]

definition exp10 :: "nat \<Rightarrow> nat \<Rightarrow> int" where
  "exp10 p q = (if q \<le> p then int (exp10_up p q) else - int (exp10_down p q))"

text \<open>Six significant digits and the exponent of the first of them.\<close>

definition six_digits :: "nat \<Rightarrow> nat \<Rightarrow> nat \<times> int" where
  "six_digits p q =
     (let X = exp10 p q;
          D = round_half_even (p * 10 ^ nat (5 - X)) (q * 10 ^ nat (X - 5))
      in if D = 10 ^ 6 then (10 ^ 5, X + 1) else (D, X))"

definition strip_zeros :: "bytes \<Rightarrow> bytes" where
  "strip_zeros ds = rev (dropWhile (\<lambda>b. b = 48) (rev ds))"

definition with_point :: "bytes \<Rightarrow> bytes \<Rightarrow> bytes" where
  "with_point ip fp = (let fp = strip_zeros fp in if fp = [] then ip else ip @ 46 # fp)"

definition two_digits :: "nat \<Rightarrow> bytes" where
  "two_digits n = (if n < 10 then 48 # dec_nat n else dec_nat n)"

definition g_text :: "nat \<Rightarrow> int \<Rightarrow> bytes" where
  "g_text D X =
     (let ds = dec_nat D in
      if X < -4 \<or> 6 \<le> X then
        with_point (take 1 ds) (drop 1 ds) @ 101 # (if X < 0 then 45 else 43) # two_digits (nat \<bar>X\<bar>)
      else if X < 0 then with_point [48] (replicate (nat (- X - 1)) 48 @ ds)
      else with_point (take (nat X + 1) ds) (drop (nat X + 1) ds))"

definition fmt_g :: "u64 \<Rightarrow> bytes" where
  "fmt_g d =
     (if bit d 63 then [45] else []) @
     (if isnan d then lit ''nan''
      else if dbl_mag d = 0x7FF0000000000000 then lit ''inf''
      else if dbl_mag d = 0 then lit ''0''
      else (let (p, q) = dbl_frac d; (D, X) = six_digits p q in g_text D X))"

lemmas printf_defs [eval_simps] = dbl_frac_def exp10_def six_digits_def strip_zeros_def with_point_def
  two_digits_def g_text_def fmt_g_def

lemma exp10_eval [eval_simps]:
  "exp10_up (numeral p) (numeral q) = (if (10::nat) * numeral q \<le> numeral p then Suc (exp10_up (numeral p) (10 * numeral q)) else 0)"
  "exp10_down (numeral p) (numeral q) = (if (numeral p::nat) < numeral q then Suc (exp10_down (10 * numeral p) (numeral q)) else 0)"
  by (simp_all add: exp10_up.simps [of "numeral p"] exp10_down.simps [of "numeral p"])

lemma dec_nat_eval [eval_simps]:
  "dec_nat 0 = [48]" "dec_nat (Suc 0) = [49]" "dec_nat 1 = [49]"
  "dec_nat (numeral k) = (if (numeral k :: nat) < 10 then [48 + numeral k] else dec_nat (numeral k div 10) @ [of_nat (48 + numeral k mod 10)])"
  by (simp_all add: dec_nat.simps [of 0] dec_nat.simps [of "Suc 0"] dec_nat.simps [of 1] dec_nat.simps [of "numeral k"])

lemma let_list [eval_simps]: "Let (x # xs) f = f (x # xs)" "Let [] f = f []"
  by simp_all

lemma replicate_eval [eval_simps]: "replicate (numeral k) x = x # replicate (pred_numeral k) x"
  by (simp add: numeral_eq_Suc)

end
