(* ===== verification/Client.thy ===== *)
theory Client
  imports Protocol Printf
begin

text \<open>
  The response half of \<open>client.cpp\<close>: \<open>print_response\<close>, which decodes and prints one typed
  value, and \<open>read_response\<close>, which reads one frame and prints it.

  What the client prints is a list of events, one per \<open>printf\<close>, \<open>fprintf\<close> or \<open>msg\<close> call with
  its arguments; \<open>stdout_text\<close> and \<open>stderr_text\<close> are the bytes that reach the two streams. \<open>print_response\<close> returns the number of bytes consumed, -1 for a bad response;
  \<open>None\<close> is an out-of-bounds read.
\<close>

section \<open>Printing\<close>

datatype event =
    Out_nil
  | Out_err int bytes
  | Out_str bytes
  | Out_int int
  | Out_dbl u64
  | Out_bool bool
  | Arr_begin u32
  | Arr_end
  | Map_end
  | Msg bytes
  | Prompt

text \<open>The texts, by the formats of the calls.\<close>

fun event_out :: "event \<Rightarrow> bytes" where
  "event_out Out_nil = lit ''nil'' @ [10]"
| "event_out (Out_err code text) = lit ''error '' @ fmt_d code @ lit '': '' @ text @ [10]"
| "event_out (Out_str text) = text @ [10]"
| "event_out (Out_int v) = fmt_d v @ [10]"
| "event_out (Out_dbl d) = fmt_g d @ [10]"
| "event_out (Out_bool b) = lit (if b then ''true'' else ''false'') @ [10]"
| "event_out (Arr_begin len) = lit ''array length: '' @ fmt_d (int32_of (uint len)) @ [10]"
| "event_out Arr_end = lit ''array end'' @ [10]"
| "event_out Map_end = lit ''map end'' @ [10]"
| "event_out _ = []"

fun event_err :: "event \<Rightarrow> bytes" where
  "event_err (Msg text) = text @ [10]"
| "event_err Prompt = lit ''> ''"
| "event_err _ = []"

definition stdout_text :: "event list \<Rightarrow> bytes" where
  "stdout_text evs = concat (map event_out evs)"

definition stderr_text :: "event list \<Rightarrow> bytes" where
  "stderr_text evs = concat (map event_err evs)"

abbreviation bad_response :: event where
  "bad_response \<equiv> Msg (lit ''bad response'')"

text \<open>
  \<open>printf("%.*s", len, p)\<close>: the precision is an \<open>int\<close>; a negative one counts as none, so the
  text runs up to the next NUL byte. \<open>p\<close> points into the buffer with \<open>bs\<close> left after it.
\<close>

definition printf_str :: "u32 \<Rightarrow> bytes \<Rightarrow> bytes option" where
  "printf_str len bs =
     (let prec = int32_of (uint len);
          text = (if prec < 0 then bs else take (nat prec) bs)
      in if 0 \<in> set text then Some (takeWhile (\<lambda>b. b \<noteq> 0) text)
         else if prec < 0 \<or> length bs < nat prec then None
         else Some text)"

function (sequential) print_response :: "bytes \<Rightarrow> (int \<times> event list) option"
  and print_items :: "nat \<Rightarrow> bytes \<Rightarrow> (int option \<times> event list) option" where
  "print_response [] = Some (-1, [bad_response])"
| "print_response (tag # rest) =
     (let size = length (tag # rest) in
      if tag = TAG_NIL then Some (1, [Out_nil])
      else if tag = TAG_ERR then
        (if size < 1 + 8 then Some (-1, [bad_response])
         else
           (let code = u32_of_bytes (take 4 rest);
                len = u32_of_bytes (take 4 (drop 4 rest))
            in if size < unat (1 + 8 + len) then Some (-1, [bad_response])
               else do {
                 text \<leftarrow> printf_str len (drop 8 rest);
                 Some (int32_of (uint (1 + 8 + len)), [Out_err (int32_of (uint code)) text])
               }))
      else if tag = TAG_STR then
        (if size < 1 + 4 then Some (-1, [bad_response])
         else
           (let len = u32_of_bytes (take 4 rest)
            in if size < unat (1 + 4 + len) then Some (-1, [bad_response])
               else do {
                 text \<leftarrow> printf_str len (drop 4 rest);
                 Some (int32_of (uint (1 + 4 + len)), [Out_str text])
               }))
      else if tag = TAG_INT then
        (if size < 1 + 8 then Some (-1, [bad_response])
         else Some (1 + 8, [Out_int (sint (u64_of_bytes (take 8 rest)))]))
      else if tag = TAG_DBL then
        (if size < 1 + 8 then Some (-1, [bad_response])
         else Some (1 + 8, [Out_dbl (u64_of_bytes (take 8 rest))]))
      else if tag = TAG_BOOL then
        (if size < 1 + 1 then Some (-1, [bad_response])
         else Some (1 + 1, [Out_bool (hd rest \<noteq> 0)]))
      else if tag = TAG_ARR then
        (if size < 1 + 4 then Some (-1, [bad_response])
         else
           (let len = u32_of_bytes (take 4 rest) in do {
              (rv, evs) \<leftarrow> print_items (unat len) (drop 4 rest);
              (case rv of
                 None \<Rightarrow> Some (-1, Arr_begin len # evs)
               | Some n \<Rightarrow> Some (int32_of (1 + 4 + n), Arr_begin len # evs @ [Arr_end]))
            }))
      else if tag = TAG_MAP then
        (if size < 1 + 4 then Some (-1, [bad_response])
         else
           (let len = u32_of_bytes (take 4 rest) in do {
              (rv, evs) \<leftarrow> print_items (unat len) (drop 4 rest);
              (case rv of
                 None \<Rightarrow> Some (-1, evs)
               | Some n \<Rightarrow> Some (int32_of (1 + 4 + n), evs @ [Map_end]))
            }))
      else Some (-1, [bad_response]))"
| "print_items 0 bs = Some (Some 0, [])"
| "print_items (Suc k) bs = do {
     (rv, evs) \<leftarrow> print_response bs;
     if rv \<le> 0 then Some (None, evs @ [bad_response])
     else do {
       (rest, evs') \<leftarrow> print_items k (drop (nat rv) bs);
       Some (map_option (\<lambda>n. rv + n) rest, evs @ evs')
     }
   }"
  by pat_completeness auto
termination
  by (relation "measures [\<lambda>x. case x of Inl bs \<Rightarrow> length bs | Inr (k, bs) \<Rightarrow> length bs,
                          \<lambda>x. case x of Inl bs \<Rightarrow> 0 | Inr (k, bs) \<Rightarrow> Suc k]") auto

section \<open>Reading one response frame\<close>

definition read_response :: "read_result list \<Rightarrow> (int \<times> event list) option" where
  "read_response rds = do {
     (err, rbuf, errno, rds) \<leftarrow> read_all rds 4 [];
     if err \<noteq> 0 then Some (err, [Msg (lit (if \<not> errno then ''unexpected EOF'' else ''read() error''))])
     else
       (let payload_len = u32_of_bytes rbuf in
        if unat payload_len > k_max_msg then Some (-1, [Msg (lit ''bad response length'')])
        else do {
          (err, payload, _, rds) \<leftarrow> read_all rds (unat payload_len) [];
          if err \<noteq> 0 then Some (err, [Msg (lit ''read() error'')])
          else do {
            (rv, evs) \<leftarrow> print_response payload;
            if rv > 0 \<and> word_of_int rv \<noteq> payload_len then Some (-1, evs @ [bad_response])
            else Some (rv, evs)
          }
        })
   }"

section \<open>Decoding what the server encodes\<close>

text \<open>What the client prints for a value: a C string is cut at its first NUL byte.\<close>

definition c_text :: "bytes \<Rightarrow> bytes" where
  "c_text s = takeWhile (\<lambda>b. b \<noteq> 0) s"

fun events_of :: "resp \<Rightarrow> event list" where
  "events_of RNil = [Out_nil]"
| "events_of (RErr c m) = [Out_err (int32_of (uint c)) (c_text m)]"
| "events_of (RStr s) = [Out_str (c_text s)]"
| "events_of (RInt v) = [Out_int (int64_of v)]"
| "events_of (RDbl d) = [Out_dbl d]"
| "events_of (RBool b) = [Out_bool b]"
| "events_of (RArr vs) = Arr_begin (of_nat (length vs)) # concat (map events_of vs) @ [Arr_end]"
| "events_of (RMap vs) = concat (map events_of vs) @ [Map_end]"

declare print_response.simps [simp del] print_items.simps [simp del]

lemmas client_defs [eval_simps] = printf_str_def print_response.simps print_items.simps
  read_response_def c_text_def stdout_text_def stderr_text_def

lemma printf_str_text:
  assumes "length s < 2 ^ 31"
  shows "printf_str (of_nat (length s)) (s @ rest) = Some (c_text s)"
proof -
  from assms have "int32_of (uint (of_nat (length s) :: u32)) = int (length s)"
    by (simp add: uint_nat int32_of_id)
  then show ?thesis by (auto simp: printf_str_def c_text_def Let_def
      intro!: takeWhile_eq_all_conv [THEN iffD2, symmetric])
qed

lemma u32_add_of_nat: "k + n < 2 ^ 32 \<Longrightarrow> unat (of_nat k + of_nat n :: u32) = k + n"
  by (simp add: of_nat_inverse flip: of_nat_add)

lemma rv_of_nat:
  assumes "k + n < 2 ^ 31"
  shows "int32_of (uint (of_nat k + of_nat n :: u32)) = int (k + n)"
  using assms by (simp add: uint_nat u32_add_of_nat int32_of_id)

lemma sint_word_of_int64: "sint (word_of_int v :: u64) = int64_of v"
  by (simp add: int64_of_def sint_sbintrunc')

lemma print_items_ser:
  assumes "\<And>v rest. v \<in> set vs \<Longrightarrow>
      print_response (ser v @ rest) = Some (int (length (ser v)), events_of v)"
  shows "print_items (length vs) (concat (map ser vs) @ rest)
    = Some (Some (int (length (concat (map ser vs)))), concat (map events_of vs))"
  using assms
proof (induction vs)
  case Nil
  then show ?case by (simp add: print_items.simps)
next
  case (Cons v vs)
  from Cons.IH Cons.prems have
    "print_items (length vs) (concat (map ser vs) @ rest)
      = Some (Some (int (length (concat (map ser vs)))), concat (map events_of vs))"
    by simp
  moreover have "print_response (ser v @ concat (map ser vs) @ rest)
      = Some (int (length (ser v)), events_of v)"
    using Cons.prems by simp
  ultimately show ?case
    using ser_nonempty [of v] by (simp add: print_items.simps)
qed

lemma print_response_ser:
  "length (ser v) < 2 ^ 31 \<Longrightarrow>
   print_response (ser v @ rest) = Some (int (length (ser v)), events_of v)"
proof (induction v arbitrary: rest)
  case (RErr c m)
  then show ?case
    using u32_add_of_nat [of 9 "length m"] rv_of_nat [of 9 "length m"]
    by (simp add: print_response.simps tag_defs printf_str_text)
next
  case (RStr s)
  then show ?case
    using u32_add_of_nat [of 5 "length s"] rv_of_nat [of 5 "length s"]
    by (simp add: print_response.simps tag_defs printf_str_text)
next
  case (RArr vs)
  have "length (ser v) < 2 ^ 31" if "v \<in> set vs" for v
    using RArr.prems that by (auto dest!: split_list)
  with RArr.IH have items: "print_items (length vs) (concat (map ser vs) @ rest)
      = Some (Some (int (length (concat (map ser vs)))), concat (map events_of vs))"
    by (intro print_items_ser) simp
  have "length vs < 2 ^ 32" using RArr.prems length_le_ser [of vs] by simp
  with items RArr.prems show ?case
    by (simp add: print_response.simps tag_defs int32_of_id)
next
  case (RMap vs)
  have "length (ser v) < 2 ^ 31" if "v \<in> set vs" for v
    using RMap.prems that by (auto dest!: split_list)
  with RMap.IH have items: "print_items (length vs) (concat (map ser vs) @ rest)
      = Some (Some (int (length (concat (map ser vs)))), concat (map events_of vs))"
    by (intro print_items_ser) simp
  have "length vs < 2 ^ 32" using RMap.prems length_le_ser [of vs] by simp
  with items RMap.prems show ?case
    by (simp add: print_response.simps tag_defs int32_of_id)
qed (simp_all add: print_response.simps tag_defs sint_word_of_int64)

text \<open>
  A string whose length comes from an untrusted response. The sum of the header and the length has 32 bits:
  for the largest lengths it wraps around, the check of the size passes, and the precision is negative.
\<close>

lemma u32_add_unat:
  assumes "k < 2 ^ 32"
  shows "unat (of_nat k + len :: u32) = (if unat len < 2 ^ 32 - k then k + unat len else k + unat len - 2 ^ 32)"
proof -
  have "unat (of_nat k + len :: u32) = (unat (of_nat k :: u32) + unat len) mod 2 ^ 32" by (simp only: unat_word_ariths) simp
  moreover have "unat (of_nat k :: u32) = k" using assms by (simp add: of_nat_inverse)
  moreover have "unat len < 2 ^ 32" using unat_bound [of len] by simp
  ultimately show ?thesis using assms by (auto simp: mod_if)
qed

lemma int32_of_neg:
  assumes "2 ^ 31 \<le> x" "x < 2 ^ 32"
  shows "int32_of x < 0"
proof -
  have "(x + 2 ^ 31) mod 2 ^ 32 = (x - 2 ^ 31 + 2 ^ 32) mod 2 ^ 32" by (rule arg_cong [of _ _ "\<lambda>y. y mod 2 ^ 32"]) simp
  also have "\<dots> = (x - 2 ^ 31) mod 2 ^ 32" by (rule mod_add_self2)
  also have "\<dots> = x - 2 ^ 31" using assms by (intro mod_pos_pos_trivial) simp_all
  finally show ?thesis using assms by (simp add: int32_of_def signed_take_bit_eq_take_bit_shift take_bit_int_def)
qed

lemma len_int: obtains n where "unat (len :: u32) = n" "uint len = int n" "n < 2 ^ 32"
  using unat_bound [of len] by (simp add: uint_nat)

lemma printf_str_short:
  assumes "unat len \<le> length bs" "length bs < 2 ^ 31"
  shows "printf_str len bs = Some (c_text (take (unat len) bs))"
proof -
  have "length (take (unat len) bs) = unat len" using assms(1) by simp
  then show ?thesis using printf_str_text [of "take (unat len) bs" "drop (unat len) bs"] assms by simp
qed

lemma printf_str_long:
  assumes "2 ^ 31 \<le> unat len"
  shows "printf_str len bs = (if 0 \<in> set bs then Some (c_text bs) else None)"
proof -
  from len_int [of len] obtain n where "unat len = n" "uint len = int n" "n < 2 ^ 32" by blast
  with assms have "int32_of (uint len) < 0" by (intro int32_of_neg) simp_all
  then show ?thesis by (simp add: printf_str_def c_text_def Let_def)
qed

definition counted :: "nat \<Rightarrow> u32 \<Rightarrow> bytes \<Rightarrow> (bytes \<Rightarrow> event) \<Rightarrow> (int \<times> event list) option" where
  "counted k len rest out =
     (if unat len \<le> length rest then Some (int (k + unat len), [out (c_text (take (unat len) rest))])
      else if unat len < 2 ^ 32 - k then Some (-1, [bad_response])
      else if 0 \<in> set rest then Some (int (k + unat len) - 2 ^ 32, [out (c_text rest)])
      else None)"

lemma counted_eq:
  assumes "k + length rest < 2 ^ 31" "w = of_nat k"
  shows "(if k + length rest < unat (w + len) then Some (-1, [bad_response])
     else do { text \<leftarrow> printf_str len rest; Some (int32_of (uint (w + len)), [out text]) }) = counted k len rest out"
proof -
  have k: "k < 2 ^ 32" using assms(1) by simp
  obtain n where n: "unat len = n" "n < 2 ^ 32" using len_int [of len] by blast
  consider "n \<le> length rest" | "length rest < n" "n < 2 ^ 32 - k" | "2 ^ 32 - k \<le> n" "length rest < n"
    by linarith
  then show ?thesis
  proof cases
    case 1
    then have "n < 2 ^ 32 - k" using assms(1) by simp
    then have "unat (of_nat k + len :: u32) = k + n" by (simp only: u32_add_unat [OF k] n if_True)
    moreover have "int32_of (int (k + n)) = int (k + n)" using 1 assms(1) by (intro int32_of_id) simp_all
    moreover have "printf_str len rest = Some (c_text (take (n) rest))" using printf_str_short [of len rest] 1 assms(1) n(1) by simp
    ultimately show ?thesis using 1 by (simp only: counted_def assms(2) uint_nat n) simp
  next
    case 2
    then have "unat (of_nat k + len :: u32) = k + n" by (simp only: u32_add_unat [OF k] n if_True)
    with 2 show ?thesis by (simp only: counted_def assms(2) n) simp
  next
    case 3
    then have u: "unat (of_nat k + len :: u32) = k + n - 2 ^ 32" by (simp only: u32_add_unat [OF k] n) simp
    have r: "k + n - 2 ^ 32 \<le> k + length rest" "2 ^ 31 \<le> n" "2 ^ 32 \<le> k + n" "k + n - 2 ^ 32 < 2 ^ 31"
      using 3 assms(1) n(2) by simp_all
    have "int (k + n - 2 ^ 32) = int (k + n) - 2 ^ 32" using r(3) by (subst of_nat_diff) simp_all
    moreover have "int32_of (int (k + n - 2 ^ 32)) = int (k + n - 2 ^ 32)" using r(4) by (intro int32_of_id) simp_all
    ultimately show ?thesis using 3 r(1) printf_str_long [of len rest] r(2) n(1) by (simp only: counted_def assms(2) uint_nat n u) simp
  qed
qed

lemma print_response_counted:
  assumes "9 + length rest < 2 ^ 31"
  shows "print_response (TAG_STR # u32_bytes len @ rest) = counted 5 len rest Out_str"
    and "print_response (TAG_ERR # u32_bytes code @ u32_bytes len @ rest) = counted 9 len rest (Out_err (int32_of (uint code)))"
proof -
  have "print_response (TAG_STR # u32_bytes len @ rest) = (if 5 + length rest < unat (5 + len) then Some (-1, [bad_response])
     else do { text \<leftarrow> printf_str len rest; Some (int32_of (uint (5 + len)), [Out_str text]) })"
    by (simp add: print_response.simps tag_defs)
  also have "\<dots> = counted 5 len rest Out_str" by (rule counted_eq) (use assms in simp_all)
  finally show "print_response (TAG_STR # u32_bytes len @ rest) = counted 5 len rest Out_str" .
  have "print_response (TAG_ERR # u32_bytes code @ u32_bytes len @ rest)
    = (if 9 + length rest < unat (9 + len) then Some (-1, [bad_response])
     else do { text \<leftarrow> printf_str len rest; Some (int32_of (uint (9 + len)), [Out_err (int32_of (uint code)) text]) })"
    by (simp add: print_response.simps tag_defs)
  also have "\<dots> = counted 9 len rest (Out_err (int32_of (uint code)))" by (rule counted_eq) (use assms in simp_all)
  finally show "print_response (TAG_ERR # u32_bytes code @ u32_bytes len @ rest) = counted 9 len rest (Out_err (int32_of (uint code)))" .
qed

end
