(* ===== verification/Netio.thy ===== *)
theory Netio
  imports Bounds Client
begin

text \<open>
  The server's connections, \<open>net/netio.h\<close> and \<open>net/netio.cpp\<close>. A connection holds two byte buffers
  and three flags; the handlers take it and the database state and return both. The system calls are
  arguments: \<open>read\<close> returns the bytes it delivered, end of file or an error, \<open>write\<close> the number of
  bytes it took or an error. The clock is a function from the number of the request to the time its
  handler reads, as each request reads it anew.
\<close>

section \<open>Data\<close>

record Connection =
  socket_fd :: nat
  want_read :: bool
  want_write :: bool
  want_close :: bool
  incoming :: bytes
  outgoing :: bytes
  last_activity_ms :: u64

datatype write_result = Wrote nat | Write_again | Write_error

section \<open>Response frames\<close>

definition vec_resize :: "bytes \<Rightarrow> nat \<Rightarrow> bytes" where
  "vec_resize xs n = take n xs @ replicate (n - length xs) 0"

text \<open>\<open>memcpy(&out[pos], src, 4)\<close>, within the bounds of \<open>out\<close>.\<close>

definition put_bytes :: "bytes \<Rightarrow> nat \<Rightarrow> bytes \<Rightarrow> bytes option" where
  "put_bytes out pos src =
     (if pos + length src \<le> length out then Some (take pos out @ src @ drop (pos + length src) out) else None)"

definition response_begin :: "bytes \<Rightarrow> bytes \<times> nat" where
  "response_begin out = (append_buffer_u32 out 0, length out)"

definition response_size :: "bytes \<Rightarrow> nat \<Rightarrow> nat" where
  "response_size out header = unat (of_nat (length out) - of_nat header - 4 :: u64)"

definition response_end :: "bytes \<Rightarrow> nat \<Rightarrow> bytes option" where
  "response_end out header =
     (let msg_size = response_size out header;
          (out, msg_size) =
            (if msg_size > k_max_msg
             then (let out = out_err (vec_resize out (header + 4)) ERR_TOO_BIG (lit ''response is too big.'')
                   in (out, response_size out header))
             else (out, msg_size));
          len = (of_nat msg_size :: u32)
      in put_bytes out header (u32_bytes len))"

section \<open>One request\<close>

definition handle_one_request ::
    "server \<Rightarrow> u64 \<Rightarrow> Connection \<Rightarrow> (server \<times> Connection \<times> bool) option" where
  "handle_one_request sv now conn =
     (if length (incoming conn) < 4 then Some (sv, conn, False)
      else
        (let frame_len = u32_of_bytes (take 4 (incoming conn)) in
         if unat frame_len > k_max_msg then Some (sv, conn\<lparr>want_close := True\<rparr>, False)
         else if unat (4 + frame_len) > length (incoming conn) then Some (sv, conn, False)
         else
           (let request = take (unat frame_len) (drop 4 (incoming conn));
                (st, cmd) = parse_request request
            in if st < 0 then
                 (let (out, header) = response_begin (outgoing conn);
                      out = out_err out ERR_BAD_ARG (lit ''malformed request'')
                  in do {
                    out \<leftarrow> response_end out header;
                    Some (sv, conn\<lparr>outgoing := out,
                      incoming := consume_buffer (incoming conn) (unat (4 + frame_len))\<rparr>, True)
                  })
               else
                 (let (out, header) = response_begin (outgoing conn) in do {
                    (sv, out) \<leftarrow> run_request sv now cmd out;
                    out \<leftarrow> response_end out header;
                    Some (sv, conn\<lparr>outgoing := out,
                      incoming := consume_buffer (incoming conn) (unat (4 + frame_len))\<rparr>, True)
                  }))))"

text \<open>The loop \<open>while (handle_one_request(conn)) {}\<close>.\<close>

partial_function (option) handle_requests ::
    "server \<Rightarrow> (nat \<Rightarrow> u64) \<Rightarrow> Connection \<Rightarrow> (server \<times> Connection) option" where
  "handle_requests sv clock conn = do {
     (sv, conn, more) \<leftarrow> handle_one_request sv (clock 0) conn;
     if more then handle_requests sv (\<lambda>i. clock (Suc i)) conn else Some (sv, conn)
   }"

declare handle_requests.simps [code]

section \<open>Readiness callbacks\<close>

definition handle_write :: "write_result \<Rightarrow> Connection \<Rightarrow> Connection option" where
  "handle_write w conn = do {
     assertion (outgoing conn \<noteq> []);
     (case w of
        Write_again \<Rightarrow> Some conn
      | Write_error \<Rightarrow> Some (conn\<lparr>want_close := True\<rparr>)
      | Wrote n \<Rightarrow>
          (let conn = conn\<lparr>outgoing := consume_buffer (outgoing conn) n\<rparr>
           in Some (if length (outgoing conn) = 0 then conn\<lparr>want_read := True, want_write := False\<rparr> else conn)))
   }"

definition handle_read ::
    "server \<Rightarrow> (nat \<Rightarrow> u64) \<Rightarrow> read_result \<Rightarrow> write_result \<Rightarrow> Connection \<Rightarrow> (server \<times> Connection) option" where
  "handle_read sv clock r w conn =
     (case r of
        Read_again \<Rightarrow> Some (sv, conn)
      | Read_error \<Rightarrow> Some (sv, conn\<lparr>want_close := True\<rparr>)
      | Read_eof \<Rightarrow> Some (sv, conn\<lparr>want_close := True\<rparr>)
      | Read_data buf \<Rightarrow> do {
          (sv, conn) \<leftarrow> handle_requests sv clock (conn\<lparr>incoming := append_buffer (incoming conn) buf\<rparr>);
          if outgoing conn \<noteq> [] then do {
            conn \<leftarrow> handle_write w (conn\<lparr>want_read := False, want_write := True\<rparr>);
            Some (sv, conn)
          }
          else Some (sv, conn)
        })"

lemmas netio_defs [eval_simps] = vec_resize_def put_bytes_def response_begin_def response_size_def
  response_end_def handle_one_request_def handle_write_def handle_read_def

section \<open>Frames\<close>

text \<open>The frame of a response: its length and its bytes, or those of an error when it is too big.\<close>

definition too_big :: resp where
  "too_big = RErr ERR_TOO_BIG (lit ''response is too big.'')"

definition fit :: "resp \<Rightarrow> resp" where
  "fit r = (if length (ser r) > k_max_msg then too_big else r)"

definition frame_of :: "bytes \<Rightarrow> bytes" where
  "frame_of p = u32_bytes (of_nat (length p)) @ p"

definition malformed :: resp where
  "malformed = RErr ERR_BAD_ARG (lit ''malformed request'')"

lemma length_too_big: "length (ser too_big) \<le> k_max_msg"
  by (simp add: too_big_def k_max_msg_def lit_def)

lemma fit_size: "length (ser (fit r)) \<le> k_max_msg"
  using length_too_big by (simp add: fit_def)

lemma length_ser_bound: "length out + 4 + length p < 2 ^ 64 \<Longrightarrow>
    response_size (out @ u32_bytes v @ p) (length out) = length p"
proof -
  assume a: "length out + 4 + length p < 2 ^ 64"
  have "(of_nat (length out + 4 + length p) :: u64) - of_nat (length out) - 4 = of_nat (length p)"
    by simp
  then show ?thesis using a by (simp add: response_size_def of_nat_inverse add.assoc)
qed

lemma put_header: "length w = 4 \<Longrightarrow> length v = 4 \<Longrightarrow> put_bytes (out @ w @ p) (length out) v = Some (out @ v @ p)"
  by (simp add: put_bytes_def)

text \<open>Framing: whatever was in the buffer stays, the answer follows with its length.\<close>

lemma response_end_ok:
  assumes "length out + 4 + length (ser r) < 2 ^ 64" "length out < 2 ^ 63"
  shows "response_end (fst (response_begin out) @ ser r) (snd (response_begin out)) = Some (out @ frame_of (ser (fit r)))"
proof -
  have b: "fst (response_begin out) = out @ u32_bytes 0" "snd (response_begin out) = length out"
    by (simp_all add: response_begin_def buffer_defs)
  have s: "response_size (out @ u32_bytes 0 @ ser r) (length out) = length (ser r)"
    by (rule length_ser_bound [OF assms(1)])
  show ?thesis
  proof (cases "length (ser r) > k_max_msg")
    case True
    have rs: "vec_resize (out @ u32_bytes 0 @ ser r) (length out + 4) = out @ u32_bytes 0"
      by (simp add: vec_resize_def)
    have "response_size (out @ u32_bytes 0 @ ser too_big) (length out) = length (ser too_big)"
      using assms(2) length_too_big by (intro length_ser_bound) (simp add: k_max_msg_def)
    then show ?thesis
      using True s rs by (simp add: response_end_def Let_def b fit_def frame_of_def put_header
          flip: too_big_def del: ser.simps)
  next
    case False
    then show ?thesis
      using s by (simp add: response_end_def Let_def b fit_def frame_of_def put_header del: ser.simps)
  qed
qed

section \<open>Splitting the stream into frames\<close>

text \<open>
  The complete frames at the start of a buffer, what is left after them, and whether the left-over
  starts with the header of a frame that is too long.
\<close>

function split_frames :: "bytes \<Rightarrow> bytes list \<times> bytes \<times> bool" where
  "split_frames bs =
     (if length bs < 4 then ([], bs, False)
      else
        (let n = unat (u32_of_bytes (take 4 bs)) in
         if n > k_max_msg then ([], bs, True)
         else if 4 + n > length bs then ([], bs, False)
         else (case split_frames (drop (4 + n) bs) of (ps, r, bad) \<Rightarrow> (take n (drop 4 bs) # ps, r, bad))))"
  by pat_completeness auto
termination
  by (relation "measure length") auto

declare split_frames.simps [simp del]

lemma unat_header: "unat n \<le> k_max_msg \<Longrightarrow> unat (4 + n :: u32) = 4 + unat n"
proof -
  assume a: "unat n \<le> k_max_msg"
  then have "unat (of_nat (4 + unat n) :: u32) = 4 + unat n"
    by (intro u32_of_nat) (simp add: k_max_msg_def)
  then show ?thesis by simp
qed

lemma split_frames_payloads:
  "split_frames bs = (ps, r, bad) \<Longrightarrow> p \<in> set ps \<Longrightarrow> length p \<le> k_max_msg"
proof (induction bs arbitrary: ps rule: split_frames.induct)
  case (1 bs)
  then show ?case
    by (subst (asm) (2) split_frames.simps) (auto simp: Let_def split: if_splits prod.splits)
qed

text \<open>What is left over is less than one frame, unless the connection is to be closed.\<close>

lemma split_frames_rest: "split_frames bs = (ps, r, False) \<Longrightarrow> length r < 4 + k_max_msg"
proof (induction bs arbitrary: ps rule: split_frames.induct)
  case (1 bs)
  then show ?case
    by (subst (asm) (2) split_frames.simps)
      (auto simp: Let_def k_max_msg_def split: if_splits prod.splits)
qed

lemma split_frames_length: "split_frames bs = (ps, r, bad) \<Longrightarrow> 4 * length ps + length r \<le> length bs"
proof (induction bs arbitrary: ps rule: split_frames.induct)
  case (1 bs)
  show ?case
  proof (cases "length bs < 4 \<or> unat (u32_of_bytes (take 4 bs)) > k_max_msg
      \<or> 4 + unat (u32_of_bytes (take 4 bs)) > length bs")
    case True
    with "1.prems" show ?thesis
      by (subst (asm) split_frames.simps) (auto simp: Let_def split: if_splits)
  next
    case False
    let ?n = "unat (u32_of_bytes (take 4 bs))"
    obtain qs where q: "split_frames (drop (4 + ?n) bs) = (qs, r, bad)" "ps = take ?n (drop 4 bs) # qs"
      using "1.prems" False by (subst (asm) split_frames.simps) (auto simp: Let_def split: prod.splits)
    have "4 * length qs + length r \<le> length (drop (4 + ?n) bs)"
      using False by (intro "1.IH" [OF _ refl _ _ q(1)]) auto
    with q(2) False show ?thesis by auto
  qed
qed

text \<open>More bytes only add frames: the stream may be cut anywhere.\<close>

lemma split_frames_append:
  assumes "split_frames a = (ps, r, False)" "split_frames (r @ b) = (qs, r', bad)"
  shows "split_frames (a @ b) = (ps @ qs, r', bad)"
  using assms
proof (induction a arbitrary: ps rule: split_frames.induct)
  case (1 a)
  let ?n = "unat (u32_of_bytes (take 4 a))"
  show ?case
  proof (cases "length a < 4 \<or> 4 + ?n > length a")
    case True
    with "1.prems"(1) have "ps = [] \<and> r = a"
      by (subst (asm) split_frames.simps) (auto simp: Let_def split: if_splits)
    with "1.prems"(2) show ?thesis by simp
  next
    case False
    with "1.prems"(1) have n: "?n \<le> k_max_msg"
      by (subst (asm) split_frames.simps) (auto simp: Let_def split: if_splits)
    obtain ps' where p: "split_frames (drop (4 + ?n) a) = (ps', r, False)" "ps = take ?n (drop 4 a) # ps'"
      using "1.prems"(1) False n by (subst (asm) split_frames.simps) (auto simp: Let_def split: prod.splits)
    have "split_frames (drop (4 + ?n) a @ b) = (ps' @ qs, r', bad)"
      using False n by (intro "1.IH" [OF _ refl _ _ p(1) "1.prems"(2)]) auto
    then show ?thesis using False n p(2) by (subst split_frames.simps) (simp add: Let_def)
  qed
qed

lemma split_frames_frame:
  assumes "length p \<le> k_max_msg" "split_frames rest = (ps, r, bad)"
  shows "split_frames (frame_of p @ rest) = (p # ps, r, bad)"
proof -
  have "length p < 2 ^ 32" using assms(1) by (simp add: k_max_msg_def)
  with assms show ?thesis by (subst split_frames.simps) (simp add: frame_of_def Let_def)
qed

section \<open>What a sequence of requests does\<close>

text \<open>
  One payload: a malformed one is answered with an error, any other is a request. \<open>serves clock ps A\<close>
  relates the payloads to the database after them and the answers in order; \<open>None\<close> when the process
  aborts on one of them. It is a relation because the order in which \<open>keys\<close> lists is open.
\<close>

definition serve_one :: "u64 \<Rightarrow> bytes list \<Rightarrow> bytes \<Rightarrow> adb \<Rightarrow> (adb \<times> resp) option" where
  "serve_one now ks p A =
     (case parse_request p of (st, cmd) \<Rightarrow>
        if st < 0 then Some (A, malformed) else run_spec now ks cmd A)"

definition key_order :: "bytes list \<Rightarrow> adb \<Rightarrow> bool" where
  "key_order ks A \<longleftrightarrow> distinct ks \<and> set ks = dom A"

inductive serves :: "(nat \<Rightarrow> u64) \<Rightarrow> bytes list \<Rightarrow> adb \<Rightarrow> (adb \<times> resp list) option \<Rightarrow> bool" where
  no_more: "serves clock [] A (Some (A, []))"
| aborts: "key_order ks A \<Longrightarrow> serve_one (clock 0) ks p A = None \<Longrightarrow> serves clock (p # ps) A None"
| answers: "key_order ks A \<Longrightarrow> serve_one (clock 0) ks p A = Some (A1, r) \<Longrightarrow>
    serves (\<lambda>i. clock (Suc i)) ps A1 res \<Longrightarrow>
    serves clock (p # ps) A (map_option (\<lambda>(A', rs). (A', r # rs)) res)"

inductive_cases serves_NilE: "serves clock [] A res"
inductive_cases serves_ConsE: "serves clock (p # ps) A res"

lemma parsed_args:
  assumes "parse_request p = (0, cmd)" "length p \<le> k_max_msg" "s \<in> set cmd"
  shows "length s \<le> k_max_msg"
proof -
  from parse_request_sound [OF assms(1)] have "p = u32_bytes (of_nat (length cmd)) @ concat (map arg_bytes cmd)"
    by (auto simp: request_payload_eq)
  moreover have "length (arg_bytes s) \<le> length (concat (map arg_bytes cmd))"
    using assms(3) by (induction cmd) auto
  ultimately show ?thesis using assms(2) by (simp add: arg_bytes_def)
qed

lemma parse_status: "fst (parse_request p) < 0 \<or> fst (parse_request p) = 0"
  using parse_request_cases [of p] by auto

text \<open>The database state and its abstraction, with the bounds.\<close>

definition db_ok :: "server \<Rightarrow> adb \<Rightarrow> bool" where
  "db_ok sv A \<longleftrightarrow> server_ok sv A \<and> adb_ok A"

lemma db_ok_init: "db_ok server0 Map.empty"
  by (simp add: db_ok_def server_ok_init adb_ok_empty)

abbreviation reply :: "resp \<Rightarrow> bytes" where
  "reply r \<equiv> frame_of (ser (fit r))"

lemma length_reply: "length (reply r) \<le> 2 ^ 26"
  using fit_size [of r] by (simp add: frame_of_def k_max_msg_def)

lemma response_started:
  "fst (response_begin out) = out @ u32_bytes 0" "snd (response_begin out) = length out"
  by (simp_all add: response_begin_def buffer_defs)

text \<open>What the code does with a complete frame.\<close>

lemma handle_one_request_frame:
  assumes inc: "incoming conn = frame_of p @ rest" and p: "length p \<le> k_max_msg"
  shows "handle_one_request sv now conn = do {
     (sv, out) \<leftarrow> (case parse_request p of (st, cmd) \<Rightarrow>
        if st < 0 then Some (sv, fst (response_begin (outgoing conn)) @ ser malformed)
        else run_request sv now cmd (fst (response_begin (outgoing conn))));
     out \<leftarrow> response_end out (snd (response_begin (outgoing conn)));
     Some (sv, conn\<lparr>outgoing := out, incoming := rest\<rparr>, True)
   }"
proof -
  let ?n = "of_nat (length p) :: u32"
  have n: "unat ?n = length p" using p by (intro u32_of_nat) (simp add: k_max_msg_def)
  have "take 4 (incoming conn) = u32_bytes ?n" "drop 4 (incoming conn) = p @ rest"
    "drop (4 + length p) (incoming conn) = rest" "4 + length p \<le> length (incoming conn)" "4 \<le> length (incoming conn)"
    by (simp_all add: inc frame_of_def)
  moreover have "unat (4 + ?n) = 4 + length p" using unat_header [of ?n] n p by simp
  ultimately show ?thesis
    using n p by (auto simp: handle_one_request_def Let_def malformed_def split_beta response_started
        simp del: ser.simps)
qed

lemma handle_one_request_ok:
  assumes ok: "db_ok sv A" and inc: "incoming conn = frame_of p @ rest" and p: "length p \<le> k_max_msg"
    and room: "length (outgoing conn) < 2 ^ 62"
  shows "\<exists>ks. key_order ks A \<and>
    rel_option (\<lambda>(A', r) (sv', c', again). db_ok sv' A' \<and> again
        \<and> c' = conn\<lparr>outgoing := outgoing conn @ reply r, incoming := rest\<rparr>)
      (serve_one now ks p A) (handle_one_request sv now conn)"
proof -
  obtain st cmd where pr: "parse_request p = (st, cmd)" by fastforce
  let ?b = "response_begin (outgoing conn)"
  let ?run = "if st < 0 then Some (sv, fst ?b @ ser malformed) else run_request sv now cmd (fst ?b)"
  have fin: "response_end (fst ?b @ ser r) (snd ?b) = Some (outgoing conn @ reply r)"
    if "length (ser r) < 2 ^ 32" for r
    using room that by (intro response_end_ok) simp_all
  have "\<exists>ks. key_order ks A \<and> rel_option (\<lambda>(A', r) (sv', out). db_ok sv' A' \<and> out = fst ?b @ ser r
      \<and> length (ser r) < 2 ^ 32) (serve_one now ks p A) ?run"
  proof (cases "st < 0")
    case True
    obtain ks where "key_order ks A"
      using finite_distinct_list [of "dom A"] ok by (auto simp: db_ok_def adb_ok_def key_order_def)
    with True ok show ?thesis by (intro exI [of _ ks]) (simp add: serve_one_def pr malformed_def lit_def)
  next
    case False
    with parse_status [of p] pr have st: "st = 0" by simp
    have args: "\<forall>s \<in> set cmd. length s \<le> k_max_msg" using parsed_args [OF _ p] pr st by blast
    from run_request_implements [OF _ args, of sv A now "fst ?b"] ok obtain ks where
      ks: "distinct ks" "set ks = dom A" and im: "implements (run_request sv now cmd (fst ?b)) (fst ?b) (run_spec now ks cmd A)"
      by (auto simp: db_ok_def)
    have "rel_option (\<lambda>(A', r) (sv', out). db_ok sv' A' \<and> out = fst ?b @ ser r \<and> length (ser r) < 2 ^ 32)
        (run_spec now ks cmd A) (run_request sv now cmd (fst ?b))"
      using im run_spec_bounds [OF _ args ks, of now] ok
      by (cases "run_spec now ks cmd A") (auto simp: implements_def db_ok_def option_rel_Some1 simp del: ser.simps)
    with ks st show ?thesis by (intro exI [of _ ks]) (simp add: serve_one_def pr key_order_def)
  qed
  then obtain ks where ks: "key_order ks A" and
    run: "rel_option (\<lambda>(A', r) (sv', out). db_ok sv' A' \<and> out = fst ?b @ ser r \<and> length (ser r) < 2 ^ 32)
      (serve_one now ks p A) ?run" by blast
  have "rel_option (\<lambda>(A', r) (sv', c', again). db_ok sv' A' \<and> again
        \<and> c' = conn\<lparr>outgoing := outgoing conn @ reply r, incoming := rest\<rparr>)
      (serve_one now ks p A) (handle_one_request sv now conn)"
    unfolding handle_one_request_frame [OF inc p] pr prod.case
    by (rule rel_then [OF run]) (use fin in \<open>auto simp del: ser.simps\<close>)
  with ks show ?thesis by blast
qed

lemma split_frames_ConsD:
  assumes "split_frames bs = (p # ps, r, bad)"
  shows "\<exists>rest. bs = frame_of p @ rest \<and> length p \<le> k_max_msg \<and> split_frames rest = (ps, r, bad)"
proof -
  let ?n = "unat (u32_of_bytes (take 4 bs))"
  from assms have len: "4 \<le> length bs" "?n \<le> k_max_msg" "4 + ?n \<le> length bs"
    and p: "p = take ?n (drop 4 bs)" and rest: "split_frames (drop (4 + ?n) bs) = (ps, r, bad)"
    by (subst (asm) split_frames.simps, auto simp: Let_def split: if_splits prod.splits)+
  have "length p = ?n" using len p by simp
  then have "u32_bytes (of_nat (length p)) = take 4 bs" using u32c.enc_dec [of "take 4 bs"] len(1) by simp
  then have "bs = frame_of p @ drop (4 + ?n) bs"
    using p by (metis append_assoc append_take_drop_id drop_drop add.commute frame_of_def)
  with len(2) rest \<open>length p = ?n\<close> show ?thesis by metis
qed

lemma handle_one_request_stops:
  assumes "split_frames (incoming conn) = ([], r, bad)"
  shows "r = incoming conn \<and>
    handle_one_request sv now conn = Some (sv, conn\<lparr>want_close := want_close conn \<or> bad\<rparr>, False)"
proof -
  have idle: "conn\<lparr>want_close := want_close conn\<rparr> = conn" by (cases conn) simp
  show ?thesis
    using assms unat_header idle
    by (subst (asm) split_frames.simps)
      (auto simp: handle_one_request_def Let_def not_less split: if_splits prod.splits)
qed

text \<open>
  The loop answers the complete frames of the buffer in order and stops; it ends for every buffer.
\<close>

lemma handle_requests_ok:
  assumes "db_ok sv A" "split_frames (incoming conn) = (ps, rest, bad)"
    and "length (outgoing conn) + length ps * 2 ^ 26 < 2 ^ 62"
  shows "\<exists>res. serves clock ps A res \<and>
    rel_option (\<lambda>(A', rs) (sv', c'). db_ok sv' A' \<and> length rs = length ps
        \<and> c' = conn\<lparr>outgoing := outgoing conn @ concat (map reply rs), incoming := rest,
                    want_close := want_close conn \<or> bad\<rparr>)
      res (handle_requests sv clock conn)"
  using assms
proof (induction ps arbitrary: sv A conn clock)
  case Nil
  have "conn\<lparr>outgoing := outgoing conn, incoming := incoming conn\<rparr> = conn" by (cases conn) simp
  with Nil handle_one_request_stops [OF Nil.prems(2)] show ?case
    by (intro exI [of _ "Some (A, [])"]) (auto intro: no_more simp: handle_requests.simps)
next
  case (Cons p ps)
  from split_frames_ConsD [OF Cons.prems(2)] obtain bs where
    bs: "incoming conn = frame_of p @ bs" "length p \<le> k_max_msg" "split_frames bs = (ps, rest, bad)" by blast
  from handle_one_request_ok [OF Cons.prems(1) bs(1,2), of "clock 0"] Cons.prems(3) obtain ks where
    ks: "key_order ks A" and
    one: "rel_option (\<lambda>(A', r) (sv', c', again). db_ok sv' A' \<and> again
        \<and> c' = conn\<lparr>outgoing := outgoing conn @ reply r, incoming := bs\<rparr>)
      (serve_one (clock 0) ks p A) (handle_one_request sv (clock 0) conn)"
    by auto
  show ?case
  proof (cases "serve_one (clock 0) ks p A")
    case None
    with one have "handle_requests sv clock conn = None" by (subst handle_requests.simps) simp
    with aborts [of ks A clock p ps] ks None show ?thesis by (intro exI [of _ None]) simp
  next
    case (Some res1)
    obtain A1 r where res1: "res1 = (A1, r)" by fastforce
    let ?c = "conn\<lparr>outgoing := outgoing conn @ reply r, incoming := bs\<rparr>"
    from rel_SomeD [OF one [unfolded Some]] res1 obtain sv1 where
      sv1: "handle_one_request sv (clock 0) conn = Some (sv1, ?c, True)" "db_ok sv1 A1" by auto
    then have code: "handle_requests sv clock conn = handle_requests sv1 (\<lambda>i. clock (Suc i)) ?c"
      by (subst handle_requests.simps) simp
    have "length (outgoing ?c) + length ps * 2 ^ 26 < 2 ^ 62"
      using Cons.prems(3) length_reply [of r] by simp
    from Cons.IH [OF sv1(2) _ this, of "\<lambda>i. clock (Suc i)"] bs(3) obtain res where
      s: "serves (\<lambda>i. clock (Suc i)) ps A1 res" and
      rest: "rel_option (\<lambda>(A', rs) (sv', c'). db_ok sv' A' \<and> length rs = length ps
        \<and> c' = ?c\<lparr>outgoing := outgoing ?c @ concat (map reply rs), incoming := rest,
                   want_close := want_close ?c \<or> bad\<rparr>) res (handle_requests sv1 (\<lambda>i. clock (Suc i)) ?c)"
      by auto
    let ?res = "map_option (\<lambda>(A', rs). (A', r # rs)) res"
    have "serves clock (p # ps) A ?res" using answers [of ks A clock p, OF ks _ s] Some res1 by simp
    moreover have "rel_option (\<lambda>(A', rs) (sv', c'). db_ok sv' A' \<and> length rs = length (p # ps)
        \<and> c' = conn\<lparr>outgoing := outgoing conn @ concat (map reply rs), incoming := rest,
                    want_close := want_close conn \<or> bad\<rparr>) ?res (handle_requests sv clock conn)"
      unfolding code option.rel_map by (rule rel_weaken [OF rest]) auto
    ultimately show ?thesis by blast
  qed
qed

section \<open>The states of a connection\<close>

text \<open>
  A connection either reads requests, with nothing left to send, or sends responses. Unless it is to
  be closed, no complete request is left in its buffer.
\<close>

definition drained :: "bytes \<Rightarrow> bool" where
  "drained bs \<longleftrightarrow> split_frames bs = ([], bs, False)"

lemma drained_Nil [simp]: "drained []"
  by (simp add: drained_def split_frames.simps)

lemma drained_length: "drained bs \<Longrightarrow> length bs < 4 + k_max_msg"
  using split_frames_rest by (auto simp: drained_def)

lemma drained_rest: "split_frames bs = (ps, r, False) \<Longrightarrow> drained r"
proof (induction ps arbitrary: bs)
  case Nil
  then have "r = bs" by (subst (asm) split_frames.simps) (auto simp: Let_def split: if_splits prod.splits)
  with Nil show ?case by (simp add: drained_def)
next
  case (Cons p ps)
  with split_frames_ConsD [of bs p ps r False] show ?case by blast
qed

definition flags_ok :: "Connection \<Rightarrow> bool" where
  "flags_ok c \<longleftrightarrow> want_write c = (\<not> want_read c) \<and> want_read c = (outgoing c = [])"

definition conn_ok :: "Connection \<Rightarrow> bool" where
  "conn_ok c \<longleftrightarrow> flags_ok c \<and> (want_close c \<or> drained (incoming c))"

text \<open>A write cuts the output in two: what the kernel took and what stays.\<close>

definition unsent :: "write_result \<Rightarrow> bytes \<Rightarrow> bytes" where
  "unsent w out = (case w of Wrote n \<Rightarrow> drop n out | _ \<Rightarrow> out)"

definition taken :: "write_result \<Rightarrow> bytes \<Rightarrow> bytes" where
  "taken w out = (case w of Wrote n \<Rightarrow> take n out | _ \<Rightarrow> [])"

lemma taken_unsent [simp]: "taken w out @ unsent w out = out"
  by (simp add: taken_def unsent_def split: write_result.splits)

text \<open>The bytes that the write attempted by \<open>handle_read\<close> hands to the kernel.\<close>

definition sent_by_read :: "server \<Rightarrow> (nat \<Rightarrow> u64) \<Rightarrow> read_result \<Rightarrow> write_result \<Rightarrow> Connection \<Rightarrow> bytes" where
  "sent_by_read sv clock r w c =
     (case r of
        Read_data buf \<Rightarrow>
          (case handle_requests sv clock (c\<lparr>incoming := append_buffer (incoming c) buf\<rparr>) of
             None \<Rightarrow> [] | Some (sv, c) \<Rightarrow> taken w (outgoing c))
      | _ \<Rightarrow> [])"

lemma handle_write_ok:
  assumes "conn_ok c" "want_write c"
  shows "\<exists>c'. handle_write w c = Some c' \<and> conn_ok c' \<and> incoming c' = incoming c
    \<and> socket_fd c' = socket_fd c \<and> last_activity_ms c' = last_activity_ms c
    \<and> outgoing c' = unsent w (outgoing c)
    \<and> want_close c' = (want_close c \<or> w = Write_error)"
  using assms
  by (cases w) (auto simp: unsent_def handle_write_def conn_ok_def flags_ok_def consume_buffer_def Let_def)

text \<open>The end of \<open>handle_read\<close>: the answers are in the buffer, a first write is tried.\<close>

lemma reply_nonempty: "concat (map reply rs) = [] \<longleftrightarrow> rs = []"
proof -
  have "reply r \<noteq> []" for r using u32c.length_enc by (auto simp: frame_of_def simp flip: length_greater_0_conv)
  then show ?thesis by (cases rs) auto
qed

lemma handle_read_finish:
  fixes rs :: "resp list"
  assumes c: "conn_ok c" "want_read c" and rest: "bad \<or> drained rest"
  defines "d \<equiv> c\<lparr>incoming := rest, outgoing := concat (map reply rs), want_close := bad\<rparr>"
  shows "\<exists>c'. (if outgoing d \<noteq> [] then handle_write w (d\<lparr>want_read := False, want_write := True\<rparr>) else Some d) = Some c'
    \<and> conn_ok c' \<and> incoming c' = rest \<and> socket_fd c' = socket_fd c \<and> last_activity_ms c' = last_activity_ms c
    \<and> outgoing c' = unsent w (concat (map reply rs)) \<and> want_close c' = (bad \<or> rs \<noteq> [] \<and> w = Write_error)"
proof (cases "rs = []")
  case True
  then have "conn_ok d" using c rest by (simp add: conn_ok_def flags_ok_def d_def)
  with True show ?thesis by (cases w) (auto simp: unsent_def d_def)
next
  case False
  let ?e = "d\<lparr>want_read := False, want_write := True\<rparr>"
  have ne: "concat (map reply rs) \<noteq> []" using False reply_nonempty by blast
  then have "conn_ok ?e" "want_write ?e" using rest by (simp_all add: conn_ok_def flags_ok_def d_def)
  from handle_write_ok [OF this, of w] ne False show ?thesis by (auto simp: d_def)
qed

lemma handle_read_ok:
  assumes ok: "db_ok sv A" and c: "conn_ok c" "want_read c" "\<not> want_close c" and buf: "length buf \<le> 65536"
    and sp: "split_frames (incoming c @ buf) = (ps, rest, bad)"
  shows "\<exists>res. serves clock ps A res \<and>
    rel_option (\<lambda>(A', rs) (sv', c'). db_ok sv' A' \<and> length rs = length ps \<and> conn_ok c'
        \<and> incoming c' = rest \<and> socket_fd c' = socket_fd c \<and> last_activity_ms c' = last_activity_ms c
        \<and> outgoing c' = unsent w (concat (map reply rs)) \<and> want_close c' = (bad \<or> rs \<noteq> [] \<and> w = Write_error)
        \<and> sent_by_read sv clock (Read_data buf) w c = taken w (concat (map reply rs)))
      res (handle_read sv clock (Read_data buf) w c)"
proof -
  let ?c = "c\<lparr>incoming := incoming c @ buf\<rparr>"
  have out: "outgoing c = []" using c by (simp add: conn_ok_def flags_ok_def)
  have "length (incoming c @ buf) < 4 + k_max_msg + 65537" using c buf drained_length by (fastforce simp: conn_ok_def)
  with split_frames_length [OF sp] have "length ps < 2 ^ 30" by (simp add: k_max_msg_def)
  then have room: "length (outgoing ?c) + length ps * 2 ^ 26 < 2 ^ 62" using out by simp
  have rest: "bad \<or> drained rest"
    using drained_rest [of "incoming c @ buf" ps rest] sp by (cases bad) auto
  have sp': "split_frames (incoming ?c) = (ps, rest, bad)" using sp by simp
  from handle_requests_ok [OF ok sp' room, of clock] obtain res where
    s: "serves clock ps A res" and
    r: "rel_option (\<lambda>(A', rs) (sv', c'). db_ok sv' A' \<and> length rs = length ps
        \<and> c' = ?c\<lparr>outgoing := outgoing ?c @ concat (map reply rs), incoming := rest,
                   want_close := want_close ?c \<or> bad\<rparr>) res (handle_requests sv clock ?c)"
    by blast
  have r': "rel_option (\<lambda>(A', rs) (sv', c'). db_ok sv' A' \<and> length rs = length ps
        \<and> c' = ?c\<lparr>outgoing := outgoing ?c @ concat (map reply rs), incoming := rest,
                   want_close := want_close ?c \<or> bad\<rparr>
        \<and> sent_by_read sv clock (Read_data buf) w c = taken w (concat (map reply rs)))
      res (handle_requests sv clock ?c)"
    using r out by (cases "handle_requests sv clock ?c") (auto simp: sent_by_read_def append_buffer_def option_rel_Some2)
  have "handle_read sv clock (Read_data buf) w c = do {
      (sv, d) \<leftarrow> handle_requests sv clock ?c;
      d \<leftarrow> (if outgoing d \<noteq> [] then handle_write w (d\<lparr>want_read := False, want_write := True\<rparr>) else Some d);
      Some (sv, d) }"
    by (cases "handle_requests sv clock ?c") (auto simp: handle_read_def append_buffer_def)
  moreover have "rel_option (\<lambda>(A', rs) (sv', c'). db_ok sv' A' \<and> length rs = length ps \<and> conn_ok c'
        \<and> incoming c' = rest \<and> socket_fd c' = socket_fd c \<and> last_activity_ms c' = last_activity_ms c
        \<and> outgoing c' = unsent w (concat (map reply rs)) \<and> want_close c' = (bad \<or> rs \<noteq> [] \<and> w = Write_error)
        \<and> sent_by_read sv clock (Read_data buf) w c = taken w (concat (map reply rs)))
      res \<dots>"
  proof (rule rel_then [OF r'], clarify, goal_cases)
    case (1 A' rs sv')
    have d: "?c\<lparr>outgoing := outgoing ?c @ concat (map reply rs), incoming := rest, want_close := want_close ?c \<or> bad\<rparr>
        = c\<lparr>incoming := rest, outgoing := concat (map reply rs), want_close := bad\<rparr>"
      using out c(3) by (cases c) simp
    from handle_read_finish [OF c(1,2) rest, of rs w] 1 show ?case
      unfolding d prod.case by (elim exE conjE) (intro exI [of _ "(sv', _)"], simp only: bind.bind_lunit prod.case simp_thms)
  qed
  ultimately show ?thesis using s by auto
qed

end
