(* ===== verification/Timers.thy ===== *)
theory Timers
  imports Bounds
begin

text \<open>
  Expiry of keys, the second half of \<open>process_timers\<close> in \<open>core/sys_server.cpp\<close>. On the abstract
  database it removes exactly the keys whose deadline has passed; the limit on the work of one call
  is never reached, since the database cannot hold that many keys.
\<close>

section \<open>The loop of the source\<close>

definition hnode_same :: "addr \<Rightarrow> addr \<Rightarrow> bool option" where
  "hnode_same key node = Some (node = key)"

text \<open>
  The head of the heap is taken out of the heap and of the map; the result has the entry and the node
  that the map gave up. A node other than that of the entry makes the source print a warning.
\<close>

definition expire_unlink :: "server \<Rightarrow> HeapItem \<Rightarrow> (server \<times> addr \<times> ptr) option" where
  "expire_unlink sv item = do {
     entry \<leftarrow> ref item;
     (heap, refs) \<leftarrow> heap_delete (ttls sv) (idxs sv) 0;
     refs \<leftarrow> wr refs entry (\<lambda>_. npos);
     (let sv = sv\<lparr>ttls := heap, idxs := refs\<rparr> in do {
        hc \<leftarrow> rd (shns sv) hash_code entry;
        (h, d, node) \<leftarrow> hm_delete (shns sv) (db sv) hc (hnode_same entry);
        Some ((set_shns sv h)\<lparr>db := d\<rparr>, entry, node)
      })
   }"

definition expire_head :: "server \<Rightarrow> u64 \<Rightarrow> HeapItem \<Rightarrow> server option" where
  "expire_head sv now_ms item = do {
     (sv, entry, node) \<leftarrow> expire_unlink sv item;
     entry_del sv now_ms entry
   }"

partial_function (option) expire_loop :: "server \<Rightarrow> u64 \<Rightarrow> nat \<Rightarrow> server option" where
  "expire_loop sv now_ms num_works =
     (case ttls sv of
        [] \<Rightarrow> Some sv
      | item # _ \<Rightarrow>
          if val item \<le> now_ms then do {
            sv \<leftarrow> expire_head sv now_ms item;
            if wrap64 (num_works + 1) \<ge> k_max_works then Some sv
            else expire_loop sv now_ms (wrap64 (num_works + 1))
          }
          else Some sv)"

declare expire_loop.simps [code]

lemmas timers_defs [eval_simps] = hnode_same_def expire_unlink_def expire_head_def expire_loop.simps

section \<open>Correctness\<close>

definition expired :: "u64 \<Rightarrow> aentry \<Rightarrow> bool" where
  "expired now e \<longleftrightarrow> (case a_ttl e of None \<Rightarrow> False | Some d \<Rightarrow> d \<le> now)"

definition expire :: "u64 \<Rightarrow> adb \<Rightarrow> adb" where
  "expire now A = (\<lambda>k. case A k of None \<Rightarrow> None | Some e \<Rightarrow> if expired now e then None else Some e)"

lemma expire_del: "A k = Some e \<Longrightarrow> expired now e \<Longrightarrow> expire now (A(k := None)) = expire now A"
  by (auto simp: expire_def)

lemma expire_head_ok:
  assumes inv: "sv_inv sv N T" and abs: "abs_ok sv N T A" and pl: "pool sv = []" and hd: "ttls sv = x # h"
    and now: "val x \<le> now"
  shows "\<exists>sv' k e. expire_head sv now x = Some sv' \<and> server_ok sv' (A(k := None)) \<and> A k = Some e \<and> expired now e
    \<and> (\<exists>sv1 a. expire_unlink sv x = Some (sv1, a, Some a))"
proof -
  note D = sv_invD [OF inv]
  have refs: "refs_ok (ttls sv) (idxs sv)" and cN: "cells (ttls sv) \<subseteq> N" using D(5) by (auto simp: ttl_ok_def)
  from refs hd obtain a where a: "ref x = Some a" "idxs sv a = Some 0" by (auto simp: refs_ok_def)
  have ac: "a \<in> cells (ttls sv)" using a(1) hd by (auto simp: cells_def)
  then have aN: "a \<in> N" using cN by blast
  have dl: "deadline (ttls sv) a = Some (val x)" using deadline_item [OF refs, of x a] hd a(1) by simp
  from entry_set_ttl_ok [OF inv abs aN refl, of now "-1"] obtain tt r where
    t: "entry_set_ttl sv now a (-1) = Some (sv\<lparr>ttls := tt, idxs := r\<rparr>)"
      "sv_inv (sv\<lparr>ttls := tt, idxs := r\<rparr>) N T"
      "abs_ok (sv\<lparr>ttls := tt, idxs := r\<rparr>) N T (A(key_of sv a \<mapsto> (aent sv T a)\<lparr>a_ttl := None\<rparr>))"
    by auto
  let ?s = "sv\<lparr>ttls := tt, idxs := r\<rparr>" and ?k = "key_of sv a"
  have head: "do { (heap, refs) \<leftarrow> heap_delete (ttls sv) (idxs sv) 0; refs \<leftarrow> wr refs a (\<lambda>_. npos);
      Some (sv\<lparr>ttls := heap, idxs := refs\<rparr>) } = Some ?s"
    using t(1) a(2) by (simp add: entry_set_ttl_def npos_def)
  then obtain heap refs1 refs2 where
    hr: "heap_delete (ttls sv) (idxs sv) 0 = Some (heap, refs1)" "wr refs1 a (\<lambda>_. npos) = Some refs2"
      "sv\<lparr>ttls := heap, idxs := refs2\<rparr> = ?s"
    by (auto split: bind_splits)
  have hash: "hash_of (shns ?s) a = Some (string_hash ?k)" using entry_keys(2) [OF inv] aN by simp
  have eq: "\<forall>b \<in> N. hnode_same a b = Some (b = a)" by (simp add: hnode_same_def)
  from hm_delete_small [OF sv_invD(1) [OF t(2)] eq, of "string_hash ?k"] obtain h' d p where
    d: "hm_delete (shns ?s) (db ?s) (string_hash ?k) (hnode_same a) = Some (h', d, p)"
      "hm_small h' d (N - set_option p)" "moved (shns ?s) h' N" "found (shns ?s) N (string_hash ?k) (\<lambda>b. b = a) p"
    by blast
  have "p = Some a" using d(4) hash aN by (auto simp: found_def split: option.splits)
  with d(2) have small: "hm_small h' d (N - {a})" by simp
  from entry_del_ok [OF t(2,3) aN small d(3), of now] obtain sv' where
    e: "entry_del (?s\<lparr>smem := (smem ?s)\<lparr>hns := h'\<rparr>, db := d\<rparr>) now a = Some sv'" "sv_inv sv' (N - {a}) T"
      "abs_ok sv' (N - {a}) T (A(?k \<mapsto> (aent sv T a)\<lparr>a_ttl := None\<rparr>, key_of ?s a := None))" "pool sv' = pool ?s"
    by blast
  have key: "key_of ?s a = ?k" by (simp add: key_of_def)
  have u: "expire_unlink sv x = Some (?s\<lparr>smem := (smem ?s)\<lparr>hns := h'\<rparr>, db := d\<rparr>, a, p)"
    using a(1) hr hash d(1) by (simp add: expire_unlink_def Let_def)
  then have "expire_head sv now x = Some sv'" using e(1) by (simp add: expire_head_def)
  moreover have "server_ok sv' (A(?k := None))" using server_okI [OF e(2,3)] e(4) pl key by simp
  moreover have "A ?k = Some (aent sv T a)" using abs aN by (simp add: abs_ok_def)
  moreover have "expired now (aent sv T a)" using dl now by (simp add: expired_def aent_def Let_def)
  ultimately show ?thesis using u \<open>p = Some a\<close> by blast
qed

text \<open>Nothing has expired once the least deadline lies in the future.\<close>

lemma expire_idle:
  assumes inv: "sv_inv sv N T" and abs: "abs_ok sv N T A"
    and top: "case ttls sv of [] \<Rightarrow> True | x # _ \<Rightarrow> now < val x"
  shows "expire now A = A"
proof -
  have heap: "heap_ok (ttls sv)" "refs_ok (ttls sv) (idxs sv)" using sv_invD(5) [OF inv] by (auto simp: ttl_ok_def)
  have "\<not> expired now e" if e: "A k = Some e" for k e
  proof -
    from abs e obtain a where a: "a \<in> N" "k = key_of sv a" by (auto simp: abs_ok_def dom_def)
    with abs e have ttl: "a_ttl e = deadline (ttls sv) a" by (auto simp: abs_ok_def aent_def Let_def)
    show ?thesis
    proof (cases "a \<in> cells (ttls sv)")
      case False
      then have "deadline (ttls sv) a = None" using deadline_None by metis
      with ttl show ?thesis by (simp add: expired_def)
    next
      case True
      from deadline_index [OF heap(2) True] obtain i where
        i: "i < length (ttls sv)" "deadline (ttls sv) a = Some (val (ttls sv ! i))" by blast
      have "now < val (ttls sv ! 0)" using top i(1) by (cases "ttls sv") auto
      with heap_root_min [OF heap(1) i(1)] ttl i(2) show ?thesis by (auto simp: expired_def)
    qed
  qed
  then show ?thesis by (auto simp: expire_def fun_eq_iff split: option.splits)
qed

lemma card_del_less: "finite (dom A) \<Longrightarrow> A k = Some e \<Longrightarrow> card (dom (A(k := None))) < card (dom A)"
  using card_gt_0_iff [of "dom A"] by (auto simp: domIff)

lemma expire_loop_ok:
  assumes "server_ok sv A" "finite (dom A)" "n + card (dom A) \<le> full"
  shows "\<exists>sv'. expire_loop sv now n = Some sv' \<and> server_ok sv' (expire now A)"
  using assms
proof (induction "card (dom A)" arbitrary: sv A n rule: less_induct)
  case less
  from less.prems(1) obtain N T where inv: "sv_inv sv N T" "abs_ok sv N T A" and pl: "pool sv = []"
    by (rule server_okE)
  show ?case
  proof (cases "case ttls sv of [] \<Rightarrow> True | x # _ \<Rightarrow> now < val x")
    case True
    with expire_idle [OF inv True] less.prems(1) show ?thesis
      by (subst expire_loop.simps) (auto split: list.splits)
  next
    case False
    then obtain x h where x: "ttls sv = x # h" "val x \<le> now" by (auto split: list.splits)
    from expire_head_ok [OF inv pl x] obtain sv1 k e where
      s: "expire_head sv now x = Some sv1" "server_ok sv1 (A(k := None))" "A k = Some e" "expired now e" by blast
    have c: "card (dom (A(k := None))) < card (dom A)" by (rule card_del_less [OF less.prems(2) s(3)])
    then have n: "n + 1 + card (dom (A(k := None))) \<le> full" using less.prems(3) by simp
    then have w: "wrap64 (n + 1) = n + 1" "n + 1 < k_max_works" by (simp_all add: full_def k_max_works_def)
    from less.hyps [OF c s(2) _ n] less.prems(2) obtain sv' where
      "expire_loop sv1 now (n + 1) = Some sv'" "server_ok sv' (expire now (A(k := None)))"
      by auto
    with s x w expire_del [of A k e now] show ?thesis by (subst expire_loop.simps) simp
  qed
qed

lemma adb_ok_expire: "adb_ok A \<Longrightarrow> adb_ok (expire now A)"
proof -
  assume ok: "adb_ok A"
  have sub: "dom (expire now A) \<subseteq> dom A" by (auto simp: expire_def split: option.splits)
  moreover have "card (dom (expire now A)) \<le> full"
    using card_mono [OF _ sub] ok by (auto simp: adb_ok_def)
  moreover have "A k = Some e" if "expire now A k = Some e" for k e
    using that by (auto simp: expire_def split: option.splits if_splits)
  ultimately show ?thesis using ok finite_subset unfolding adb_ok_def by blast
qed

end
