(* ===== verification/DList.thy ===== *)
theory DList
  imports Prelude
begin

text \<open>
  The intrusive doubly linked list of \<open>storage/list.h\<close>, a ring through a list head. \<open>ring h L xs\<close>
  says that the nodes after the head \<open>L\<close> are \<open>xs\<close>, in order. The users of the list, the idle timers,
  see it through the contract \<open>activity_list\<close>.
\<close>

section \<open>The list of the source\<close>

record DList =
  dprev :: ptr
  dnext :: ptr

type_synonym dl_heap = "DList store"

definition dlist_init :: "dl_heap \<Rightarrow> addr \<Rightarrow> dl_heap option" where
  "dlist_init h list = do {
     h \<leftarrow> wr h list (\<lambda>n. n\<lparr>dnext := Some list\<rparr>);
     wr h list (\<lambda>n. n\<lparr>dprev := Some list\<rparr>)
   }"

definition dlist_empty :: "dl_heap \<Rightarrow> addr \<Rightarrow> bool option" where
  "dlist_empty h list = do { n \<leftarrow> rd h dnext list; Some (n = Some list) }"

definition dlist_detach :: "dl_heap \<Rightarrow> addr \<Rightarrow> dl_heap option" where
  "dlist_detach h node = do {
     p \<leftarrow> rd h dprev node;
     prev \<leftarrow> p;
     n \<leftarrow> rd h dnext node;
     h \<leftarrow> wr h prev (\<lambda>x. x\<lparr>dnext := n\<rparr>);
     n \<leftarrow> rd h dnext node;
     next \<leftarrow> n;
     p \<leftarrow> rd h dprev node;
     wr h next (\<lambda>x. x\<lparr>dprev := p\<rparr>)
   }"

definition dlist_insert_before :: "dl_heap \<Rightarrow> addr \<Rightarrow> addr \<Rightarrow> dl_heap option" where
  "dlist_insert_before h target rookie = do {
     p \<leftarrow> rd h dprev target;
     prev \<leftarrow> p;
     h \<leftarrow> wr h prev (\<lambda>x. x\<lparr>dnext := Some rookie\<rparr>);
     p \<leftarrow> rd h dprev target;
     h \<leftarrow> wr h rookie (\<lambda>x. x\<lparr>dprev := p\<rparr>);
     h \<leftarrow> wr h rookie (\<lambda>x. x\<lparr>dnext := Some target\<rparr>);
     wr h target (\<lambda>x. x\<lparr>dprev := Some rookie\<rparr>)
   }"

lemmas dlist_defs [eval_simps] = dlist_init_def dlist_empty_def dlist_detach_def dlist_insert_before_def

section \<open>Linked segments\<close>

abbreviation nxt :: "dl_heap \<Rightarrow> addr \<Rightarrow> ptr" where
  "nxt h a \<equiv> Option.bind (h a) dnext"

abbreviation prv :: "dl_heap \<Rightarrow> addr \<Rightarrow> ptr" where
  "prv h a \<equiv> Option.bind (h a) dprev"

fun linked :: "dl_heap \<Rightarrow> addr \<Rightarrow> addr list \<Rightarrow> addr \<Rightarrow> bool" where
  "linked h a [] b \<longleftrightarrow> nxt h a = Some b \<and> prv h b = Some a"
| "linked h a (x # xs) b \<longleftrightarrow> nxt h a = Some x \<and> prv h x = Some a \<and> linked h x xs b"

definition ring :: "dl_heap \<Rightarrow> addr \<Rightarrow> addr list \<Rightarrow> bool" where
  "ring h L xs \<longleftrightarrow> linked h L xs L \<and> distinct (L # xs)"

lemma linked_append: "linked h a (xs @ x # ys) b \<longleftrightarrow> linked h a xs x \<and> linked h x ys b"
  by (induction xs arbitrary: a) auto

lemma linked_last: "linked h a xs b \<Longrightarrow> nxt h (last (a # xs)) = Some b \<and> prv h b = Some (last (a # xs))"
  by (induction xs arbitrary: a) auto

lemma linked_first: "linked h a xs b \<Longrightarrow> nxt h a = Some (hd (xs @ [b])) \<and> prv h (hd (xs @ [b])) = Some a"
  by (cases xs) auto

lemma linked_cong:
  assumes "linked h a xs b" "\<And>y. y \<in> insert a (set xs) \<Longrightarrow> nxt h' y = nxt h y"
    "\<And>y. y \<in> insert b (set xs) \<Longrightarrow> prv h' y = prv h y"
  shows "linked h' a xs b"
  using assms by (induction xs arbitrary: a) auto

text \<open>Letting the end of a segment point elsewhere.\<close>

lemma linked_retarget:
  assumes "linked h a xs b" "distinct (a # xs)" "nxt h' (last (a # xs)) = Some c" "prv h' c = Some (last (a # xs))"
    "\<And>y. y \<in> insert a (set xs) \<Longrightarrow> y \<noteq> last (a # xs) \<Longrightarrow> nxt h' y = nxt h y"
    "\<And>y. y \<in> set xs \<Longrightarrow> prv h' y = prv h y"
  shows "linked h' a xs c"
  using assms
proof (induction xs arbitrary: a)
  case (Cons x xs)
  have "linked h' x xs c"
    by (rule Cons.IH) (use Cons.prems in auto)
  moreover have "a \<noteq> last (x # xs)" using Cons.prems(2) last_in_set [of "x # xs"] by auto
  ultimately show ?case using Cons.prems by auto
qed simp

lemma nxt_Some: "nxt h a = Some b \<Longrightarrow> \<exists>n. h a = Some n \<and> dnext n = Some b"
  by (cases "h a") auto

lemma prv_Some: "prv h a = Some b \<Longrightarrow> \<exists>n. h a = Some n \<and> dprev n = Some b"
  by (cases "h a") auto

text \<open>The effect of the two operations on the links.\<close>

lemma detach_links:
  assumes "prv h x = Some p" "nxt h x = Some n" "h p \<noteq> None" "h n \<noteq> None" "p \<noteq> x" "n \<noteq> x"
  shows "\<exists>h'. dlist_detach h x = Some h' \<and> (\<forall>y. nxt h' y = (if y = p then Some n else nxt h y))
    \<and> (\<forall>y. prv h' y = (if y = n then Some p else prv h y)) \<and> (\<forall>y. y \<noteq> p \<longrightarrow> y \<noteq> n \<longrightarrow> h' y = h y)
    \<and> (\<forall>y. (h' y = None) = (h y = None))"
proof -
  from assms obtain xn pn nn where n: "h x = Some xn" "h p = Some pn" "h n = Some nn"
    and x: "dprev xn = Some p" "dnext xn = Some n"
    by (cases "h x") auto
  then show ?thesis using assms by (cases "p = n") (auto simp: dlist_detach_def)
qed

lemma insert_links:
  assumes "prv h L = Some p" "h p \<noteq> None" "h r \<noteq> None" "r \<noteq> L" "r \<noteq> p"
  shows "\<exists>h'. dlist_insert_before h L r = Some h'
    \<and> (\<forall>y. nxt h' y = (if y = r then Some L else if y = p then Some r else nxt h y))
    \<and> (\<forall>y. prv h' y = (if y = L then Some r else if y = r then Some p else prv h y))
    \<and> (\<forall>y. y \<noteq> p \<longrightarrow> y \<noteq> L \<longrightarrow> y \<noteq> r \<longrightarrow> h' y = h y)
    \<and> (\<forall>y. (h' y = None) = (h y = None))"
proof -
  from assms obtain ln pn rn where n: "h L = Some ln" "h p = Some pn" "h r = Some rn" and l: "dprev ln = Some p"
    by (cases "h L") auto
  then show ?thesis using assms by (cases "p = L") (auto simp: dlist_insert_before_def)
qed

section \<open>Rings\<close>

lemma ring_init:
  assumes "h L \<noteq> None"
  shows "\<exists>h'. dlist_init h L = Some h' \<and> ring h' L []"
  using assms by (auto simp: dlist_init_def ring_def)

lemma ring_empty:
  assumes "ring h L xs"
  shows "dlist_empty h L = Some (xs = [])"
proof -
  from assms have l: "linked h L xs L" and d: "distinct (L # xs)" by (auto simp: ring_def)
  from linked_first [OF l] obtain n where "h L = Some n" "dnext n = Some (hd (xs @ [L]))"
    using nxt_Some by blast
  moreover have "hd (xs @ [L]) = L \<longleftrightarrow> xs = []" using d by (cases xs) auto
  ultimately show ?thesis by (simp add: dlist_empty_def)
qed

lemma ring_first: "ring h L (x # xs) \<Longrightarrow> rd h dnext L = Some (Some x)"
  by (auto simp: ring_def dest: nxt_Some)

lemma linked_nodes: "linked h a xs b \<Longrightarrow> y \<in> insert b (set xs) \<Longrightarrow> h y \<noteq> None"
  by (induction xs arbitrary: a) (auto dest: prv_Some)

lemma ring_nodes: "ring h L xs \<Longrightarrow> y \<in> insert L (set xs) \<Longrightarrow> h y \<noteq> None"
  using linked_nodes by (auto simp: ring_def)

lemma ring_detach:
  assumes "ring h L (xs @ x # ys)"
  shows "\<exists>h'. dlist_detach h x = Some h' \<and> ring h' L (xs @ ys)
    \<and> (\<forall>y. y \<notin> insert L (set (xs @ ys)) \<longrightarrow> h' y = h y)"
proof -
  from assms have l: "linked h L xs x" "linked h x ys L" and d: "distinct (L # xs @ x # ys)"
    by (auto simp: ring_def linked_append)
  define p n where p: "p = last (L # xs)" and n: "n = hd (ys @ [L])"
  have pin: "p \<in> insert L (set xs)" unfolding p by auto
  have nin: "n \<in> insert L (set ys)" unfolding n by (cases ys) auto
  have nodes: "h p \<noteq> None" "h n \<noteq> None"
    using ring_nodes [OF assms, of p] ring_nodes [OF assms, of n] pin nin by auto
  have ne: "p \<noteq> x" "n \<noteq> x" using pin nin d by auto
  have links: "prv h x = Some p" "nxt h x = Some n"
    using linked_last [OF l(1)] linked_first [OF l(2)] unfolding p n by blast+
  from detach_links [OF links nodes ne] obtain h' where
    h': "dlist_detach h x = Some h'" "\<forall>y. nxt h' y = (if y = p then Some n else nxt h y)"
      "\<forall>y. prv h' y = (if y = n then Some p else prv h y)" "\<forall>y. y \<noteq> p \<longrightarrow> y \<noteq> n \<longrightarrow> h' y = h y"
    by (elim exE conjE)
  note nx = h'(2) [rule_format] and pv = h'(3) [rule_format]
  have n_notin: "n \<notin> set xs" using nin d by auto
  have first: "linked h' L xs n"
    by (rule linked_retarget [OF l(1)]) (use d n_notin p in \<open>auto simp: nx pv\<close>)
  have "linked h' L (xs @ ys) L"
  proof (cases ys)
    case Nil
    with first n show ?thesis by simp
  next
    case (Cons y ys')
    have "linked h' y ys' L"
    proof (rule linked_cong [of h])
      show "linked h y ys' L" using l(2) Cons by simp
    qed (use d pin Cons n in \<open>auto simp: nx pv\<close>)
    with first Cons n show ?thesis by (simp add: linked_append)
  qed
  moreover have "h' y = h y" if "y \<notin> insert L (set (xs @ ys))" for y
  proof -
    have "y \<noteq> p" "y \<noteq> n" using pin nin that by auto
    with h'(4) show ?thesis by blast
  qed
  ultimately show ?thesis using d h'(1) by (auto simp: ring_def)
qed

lemma ring_insert:
  assumes "ring h L xs" "h r \<noteq> None" "r \<notin> insert L (set xs)"
  shows "\<exists>h'. dlist_insert_before h L r = Some h' \<and> ring h' L (xs @ [r])
    \<and> (\<forall>y. y \<notin> insert L (insert r (set xs)) \<longrightarrow> h' y = h y)"
proof -
  let ?p = "last (L # xs)"
  from assms(1) have l: "linked h L xs L" and d: "distinct (L # xs)" by (auto simp: ring_def)
  have pin: "?p \<in> insert L (set xs)" by auto
  have node: "h ?p \<noteq> None" using ring_nodes [OF assms(1) pin] .
  have ne: "r \<noteq> L" "r \<noteq> ?p" using assms(3) pin by auto
  from insert_links [OF conjunct2 [OF linked_last [OF l]] node assms(2) ne] obtain h' where
    h': "dlist_insert_before h L r = Some h'"
      "\<forall>y. nxt h' y = (if y = r then Some L else if y = ?p then Some r else nxt h y)"
      "\<forall>y. prv h' y = (if y = L then Some r else if y = r then Some ?p else prv h y)"
      "\<forall>y. y \<noteq> ?p \<longrightarrow> y \<noteq> L \<longrightarrow> y \<noteq> r \<longrightarrow> h' y = h y"
    by (elim exE conjE)
  note nx = h'(2) [rule_format] and pv = h'(3) [rule_format]
  have "linked h' L xs r"
    by (rule linked_retarget [OF l]) (use d assms(3) pin in \<open>auto simp: nx pv\<close>)
  moreover have "linked h' r [] L" by (simp add: nx pv)
  ultimately have "ring h' L (xs @ [r])" using d assms(3) by (auto simp: ring_def linked_append)
  moreover have "h' y = h y" if "y \<notin> insert L (insert r (set xs))" for y
  proof -
    have "y \<noteq> ?p" "y \<noteq> L" "y \<noteq> r" using pin that by auto
    with h'(4) show ?thesis by blast
  qed
  ultimately show ?thesis using h'(1) by blast
qed

section \<open>The contract of an activity list\<close>

text \<open>
  What the idle timers rely on: elements are appended at the end and removed anywhere. Moving an
  element to the end whenever its time stamp is renewed keeps the list in the order of the stamps,
  so the head is always the element that has been idle longest.
\<close>

locale activity_list =
  fixes inv :: "'h \<Rightarrow> 'n list \<Rightarrow> bool"
    and fresh :: "'h \<Rightarrow> 'n \<Rightarrow> bool"
    and push :: "'h \<Rightarrow> 'n \<Rightarrow> 'h option"
    and remove :: "'h \<Rightarrow> 'n \<Rightarrow> 'h option"
  assumes inv_distinct: "inv h xs \<Longrightarrow> distinct xs"
    and push_ok: "inv h xs \<Longrightarrow> fresh h x \<Longrightarrow> x \<notin> set xs \<Longrightarrow> \<exists>h'. push h x = Some h' \<and> inv h' (xs @ [x])"
    and remove_ok: "inv h xs \<Longrightarrow> x \<in> set xs \<Longrightarrow>
      \<exists>h'. remove h x = Some h' \<and> inv h' (remove1 x xs) \<and> fresh h' x"
begin

lemma touch_ok:
  assumes "inv h xs" "x \<in> set xs"
  shows "\<exists>h'. do { h \<leftarrow> remove h x; push h x } = Some h' \<and> inv h' (remove1 x xs @ [x])"
proof -
  from remove_ok [OF assms] obtain h1 where
    h1: "remove h x = Some h1" "inv h1 (remove1 x xs)" "fresh h1 x" by blast
  have "x \<notin> set (remove1 x xs)" using inv_distinct [OF assms(1)] by simp
  from push_ok [OF h1(2,3) this] h1(1) show ?thesis by auto
qed

lemma touch_sorted:
  fixes stamp :: "'n \<Rightarrow> 'k::linorder"
  assumes "inv h xs" "x \<in> set xs" "sorted (map stamp xs)" "\<forall>y \<in> set xs. stamp y \<le> now"
  shows "sorted (map (stamp(x := now)) (remove1 x xs @ [x]))"
    "\<forall>y \<in> set (remove1 x xs @ [x]). (stamp(x := now)) y \<le> now"
proof -
  have d: "distinct xs" by (rule inv_distinct [OF assms(1)])
  then have nin: "x \<notin> set (remove1 x xs)" by simp
  have "map (stamp(x := now)) (remove1 x xs) = map stamp (remove1 x xs)"
    using nin by (intro map_cong) auto
  moreover have "sorted (map stamp (remove1 x xs))"
    using assms(3) d by (simp add: sorted_map_remove1)
  ultimately show "sorted (map (stamp(x := now)) (remove1 x xs @ [x]))"
    using assms(4) nin by (auto simp: sorted_append set_remove1_eq [OF d])
  show "\<forall>y \<in> set (remove1 x xs @ [x]). (stamp(x := now)) y \<le> now"
    using assms(4) d by (auto simp: set_remove1_eq [OF d])
qed

lemma push_sorted:
  fixes stamp :: "'n \<Rightarrow> 'k::linorder"
  assumes "x \<notin> set xs" "sorted (map stamp xs)" "\<forall>y \<in> set xs. stamp y \<le> now"
  shows "sorted (map (stamp(x := now)) (xs @ [x]))"
proof -
  have "map (stamp(x := now)) xs = map stamp xs" using assms(1) by (intro map_cong) auto
  with assms show ?thesis by (auto simp: sorted_append)
qed

end

definition idle_conn_list :: addr where
  "idle_conn_list = 0"

definition fresh_node :: "dl_heap \<Rightarrow> addr \<Rightarrow> bool" where
  "fresh_node h x \<longleftrightarrow> h x \<noteq> None \<and> x \<noteq> idle_conn_list"

lemma remove1_split: "x \<notin> set xs \<Longrightarrow> remove1 x (xs @ x # ys) = xs @ ys"
  by (simp add: remove1_append)

interpretation idle: activity_list "\<lambda>h. ring h idle_conn_list" fresh_node
  "\<lambda>h. dlist_insert_before h idle_conn_list" dlist_detach
proof (unfold_locales, goal_cases)
  case (1 h xs)
  then show ?case by (simp add: ring_def)
next
  case (2 h xs x)
  then show ?case using ring_insert [of h idle_conn_list xs x] by (auto simp: fresh_node_def)
next
  case (3 h xs x)
  from 3(2) obtain ys zs where xs: "xs = ys @ x # zs" by (meson split_list)
  have d: "distinct (idle_conn_list # xs)" using 3(1) by (simp add: ring_def)
  from ring_detach [OF 3(1) [unfolded xs]] obtain h' where
    h': "dlist_detach h x = Some h'" "ring h' idle_conn_list (ys @ zs)"
      "\<forall>y. y \<notin> insert idle_conn_list (set (ys @ zs)) \<longrightarrow> h' y = h y"
    by blast
  have "x \<notin> insert idle_conn_list (set (ys @ zs))" using d xs by auto
  with h'(3) have "h' x = h x" by blast
  moreover have "h x \<noteq> None" using ring_nodes [OF 3(1), of x] 3(2) by simp
  moreover have "remove1 x xs = ys @ zs" using d xs remove1_split [of x ys zs] by auto
  ultimately show ?case using h' d 3(2) by (auto simp: fresh_node_def)
qed

text \<open>
  Moving a connection to the end of the idle list on activity, as the loop does with
  two list operations, keeps the list well linked, keeps it in the order of last activity and loses
  no connection.
\<close>

lemma idle_list_touch:
  assumes "ring h idle_conn_list xs" "a \<in> set xs" "sorted (map stmp xs)" "\<forall>b \<in> set xs. stmp b \<le> (now :: u64)"
  shows "\<exists>h'. do { h \<leftarrow> dlist_detach h a; dlist_insert_before h idle_conn_list a } = Some h'
    \<and> ring h' idle_conn_list (remove1 a xs @ [a]) \<and> sorted (map (stmp(a := now)) (remove1 a xs @ [a]))
    \<and> set (remove1 a xs @ [a]) = set xs"
proof -
  have "distinct xs" using assms(1) by (simp add: ring_def)
  then have "set (remove1 a xs @ [a]) = set xs" using assms(2) by (auto simp: set_remove1_eq)
  with idle.touch_ok [OF assms(1,2)] idle.touch_sorted(1) [OF assms] show ?thesis by blast
qed

end
