(* ===== verification/Sys.thy ===== *)
theory Sys
  imports Common
begin

text \<open>
  \<open>core/sys.cpp\<close>: messages, \<open>die\<close>, the non-blocking flag and the clock in milliseconds. What the
  system calls return is an argument. A procedure that only talks to the system is the list of the
  calls it makes, each with its result, and the value it returns, \<open>None\<close> when the process has
  aborted.
\<close>

unbundle bit_operations_syntax

section \<open>Calls to the system\<close>

text \<open>\<open>sockaddr_in\<close>: the port and the address are kept in network byte order.\<close>

record sockaddr_in =
  sin_port :: "16 word"
  sin_addr :: u32

datatype syscall =
    Stderr bytes
  | Abort
  | Socket int                       \<comment> \<open>\<open>socket(AF_INET, SOCK_STREAM, 0)\<close>\<close>
  | Reuseaddr int                    \<comment> \<open>\<open>setsockopt(fd, SOL_SOCKET, SO_REUSEADDR, 1)\<close>, result ignored\<close>
  | Bind int sockaddr_in int
  | Listen int int
  | Getsockname int int
  | Connect int sockaddr_in int
  | Getfl int int                    \<comment> \<open>\<open>fcntl(fd, F_GETFL)\<close> and \<open>errno\<close>\<close>
  | Setfl int u32 int                \<comment> \<open>\<open>fcntl(fd, F_SETFL, flags)\<close> and \<open>errno\<close>\<close>
  | Close int

type_synonym 'a proc = "syscall list \<times> 'a option"

definition ret :: "'a \<Rightarrow> 'a proc" where
  "ret x = ([], Some x)"

definition call :: "syscall \<Rightarrow> 'a \<Rightarrow> 'a proc" where
  "call c x = ([c], Some x)"

definition and_then :: "'a proc \<Rightarrow> ('a \<Rightarrow> 'b proc) \<Rightarrow> 'b proc" where
  "and_then m f = (case m of (cs, None) \<Rightarrow> (cs, None) | (cs, Some x) \<Rightarrow> (case f x of (cs', r) \<Rightarrow> (cs @ cs', r)))"

text \<open>A part of the program that does not talk to the system.\<close>

definition local :: "'a option \<Rightarrow> 'a proc" where
  "local r = ([], r)"

section \<open>Messages\<close>

definition msg :: "bytes \<Rightarrow> unit proc" where
  "msg message = call (Stderr (message @ [10])) ()"

definition msg_error :: "bytes \<Rightarrow> unit proc" where
  "msg_error message = call (Stderr (lit ''[ERROR] '' @ message @ [10])) ()"

definition die :: "int \<Rightarrow> bytes \<Rightarrow> 'a proc" where
  "die errno context =
     ([Stderr (lit ''['' @ dec_int errno @ lit ''] '' @ context @ [10]), Abort], None)"

section \<open>The non-blocking flag\<close>

definition O_NONBLOCK :: u32 where
  "O_NONBLOCK = 2048"

text \<open>What the two calls of \<open>fcntl\<close> return: the flags, and \<open>errno\<close> after each.\<close>

type_synonym fcntl_result = "u32 \<times> int \<times> int"

definition fd_set_nb :: "int \<Rightarrow> fcntl_result \<Rightarrow> unit proc" where
  "fd_set_nb fd res = (case res of (flags, errno1, errno2) \<Rightarrow>
     and_then (call (Getfl fd errno1) flags) (\<lambda>flags.
     and_then (if errno1 \<noteq> 0 then die errno1 (lit ''fcntl() read error'') else ret ()) (\<lambda>_.
     let flags = flags OR O_NONBLOCK in
     and_then (call (Setfl fd flags errno2) ()) (\<lambda>_.
     if errno2 \<noteq> 0 then die errno2 (lit ''fcntl() write error'') else ret ()))))"

section \<open>The clock\<close>

text \<open>The arguments are the fields of \<open>timespec\<close> after \<open>clock_gettime\<close>.\<close>

definition get_monotonic_msec :: "u64 \<Rightarrow> u64 \<Rightarrow> u64" where
  "get_monotonic_msec tv_sec tv_nsec = tv_sec * 1000 + tv_nsec div 1000 div 1000"

definition get_current_time_ms :: "u64 \<Rightarrow> u64 \<Rightarrow> u64" where
  "get_current_time_ms tv_sec tv_nsec = get_monotonic_msec tv_sec tv_nsec"

lemmas proc_defs = ret_def call_def and_then_def local_def msg_def msg_error_def die_def fd_set_nb_def
lemmas sys_defs [eval_simps] = get_monotonic_msec_def get_current_time_ms_def proc_defs O_NONBLOCK_def

text \<open>The flag is added to the others, or the process dies with the \<open>errno\<close> of the call that failed.\<close>

lemma fd_set_nb_result: "snd (fd_set_nb fd (flags, e1, e2)) = (if e1 = 0 \<and> e2 = 0 then Some () else None)"
  by (simp add: proc_defs Let_def)

lemma fd_set_nb_calls:
  "fst (fd_set_nb fd (flags, e1, e2)) =
     Getfl fd e1 # (if e1 \<noteq> 0 then fst (die e1 (lit ''fcntl() read error'') :: unit proc)
       else Setfl fd (flags OR O_NONBLOCK) e2 #
         (if e2 \<noteq> 0 then fst (die e2 (lit ''fcntl() write error'') :: unit proc) else []))"
  by (simp add: proc_defs Let_def)

section \<open>Exactness of the clock\<close>

text \<open>For a clock below \<open>2 ^ 54\<close> seconds the conversion is exact and keeps the order.\<close>

lemma msec_exact:
  assumes "unat s < 2 ^ 54" "unat n < 10 ^ 9"
  shows "unat (get_monotonic_msec s n) = unat s * 1000 + unat n div 10 ^ 6"
proof -
  have m: "unat (s * 1000) = unat s * 1000" using assms(1) by (subst unat_mult_lem [THEN iffD1]) simp_all
  have d: "unat (n div 1000 div 1000) = unat n div 10 ^ 6"
    by (simp add: unat_div div_mult2_eq [symmetric])
  have "unat n div 10 ^ 6 < 1000" using assms(2) by (simp add: less_mult_imp_div_less)
  then have "unat (s * 1000) + unat (n div 1000 div 1000) < 2 ^ 64" using assms(1) m d by simp
  then have "unat (s * 1000 + n div 1000 div 1000) = unat (s * 1000) + unat (n div 1000 div 1000)"
    by (subst unat_add_lem [THEN iffD1]) simp_all
  then show ?thesis by (simp add: get_monotonic_msec_def m d)
qed

lemma msec_mono:
  assumes "unat s' < 2 ^ 54" "unat n < 10 ^ 9" "unat n' < 10 ^ 9" "s < s' \<or> s = s' \<and> n \<le> n'"
  shows "get_current_time_ms s n \<le> get_current_time_ms s' n'"
proof -
  have le: "unat s \<le> unat s'" using assms(4) by (auto simp: word_less_nat_alt)
  then have s: "unat s < 2 ^ 54" using assms(1) by simp
  have b: "unat n div 10 ^ 6 < 1000" using assms(2) by (simp add: less_mult_imp_div_less)
  have "unat s * 1000 + unat n div 10 ^ 6 \<le> unat s' * 1000 + unat n' div 10 ^ 6"
  proof (cases "s = s'")
    case True
    then have "unat n \<le> unat n'" using assms(4) by (auto simp: word_le_nat_alt)
    with True show ?thesis by (simp add: div_le_mono)
  next
    case False
    then have "unat s + 1 \<le> unat s'" using assms(4) by (auto simp: word_less_nat_alt)
    with b show ?thesis by linarith
  qed
  then show ?thesis
    using msec_exact [OF s assms(2)] msec_exact [OF assms(1,3)]
    by (simp add: word_le_nat_alt get_current_time_ms_def)
qed

end
