(* ===== verification/Event_Loop.thy ===== *)
theory Event_Loop
  imports Netio Timers DList Sys
begin

text \<open>
  Connections and the event loop: \<open>handle_destroy\<close> of \<open>net/netio.cpp\<close>, the timers of
  \<open>core/sys_server.cpp\<close> and \<open>server.cpp\<close>. The state \<open>world\<close> is all of \<open>server_data\<close> with the
  connection objects. What the kernel returns (the accepted descriptor, the ready events, the results
  of \<open>read\<close> and \<open>write\<close>, the clock) are arguments of the steps.
\<close>

section \<open>Data\<close>

record world =
  srv :: server
  conns :: "Connection store"
  dls :: dl_heap
  fd2conn :: "ptr list"
  cbrk :: nat

text \<open>What happens on one ready descriptor: its events, the times and the results of the calls.\<close>

record io =
  pollin :: bool
  pollout :: bool
  pollerr :: bool
  pollother :: bool
  io_now :: u64
  io_clock :: "nat \<Rightarrow> u64"
  io_read :: read_result
  io_write1 :: write_result
  io_write2 :: write_result

section \<open>Connections\<close>

definition handle_destroy :: "world \<Rightarrow> addr \<Rightarrow> world option" where
  "handle_destroy w conn = do {
     fd \<leftarrow> rd (conns w) socket_fd conn;
     fds \<leftarrow> vec_set (fd2conn w) fd None;
     h \<leftarrow> dlist_detach (dls w) conn;
     Some (w\<lparr>fd2conn := fds, dls := h(conn := None), conns := (conns w)(conn := None)\<rparr>)
   }"

text \<open>
  What \<open>accept\<close> returned: an error, or a descriptor with the results of \<open>fcntl\<close> on it. The message
  about the new peer is in \<open>Startup\<close>.
\<close>

datatype accept_result = Accept_error | Accepted nat fcntl_result

definition handle_accept :: "world \<Rightarrow> u64 \<Rightarrow> accept_result \<Rightarrow> (world \<times> int) option" where
  "handle_accept w now fd =
     (case fd of
        Accept_error \<Rightarrow> Some (w, -1)
      | Accepted conn_fd res \<Rightarrow>
          (let a = cbrk w;
               c = \<lparr>socket_fd = conn_fd, want_read = True, want_write = False, want_close = False,
                    incoming = [], outgoing = [], last_activity_ms = now\<rparr>
           in do {
             snd (fd_set_nb (int conn_fd) res);
             h \<leftarrow> dlist_insert_before ((dls w)(a \<mapsto> \<lparr>dprev = None, dnext = None\<rparr>)) idle_conn_list a;
             (let fds = (if length (fd2conn w) \<le> conn_fd
                         then fd2conn w @ replicate (conn_fd + 1 - length (fd2conn w)) None else fd2conn w)
              in do {
                p \<leftarrow> vec_get fds conn_fd;
                assertion (p = None);
                fds \<leftarrow> vec_set fds conn_fd (Some a);
                Some (w\<lparr>conns := (conns w)(a \<mapsto> c), dls := h, fd2conn := fds, cbrk := a + 1\<rparr>, 0)
              })
           }))"

section \<open>Timers\<close>

definition idle_head :: "world \<Rightarrow> (addr \<times> Connection) option" where
  "idle_head w = do {
     p \<leftarrow> rd (dls w) dnext idle_conn_list;
     a \<leftarrow> p;
     c \<leftarrow> conns w a;
     Some (a, c)
   }"

definition next_timer_ms :: "world \<Rightarrow> u64 \<Rightarrow> int option" where
  "next_timer_ms w now_ms = do {
     none \<leftarrow> dlist_empty (dls w) idle_conn_list;
     next_ms \<leftarrow> (if \<not> none then do { (_, c) \<leftarrow> idle_head w; Some (last_activity_ms c + k_idle_timeout_ms) }
                else Some (-1));
     (let heap = ttls (srv w);
          next_ms = (if heap \<noteq> [] \<and> val (heap ! 0) < next_ms then val (heap ! 0) else next_ms)
      in Some (if next_ms = -1 then -1
               else if next_ms \<le> now_ms then 0
               else int32_of (uint (next_ms - now_ms))))
   }"

partial_function (option) close_idle :: "world \<Rightarrow> u64 \<Rightarrow> world option" where
  "close_idle w now_ms = do {
     none \<leftarrow> dlist_empty (dls w) idle_conn_list;
     if none then Some w
     else do {
       (a, c) \<leftarrow> idle_head w;
       if last_activity_ms c + k_idle_timeout_ms \<ge> now_ms then Some w
       else do { w \<leftarrow> handle_destroy w a; close_idle w now_ms }
     }
   }"

declare close_idle.simps [code]

definition process_timers :: "world \<Rightarrow> u64 \<Rightarrow> world option" where
  "process_timers w now_ms = do {
     w \<leftarrow> close_idle w now_ms;
     sv \<leftarrow> expire_loop (srv w) now_ms 0;
     Some (w\<lparr>srv := sv\<rparr>)
   }"

section \<open>The event loop\<close>

text \<open>The descriptors to poll, each with what is wanted of it: reading, writing.\<close>

fun poll_args :: "world \<Rightarrow> ptr list \<Rightarrow> (nat \<times> bool \<times> bool) list option" where
  "poll_args w [] = Some []"
| "poll_args w (None # ps) = poll_args w ps"
| "poll_args w (Some a # ps) = do {
     c \<leftarrow> conns w a;
     args \<leftarrow> poll_args w ps;
     Some ((socket_fd c, want_read c, want_write c) # args)
   }"

definition handle_event :: "world \<Rightarrow> nat \<Rightarrow> io \<Rightarrow> world option" where
  "handle_event w fd ev =
     (if \<not> (pollin ev \<or> pollout ev \<or> pollerr ev \<or> pollother ev) then Some w
      else do {
        p \<leftarrow> vec_get (fd2conn w) fd;
        a \<leftarrow> p;
        cs \<leftarrow> wr (conns w) a (\<lambda>c. c\<lparr>last_activity_ms := io_now ev\<rparr>);
        h \<leftarrow> dlist_detach (dls w) a;
        h \<leftarrow> dlist_insert_before h idle_conn_list a;
        c \<leftarrow> cs a;
        (sv, c) \<leftarrow> (if pollin ev \<and> want_read c
                    then handle_read (srv w) (io_clock ev) (io_read ev) (io_write1 ev) c
                    else Some (srv w, c));
        c \<leftarrow> (if pollout ev \<and> want_write c then handle_write (io_write2 ev) c else Some c);
        (let w = w\<lparr>srv := sv, conns := cs(a \<mapsto> c), dls := h\<rparr>
         in if pollerr ev \<or> want_close c then handle_destroy w a else Some w)
      })"

fun handle_events :: "world \<Rightarrow> (nat \<times> io) list \<Rightarrow> world option" where
  "handle_events w [] = Some w"
| "handle_events w ((fd, ev) # evs) = do { w \<leftarrow> handle_event w fd ev; handle_events w evs }"

text \<open>
  One iteration after \<open>poll\<close> has returned: \<open>acc\<close> is the result of \<open>accept\<close> when the listening
  socket is ready, \<open>evs\<close> the events of the polled descriptors, in their order.
\<close>

definition loop_iteration :: "world \<Rightarrow> u64 \<Rightarrow> accept_result option \<Rightarrow> (nat \<times> io) list \<Rightarrow> u64 \<Rightarrow> world option" where
  "loop_iteration w now acc evs timer_now = do {
     w \<leftarrow> (case acc of None \<Rightarrow> Some w | Some fd \<Rightarrow> do { (w, _) \<leftarrow> handle_accept w now fd; Some w });
     w \<leftarrow> handle_events w evs;
     process_timers w timer_now
   }"

text \<open>
  The whole body of the loop. \<open>poll\<close> is the system call: from the descriptors and the timeout it
  yields an interruption, an error (the process dies) or the readiness of the listening socket with
  the result of \<open>accept\<close>, and one entry per polled descriptor.
\<close>

datatype poll_result = Poll_eintr | Poll_error | Poll_ready "accept_result option" "io list"

definition event_loop ::
    "world \<Rightarrow> u64 \<Rightarrow> ((nat \<times> bool \<times> bool) list \<Rightarrow> int \<Rightarrow> poll_result) \<Rightarrow> u64 \<Rightarrow> u64 \<Rightarrow> world option" where
  "event_loop w t poll now timer_now = do {
     args \<leftarrow> poll_args w (fd2conn w);
     timeout_ms \<leftarrow> next_timer_ms w t;
     (case poll args timeout_ms of
        Poll_eintr \<Rightarrow> Some w
      | Poll_error \<Rightarrow> None
      | Poll_ready acc evs \<Rightarrow> loop_iteration w now acc (zip (map fst args) evs) timer_now)
   }"

lemmas event_loop_defs [eval_simps] = handle_destroy_def handle_accept_def idle_head_def next_timer_ms_def
  close_idle.simps process_timers_def handle_event_def loop_iteration_def event_loop_def

end
