(* ===== verification/Event_Ops.thy ===== *)
theory Event_Ops
  imports Event_Loop "HOL-Library.Sublist"
begin

text \<open>
  The invariant of the connections and the idle list, and that every step of the event loop returns
  and keeps it: each open connection is in the descriptor table under its own descriptor and in the
  idle list exactly once, the list is ordered by last activity, and every connection left after its
  event is in one of its two states, reading or writing.
\<close>

section \<open>The invariant\<close>

definition stamp :: "world \<Rightarrow> addr \<Rightarrow> u64" where
  "stamp w a = last_activity_ms (the (conns w a))"

definition net_links :: "world \<Rightarrow> addr list \<Rightarrow> bool" where
  "net_links w xs \<longleftrightarrow> ring (dls w) idle_conn_list xs \<and> dom (conns w) = set xs \<and> sorted (map (stamp w) xs)
     \<and> (\<forall>a c. conns w a = Some c \<longrightarrow> a < cbrk w \<and> socket_fd c < length (fd2conn w)
          \<and> fd2conn w ! socket_fd c = Some a)
     \<and> (\<forall>fd a. fd < length (fd2conn w) \<longrightarrow> fd2conn w ! fd = Some a \<longrightarrow> (\<exists>c. conns w a = Some c \<and> socket_fd c = fd))
     \<and> idle_conn_list < cbrk w"

definition conns_ok :: "world \<Rightarrow> addr set \<Rightarrow> bool" where
  "conns_ok w S \<longleftrightarrow> (\<forall>a \<in> S. \<exists>c. conns w a = Some c \<and> conn_ok c \<and> \<not> want_close c)"

definition net_inv :: "world \<Rightarrow> addr list \<Rightarrow> bool" where
  "net_inv w xs \<longleftrightarrow> net_links w xs \<and> conns_ok w (set xs)"

lemma net_inv_srv [simp]: "net_inv (w\<lparr>srv := sv\<rparr>) xs = net_inv w xs"
proof -
  have "stamp (w\<lparr>srv := sv\<rparr>) = stamp w" by (simp add: stamp_def fun_eq_iff)
  then show ?thesis by (simp add: net_inv_def net_links_def conns_ok_def)
qed

lemma net_linksD:
  assumes "net_links w xs"
  shows "ring (dls w) idle_conn_list xs" "dom (conns w) = set xs" "sorted (map (stamp w) xs)"
    "conns w a = Some c \<Longrightarrow> a < cbrk w"
    "conns w a = Some c \<Longrightarrow> socket_fd c < length (fd2conn w) \<and> fd2conn w ! socket_fd c = Some a"
    "fd < length (fd2conn w) \<Longrightarrow> fd2conn w ! fd = Some a \<Longrightarrow> \<exists>c. conns w a = Some c \<and> socket_fd c = fd"
    "idle_conn_list < cbrk w" "distinct xs" "a \<in> set xs \<Longrightarrow> a \<noteq> idle_conn_list"
  using assms by (auto simp: net_links_def ring_def)

lemma conn_at: "net_links w xs \<Longrightarrow> a \<in> set xs \<Longrightarrow> \<exists>c. conns w a = Some c"
  by (auto simp: net_links_def dom_def)

lemma ring_cong:
  assumes "ring h L xs" "\<And>y. y \<in> insert L (set xs) \<Longrightarrow> h' y = h y"
  shows "ring h' L xs"
proof -
  have "linked h' L xs L"
    by (rule linked_cong [of h]) (use assms in \<open>auto simp: ring_def\<close>)
  with assms(1) show ?thesis by (simp add: ring_def)
qed

section \<open>Closing a connection\<close>

lemma handle_destroy_ok:
  assumes inv: "net_links w xs" and a: "a \<in> set xs"
  shows "\<exists>w'. handle_destroy w a = Some w' \<and> net_links w' (remove1 a xs) \<and> srv w' = srv w
    \<and> conns w' = (conns w)(a := None)
    \<and> fd2conn w' = (fd2conn w)[socket_fd (the (conns w a)) := None]"
proof -
  note D = net_linksD [OF inv]
  from conn_at [OF inv a] obtain c where c: "conns w a = Some c" by blast
  let ?fd = "socket_fd c" and ?ys = "remove1 a xs"
  have fd: "?fd < length (fd2conn w)" "fd2conn w ! ?fd = Some a" using D(5) [OF c] by auto
  from idle.remove_ok [OF D(1) a] obtain h where
    h: "dlist_detach (dls w) a = Some h" "ring h idle_conn_list ?ys" by blast
  let ?w = "w\<lparr>fd2conn := (fd2conn w)[?fd := None], dls := h(a := None), conns := (conns w)(a := None)\<rparr>"
  have code: "handle_destroy w a = Some ?w" using c fd(1) h(1) by (simp add: handle_destroy_def)
  have set: "set ?ys = set xs - {a}" by (rule set_remove1_eq [OF D(8)])
  have "ring (dls ?w) idle_conn_list ?ys"
    by (rule ring_cong [OF h(2)]) (use D(9) [OF a] set in auto)
  moreover have "sorted (map (stamp ?w) ?ys)"
  proof -
    have "map (stamp ?w) ?ys = map (stamp w) ?ys" using set by (intro map_cong) (auto simp: stamp_def)
    then show ?thesis using sorted_map_remove1 [OF D(3), of a] by (simp only:)
  qed
  moreover have "b < cbrk w \<and> socket_fd d < length (fd2conn ?w) \<and> fd2conn ?w ! socket_fd d = Some b"
    if "conns ?w b = Some d" for b d
  proof -
    from that have b: "b \<noteq> a" "conns w b = Some d" by (auto split: if_splits)
    have "socket_fd d \<noteq> ?fd" using D(5) [OF b(2)] fd(2) b(1) by auto
    with D(4,5) [OF b(2)] show ?thesis by simp
  qed
  moreover have "\<exists>d. conns ?w b = Some d \<and> socket_fd d = i" if "i < length (fd2conn ?w)" "fd2conn ?w ! i = Some b" for i b
  proof -
    have i: "i \<noteq> ?fd" "fd2conn w ! i = Some b" using that fd(1) by (auto simp: nth_list_update split: if_splits)
    with D(6) [of i b] that(1) obtain d where "conns w b = Some d" "socket_fd d = i" by auto
    moreover have "b \<noteq> a" using i c \<open>conns w b = Some d\<close> \<open>socket_fd d = i\<close> by auto
    ultimately show ?thesis by simp
  qed
  ultimately have "net_links ?w ?ys" using D(2,7) set by (simp add: net_links_def)
  with code c show ?thesis by auto
qed

section \<open>Idle connections\<close>

lemma idle_head_ok:
  assumes "net_links w (a # xs)"
  shows "\<exists>c. conns w a = Some c \<and> idle_head w = Some (a, c)"
proof -
  from conn_at [OF assms, of a] obtain c where "conns w a = Some c" by auto
  with ring_first [OF net_linksD(1) [OF assms]] show ?thesis by (simp add: idle_head_def)
qed

text \<open>The loop closes the connections at the head of the list that have been idle too long.\<close>

lemma close_idle_ok:
  assumes "net_links w xs"
  shows "\<exists>w'. close_idle w now = Some w' \<and> srv w' = srv w
    \<and> net_links w' (dropWhile (\<lambda>a. stamp w a + k_idle_timeout_ms < now) xs)
    \<and> (\<forall>a \<in> set (dropWhile (\<lambda>a. stamp w a + k_idle_timeout_ms < now) xs). conns w' a = conns w a)"
  using assms
proof (induction xs arbitrary: w)
  case Nil
  then have "dlist_empty (dls w) idle_conn_list = Some True"
    using ring_empty [OF net_linksD(1) [OF Nil]] by simp
  with Nil show ?case by (subst close_idle.simps) simp
next
  case (Cons a xs)
  have ne: "dlist_empty (dls w) idle_conn_list = Some False"
    using ring_empty [OF net_linksD(1) [OF Cons.prems]] by simp
  from idle_head_ok [OF Cons.prems] obtain c where c: "conns w a = Some c" "idle_head w = Some (a, c)" by blast
  have st: "stamp w a = last_activity_ms c" using c(1) by (simp add: stamp_def)
  show ?case
  proof (cases "stamp w a + k_idle_timeout_ms < now")
    case False
    with ne c(2) st Cons.prems show ?thesis by (subst close_idle.simps) (auto simp: not_less dest: leD)
  next
    case True
    from handle_destroy_ok [OF Cons.prems, of a] obtain w1 where
      w1: "handle_destroy w a = Some w1" "net_links w1 xs" "srv w1 = srv w" "conns w1 = (conns w)(a := None)"
      by auto
    have "a \<notin> set xs" using net_linksD(8) [OF Cons.prems] by simp
    then have same: "conns w1 b = conns w b" "stamp w1 b = stamp w b" if "b \<in> set xs" for b
      using w1(4) that by (auto simp: stamp_def)
    have dw: "dropWhile (\<lambda>a. stamp w1 a + k_idle_timeout_ms < now) xs
        = dropWhile (\<lambda>a. stamp w a + k_idle_timeout_ms < now) xs"
      using same(2) by (intro dropWhile_cong) auto
    from Cons.IH [OF w1(2)] obtain w' where
      w': "close_idle w1 now = Some w'" "srv w' = srv w1"
        "net_links w' (dropWhile (\<lambda>a. stamp w a + k_idle_timeout_ms < now) xs)"
        "\<forall>a \<in> set (dropWhile (\<lambda>a. stamp w a + k_idle_timeout_ms < now) xs). conns w' a = conns w1 a"
      unfolding dw by blast
    have "close_idle w now = close_idle w1 now"
      using True ne c(2) st w1(1) by (subst close_idle.simps) (auto dest: leD)
    with w' w1(3) same(1) True set_dropWhileD show ?thesis by fastforce
  qed
qed

text \<open>
  As the list is in order of activity, these are all the connections that have been idle too long,
  for clock values that the time-out does not carry over \<open>2 ^ 64\<close>.
\<close>

lemma dropWhile_sorted:
  assumes "sorted (map f xs)" "\<And>x y. x \<in> set xs \<Longrightarrow> y \<in> set xs \<Longrightarrow> f x \<le> f y \<Longrightarrow> P y \<Longrightarrow> P x"
  shows "dropWhile P xs = filter (\<lambda>x. \<not> P x) xs"
  using assms
proof (induction xs)
  case (Cons x xs)
  show ?case
  proof (cases "P x")
    case True
    have "dropWhile P xs = filter (\<lambda>x. \<not> P x) xs"
    proof (rule Cons.IH)
      show "sorted (map f xs)" using Cons.prems(1) by simp
      show "P y'" if "y' \<in> set xs" "y \<in> set xs" "f y' \<le> f y" "P y" for y' y
        by (rule Cons.prems(2) [of y' y]) (use that in simp_all)
    qed
    with True show ?thesis by simp
  next
    case False
    have "\<not> P y" if "y \<in> set xs" for y
    proof
      assume "P y"
      moreover have "f x \<le> f y" using Cons.prems(1) that by simp
      ultimately have "P x" using Cons.prems(2) [of x y] that by simp
      with False show False ..
    qed
    with False show ?thesis by (simp add: filter_id_conv)
  qed
qed simp

lemma idle_mono:
  fixes s t now :: u64
  assumes "s \<le> t" "t \<le> now" "uint now + uint k_idle_timeout_ms < 2 ^ 64" "t + k_idle_timeout_ms < now"
  shows "s + k_idle_timeout_ms < now"
proof -
  have k: "uint k_idle_timeout_ms = 15000" by (simp add: k_idle_timeout_ms_def)
  have add: "uint (x + k_idle_timeout_ms) = uint x + 15000" if "x \<le> now" for x :: u64
    using that assms(3) k by (simp add: uint_plus_if' word_le_def)
  show ?thesis using assms add [of s] add [of t] by (simp add: word_less_def word_le_def)
qed

lemma close_idle_inv:
  assumes inv: "net_inv w xs" and t: "\<forall>a \<in> set xs. stamp w a \<le> now" "uint now + uint k_idle_timeout_ms < 2 ^ 64"
  shows "\<exists>w'. close_idle w now = Some w' \<and> srv w' = srv w
    \<and> net_inv w' (filter (\<lambda>a. now \<le> stamp w a + k_idle_timeout_ms) xs)
    \<and> (\<forall>a. now \<le> stamp w a + k_idle_timeout_ms \<longrightarrow> a \<in> set xs \<longrightarrow> conns w' a = conns w a)"
proof -
  have l: "net_links w xs" and c: "conns_ok w (set xs)" using inv by (auto simp: net_inv_def)
  have "dropWhile (\<lambda>a. stamp w a + k_idle_timeout_ms < now) xs
      = filter (\<lambda>a. \<not> stamp w a + k_idle_timeout_ms < now) xs"
    using idle_mono t net_linksD(3) [OF l] by (intro dropWhile_sorted [where f = "stamp w"]) blast+
  then have dw: "dropWhile (\<lambda>a. stamp w a + k_idle_timeout_ms < now) xs
      = filter (\<lambda>a. now \<le> stamp w a + k_idle_timeout_ms) xs"
    by (simp add: not_less)
  from close_idle_ok [OF l, of now, unfolded dw] obtain w' where
    w': "close_idle w now = Some w'" "srv w' = srv w" "net_links w' (filter (\<lambda>a. now \<le> stamp w a + k_idle_timeout_ms) xs)"
      "\<forall>a \<in> set (filter (\<lambda>a. now \<le> stamp w a + k_idle_timeout_ms) xs). conns w' a = conns w a"
    by blast
  then have "conns_ok w' (set (filter (\<lambda>a. now \<le> stamp w a + k_idle_timeout_ms) xs))"
    using c by (auto simp: conns_ok_def)
  with w' show ?thesis by (auto simp: net_inv_def)
qed

section \<open>Activity\<close>

lemma update_conn:
  assumes inv: "net_links w xs" and c: "conns w a = Some c"
    and c': "socket_fd c' = socket_fd c" "last_activity_ms c' = last_activity_ms c"
  shows "net_links (w\<lparr>srv := sv, conns := (conns w)(a \<mapsto> c')\<rparr>) xs"
proof -
  let ?w = "w\<lparr>srv := sv, conns := (conns w)(a \<mapsto> c')\<rparr>"
  note D = net_linksD [OF inv]
  have "stamp ?w = stamp w" using c c' by (auto simp: stamp_def fun_eq_iff)
  moreover have "dom (conns ?w) = dom (conns w)" using c by auto
  ultimately show ?thesis using D c c' unfolding net_links_def by (auto split: if_splits) fastforce+
qed

lemma touch_conn:
  assumes inv: "net_links w xs" and c: "conns w a = Some c" and t: "\<forall>b \<in> set xs. stamp w b \<le> now"
  shows "\<exists>h. do { h \<leftarrow> dlist_detach (dls w) a; dlist_insert_before h idle_conn_list a } = Some h
    \<and> net_links (w\<lparr>conns := (conns w)(a \<mapsto> c\<lparr>last_activity_ms := now\<rparr>), dls := h\<rparr>) (remove1 a xs @ [a])"
proof -
  note D = net_linksD [OF inv]
  have a: "a \<in> set xs" using c D(2) by auto
  let ?c = "c\<lparr>last_activity_ms := now\<rparr>" and ?ys = "remove1 a xs @ [a]"
  from idle.touch_ok [OF D(1) a] obtain h where
    h: "do { h \<leftarrow> dlist_detach (dls w) a; dlist_insert_before h idle_conn_list a } = Some h"
      "ring h idle_conn_list ?ys" by blast
  let ?w = "w\<lparr>conns := (conns w)(a \<mapsto> ?c), dls := h\<rparr>"
  have "stamp ?w = (stamp w)(a := now)" by (auto simp: stamp_def fun_eq_iff)
  then have "sorted (map (stamp ?w) ?ys)" using idle.touch_sorted(1) [OF D(1) a D(3) t] by (simp only:)
  moreover have "set ?ys = set xs" using a D(8) by (auto simp: set_remove1_eq)
  moreover have "dom (conns ?w) = dom (conns w)" using c by auto
  ultimately show ?thesis
    using h D c unfolding net_links_def by (intro exI [of _ h]) (auto split: if_splits, fastforce+)
qed

section \<open>One ready descriptor\<close>

definition ready :: "io \<Rightarrow> bool" where
  "ready ev \<longleftrightarrow> pollin ev \<or> pollout ev \<or> pollerr ev \<or> pollother ev"

text \<open>The complete requests that an event delivers on a connection.\<close>

definition requests_of :: "Connection \<Rightarrow> io \<Rightarrow> bytes list" where
  "requests_of c ev =
     (if pollin ev \<and> want_read c
      then (case io_read ev of Read_data buf \<Rightarrow> fst (split_frames (incoming c @ buf)) | _ \<Rightarrow> []) else [])"

text \<open>What \<open>read\<close> documents: at most as many bytes as the buffer holds.\<close>

definition read_fits :: "io \<Rightarrow> bool" where
  "read_fits ev \<longleftrightarrow> (case io_read ev of Read_data buf \<Rightarrow> length buf \<le> 65536 | _ \<Rightarrow> True)"

text \<open>
  The traffic of an event: the bytes it reads on the connection and the bytes it hands to the kernel,
  by the write inside \<open>handle_read\<close> and by the one for \<open>POLLOUT\<close>.
\<close>

definition got :: "Connection \<Rightarrow> io \<Rightarrow> bytes" where
  "got c ev = (if pollin ev \<and> want_read c then (case io_read ev of Read_data buf \<Rightarrow> buf | _ \<Rightarrow> []) else [])"

definition read_part :: "server \<Rightarrow> Connection \<Rightarrow> io \<Rightarrow> (server \<times> Connection) option" where
  "read_part sv c ev =
     (if pollin ev \<and> want_read c then handle_read sv (io_clock ev) (io_read ev) (io_write1 ev) c else Some (sv, c))"

definition wrote1 :: "server \<Rightarrow> Connection \<Rightarrow> io \<Rightarrow> bytes" where
  "wrote1 sv c ev =
     (if pollin ev \<and> want_read c then sent_by_read sv (io_clock ev) (io_read ev) (io_write1 ev) c else [])"

definition wrote2 :: "Connection \<Rightarrow> io \<Rightarrow> bytes" where
  "wrote2 c ev = (if pollout ev \<and> want_write c then taken (io_write2 ev) (outgoing c) else [])"

definition written :: "server \<Rightarrow> Connection \<Rightarrow> io \<Rightarrow> bytes" where
  "written sv c ev = wrote1 sv c ev @ (case read_part sv c ev of None \<Rightarrow> [] | Some (_, c) \<Rightarrow> wrote2 c ev)"

lemma requests_split:
  assumes "drained (incoming c)"
  shows "\<exists>rest bad. split_frames (incoming c @ got c ev) = (requests_of c ev, rest, bad)"
proof -
  obtain ps rest bad where "split_frames (incoming c @ got c ev) = (ps, rest, bad)" by (metis prod.exhaust)
  with assms show ?thesis by (auto simp: got_def requests_of_def drained_def split: read_result.splits if_splits)
qed

lemma serve_conn:
  assumes ok: "db_ok sv A" and c: "conn_ok c" "\<not> want_close c" and rf: "read_fits ev"
  shows "\<exists>res. serves (io_clock ev) (requests_of c ev) A res \<and>
    rel_option (\<lambda>(A', rs) (sv', c'). db_ok sv' A' \<and> conn_ok c' \<and> socket_fd c' = socket_fd c
        \<and> last_activity_ms c' = last_activity_ms c \<and> length rs = length (requests_of c ev)
        \<and> wrote1 sv c ev @ outgoing c' = outgoing c @ concat (map reply rs)
        \<and> (want_close c' \<or> split_frames (incoming c @ got c ev) = (requests_of c ev, incoming c', False)))
      res (read_part sv c ev)"
proof (cases "pollin ev \<and> want_read c \<and> (\<exists>buf. io_read ev = Read_data buf)")
  case False
  have n: "requests_of c ev = []" "wrote1 sv c ev = []" "got c ev = []"
    using False by (auto simp: requests_of_def wrote1_def got_def sent_by_read_def split: read_result.splits)
  have "drained (incoming c)" using c by (simp add: conn_ok_def)
  then show ?thesis
    using False ok c unfolding n
    by (intro exI [of _ "Some (A, [])"])
      (auto simp: read_part_def handle_read_def conn_ok_def flags_ok_def drained_def
        intro: no_more split: read_result.splits)
next
  case True
  then obtain buf where buf: "pollin ev" "want_read c" "io_read ev = Read_data buf" by blast
  obtain ps rest bad where sp: "split_frames (incoming c @ buf) = (ps, rest, bad)" by (metis prod.exhaust)
  have out: "outgoing c = []" using c buf by (simp add: conn_ok_def flags_ok_def)
  have "length buf \<le> 65536" using rf buf by (simp add: read_fits_def)
  from handle_read_ok [OF ok c(1) buf(2) c(2) this sp, of "io_clock ev" "io_write1 ev"] obtain res where
    s: "serves (io_clock ev) ps A res" and
    r: "rel_option (\<lambda>(A', rs) (sv', c'). db_ok sv' A' \<and> length rs = length ps \<and> conn_ok c'
        \<and> incoming c' = rest \<and> socket_fd c' = socket_fd c \<and> last_activity_ms c' = last_activity_ms c
        \<and> outgoing c' = unsent (io_write1 ev) (concat (map reply rs))
        \<and> want_close c' = (bad \<or> rs \<noteq> [] \<and> io_write1 ev = Write_error)
        \<and> sent_by_read sv (io_clock ev) (Read_data buf) (io_write1 ev) c = taken (io_write1 ev) (concat (map reply rs)))
      res (handle_read sv (io_clock ev) (Read_data buf) (io_write1 ev) c)"
    by blast
  have e: "requests_of c ev = ps" "got c ev = buf"
    "read_part sv c ev = handle_read sv (io_clock ev) (Read_data buf) (io_write1 ev) c"
    "wrote1 sv c ev = sent_by_read sv (io_clock ev) (Read_data buf) (io_write1 ev) c"
    using buf sp by (simp_all add: requests_of_def got_def read_part_def wrote1_def)
  show ?thesis unfolding e
    by (intro exI [of _ res] conjI s, rule rel_weaken [OF r]) (use out sp in auto)
qed

lemma finish_conn:
  assumes "conn_ok c"
  shows "\<exists>c'. (if pollout ev \<and> want_write c then handle_write (io_write2 ev) c else Some c) = Some c'
    \<and> conn_ok c' \<and> socket_fd c' = socket_fd c \<and> last_activity_ms c' = last_activity_ms c
    \<and> incoming c' = incoming c \<and> wrote2 c ev @ outgoing c' = outgoing c \<and> (want_close c \<longrightarrow> want_close c')"
  using handle_write_ok [OF assms, of "io_write2 ev"] assms by (auto simp: wrote2_def)

text \<open>An event leaves every other connection alone.\<close>

definition others_same :: "world \<Rightarrow> world \<Rightarrow> addr \<Rightarrow> nat \<Rightarrow> bool" where
  "others_same w w' a fd \<longleftrightarrow> (\<forall>b. b \<noteq> a \<longrightarrow> conns w' b = conns w b) \<and> length (fd2conn w') = length (fd2conn w)
     \<and> (\<forall>i. i \<noteq> fd \<longrightarrow> fd2conn w' ! i = fd2conn w ! i)"

text \<open>
  What an event has done on its connection: all complete requests are answered, in order, what was
  handed to the kernel is the start of what there was to send, and a connection that stays open holds
  the rest of both streams.
\<close>

definition conversed :: "world \<Rightarrow> world \<Rightarrow> addr \<Rightarrow> Connection \<Rightarrow> io \<Rightarrow> resp list \<Rightarrow> bool" where
  "conversed w w' a c ev rs \<longleftrightarrow> length rs = length (requests_of c ev)
     \<and> (case conns w' a of
          Some c' \<Rightarrow> split_frames (incoming c @ got c ev) = (requests_of c ev, incoming c', False)
            \<and> written (srv w) c ev @ outgoing c' = outgoing c @ concat (map reply rs)
        | None \<Rightarrow> prefix (written (srv w) c ev) (outgoing c @ concat (map reply rs)))"

definition touch :: "Connection \<Rightarrow> io \<Rightarrow> Connection" where
  "touch c ev = c\<lparr>last_activity_ms := io_now ev\<rparr>"

lemma touch_simps [simp]:
  "incoming (touch c ev) = incoming c" "outgoing (touch c ev) = outgoing c" "socket_fd (touch c ev) = socket_fd c"
  "want_close (touch c ev) = want_close c" "last_activity_ms (touch c ev) = io_now ev" "conn_ok (touch c ev) = conn_ok c"
  "requests_of (touch c ev) e = requests_of c e" "got (touch c ev) e = got c e"
  by (simp_all add: touch_def conn_ok_def flags_ok_def requests_of_def got_def split: read_result.splits)

definition seen :: "world \<Rightarrow> addr list \<Rightarrow> u64 \<Rightarrow> bool" where
  "seen w xs now \<longleftrightarrow> (\<forall>a \<in> set xs. stamp w a \<le> now)"

text \<open>The end of an event: the connection is put back, or destroyed when it is to be closed.\<close>

lemma settle_conn:
  fixes sv :: server
  assumes l: "net_links (w\<lparr>conns := (conns w)(a \<mapsto> c1), dls := h\<rparr>) ys" and ys: "set ys = set xs"
    and cok: "conns_ok w (set xs)" and t: "seen w xs now"
    and c1: "socket_fd c1 = fd" "last_activity_ms c1 = now"
    and c: "conn_ok c" "socket_fd c = fd" "last_activity_ms c = now"
  defines "w' \<equiv> w\<lparr>srv := sv, conns := (conns w)(a \<mapsto> c), dls := h\<rparr>"
  shows "\<exists>w2. (if err \<or> want_close c then handle_destroy w' a else Some w') = Some w2 \<and> srv w2 = sv
    \<and> (\<exists>zs. net_inv w2 zs \<and> set zs \<subseteq> set xs \<and> seen w2 zs now) \<and> others_same w w2 a fd
    \<and> conns w2 a = (if err \<or> want_close c then None else Some c)"
proof -
  let ?w1 = "w\<lparr>conns := (conns w)(a \<mapsto> c1), dls := h\<rparr>"
  have "w' = ?w1\<lparr>srv := sv, conns := (conns ?w1)(a \<mapsto> c)\<rparr>" by (cases w) (simp add: w'_def)
  then have l': "net_links w' ys" using update_conn [OF l, of a c1 c sv] c1 c by simp
  have a: "a \<in> set ys" using net_linksD(2) [OF l'] by (auto simp: w'_def)
  show ?thesis
  proof (cases "err \<or> want_close c")
    case False
    have "conns_ok w' (set ys)" using cok c(1) False ys by (auto simp: conns_ok_def w'_def)
    moreover have "seen w' ys now" using t c(3) ys by (auto simp: seen_def stamp_def w'_def)
    ultimately show ?thesis
      using False l' ys by (intro exI [of _ w']) (auto simp: net_inv_def others_same_def w'_def)
  next
    case True
    from handle_destroy_ok [OF l' a] c(2) obtain w3 where
      w3: "handle_destroy w' a = Some w3" "net_links w3 (remove1 a ys)" "srv w3 = sv"
        "conns w3 = (conns w)(a := None)" "fd2conn w3 = (fd2conn w)[fd := None]"
      by (auto simp: w'_def)
    have sub: "set (remove1 a ys) = set xs - {a}" using set_remove1_eq [of ys a] ys net_linksD(8) [OF l'] by simp
    have "conns_ok w3 (set (remove1 a ys))" using cok w3(4) sub by (auto simp: conns_ok_def)
    moreover have "seen w3 (remove1 a ys) now" using t w3(4) sub by (auto simp: seen_def stamp_def)
    ultimately show ?thesis
      using True w3 sub by (intro exI [of _ w3]) (auto simp: net_inv_def others_same_def)
  qed
qed

lemma handle_event_ok:
  assumes ok: "db_ok (srv w) A" and inv: "net_inv w xs" and fd: "fd < length (fd2conn w)" "fd2conn w ! fd = Some a"
    and c: "conns w a = Some c" and t: "seen w xs (io_now ev)" and rf: "read_fits ev" and rdy: "ready ev"
  shows "\<exists>res. serves (io_clock ev) (requests_of c ev) A res \<and>
    rel_option (\<lambda>(A', rs) w'. db_ok (srv w') A' \<and> others_same w w' a fd \<and> conversed w w' a (touch c ev) ev rs
        \<and> (\<exists>xs'. net_inv w' xs' \<and> set xs' \<subseteq> set xs \<and> seen w' xs' (io_now ev)))
      res (handle_event w fd ev)"
proof -
  have l: "net_links w xs" and cok: "conns_ok w (set xs)" using inv by (auto simp: net_inv_def)
  note D = net_linksD [OF l]
  have a: "a \<in> set xs" using c D(2) by auto
  have fdc: "socket_fd c = fd" using D(6) [OF fd] c by auto
  let ?c = "touch c ev" and ?ys = "remove1 a xs @ [a]"
  have conn: "conn_ok ?c" "\<not> want_close ?c" using cok a c by (auto simp: conns_ok_def)
  from touch_conn [OF l c, of "io_now ev"] t obtain h0 h where
    h: "dlist_detach (dls w) a = Some h0" "dlist_insert_before h0 idle_conn_list a = Some h"
      "net_links (w\<lparr>conns := (conns w)(a \<mapsto> ?c), dls := h\<rparr>) ?ys"
    by (auto simp: seen_def touch_def split: bind_splits)
  have ys: "set ?ys = set xs" using a D(8) by (auto simp: set_remove1_eq)
  let ?put = "\<lambda>sv c. let w' = w\<lparr>srv := sv, conns := (conns w)(a \<mapsto> c), dls := h\<rparr>
      in if pollerr ev \<or> want_close c then handle_destroy w' a else Some w'"
  let ?fin = "\<lambda>(sv, c). Option.bind (if pollout ev \<and> want_write c then handle_write (io_write2 ev) c else Some c) (?put sv)"
  have code: "handle_event w fd ev = Option.bind (read_part (srv w) ?c ev) ?fin"
    using h(1,2) c fd rdy
    by (simp add: handle_event_def ready_def read_part_def touch_def Let_def split_def cong: if_cong)
  from serve_conn [OF ok conn rf] obtain res where
    s: "serves (io_clock ev) (requests_of c ev) A res" and
    r: "rel_option (\<lambda>(A', rs) (sv', c'). db_ok sv' A' \<and> conn_ok c' \<and> socket_fd c' = socket_fd ?c
        \<and> last_activity_ms c' = last_activity_ms ?c \<and> length rs = length (requests_of ?c ev)
        \<and> wrote1 (srv w) ?c ev @ outgoing c' = outgoing ?c @ concat (map reply rs)
        \<and> (want_close c' \<or> split_frames (incoming ?c @ got ?c ev) = (requests_of ?c ev, incoming c', False)))
      res (read_part (srv w) ?c ev)"
    unfolding touch_simps by blast
  have "rel_option (\<lambda>(A', rs) w'. db_ok (srv w') A' \<and> others_same w w' a fd \<and> conversed w w' a ?c ev rs
        \<and> (\<exists>xs'. net_inv w' xs' \<and> set xs' \<subseteq> set xs \<and> seen w' xs' (io_now ev))) res (handle_event w fd ev)"
    unfolding code
  proof (rule rel_then [OF rel_with [OF r]], clarify, goal_cases)
    case (1 A' rs sv' c1)
    from finish_conn [OF 1(3), of ev] obtain c2 where
      c2: "(if pollout ev \<and> want_write c1 then handle_write (io_write2 ev) c1 else Some c1) = Some c2" "conn_ok c2"
        "socket_fd c2 = fd" "last_activity_ms c2 = io_now ev"
        "incoming c2 = incoming c1" "wrote2 c1 ev @ outgoing c2 = outgoing c1" "want_close c1 \<longrightarrow> want_close c2"
      using 1(4,5) fdc by auto
    from settle_conn [OF h(3) ys cok t _ _ c2(2-4), of "pollerr ev" sv'] fdc obtain w2 where
      w2: "(if pollerr ev \<or> want_close c2 then handle_destroy (w\<lparr>srv := sv', conns := (conns w)(a \<mapsto> c2), dls := h\<rparr>) a
          else Some (w\<lparr>srv := sv', conns := (conns w)(a \<mapsto> c2), dls := h\<rparr>)) = Some w2" "srv w2 = sv'"
        "\<exists>zs. net_inv w2 zs \<and> set zs \<subseteq> set xs \<and> seen w2 zs (io_now ev)" "others_same w w2 a fd"
        "conns w2 a = (if pollerr ev \<or> want_close c2 then None else Some c2)"
      by auto
    have "written (srv w) ?c ev @ outgoing c2 = outgoing ?c @ concat (map reply rs)"
      using 1(1,7) c2(6) by (simp add: written_def)
    moreover from this have "prefix (written (srv w) ?c ev) (outgoing ?c @ concat (map reply rs))"
      by (metis prefixI)
    ultimately have "conversed w w2 a ?c ev rs"
      using 1(6,8) c2(5,7) w2(5) by (auto simp: conversed_def)
    with w2 c2(1) 1(2) show ?case by (intro exI [of _ w2]) simp
  qed
  with s show ?thesis by blast
qed

end
