(* ===== verification/Server_Loop.thy ===== *)
theory Server_Loop
  imports Event_Ops
begin

text \<open>
  The server as a state machine. \<open>world_ok t w A\<close>: at time \<open>t\<close> the world \<open>w\<close> is well formed and its
  database represents \<open>A\<close>. Accepting, serving an event and running the timers are the steps of the
  machine; each is matched by steps of the abstract database, which changes only by requests and by
  expiry. One iteration of the event loop is a sequence of such steps.
\<close>

section \<open>Accepting a connection\<close>

text \<open>What \<open>accept\<close> documents: the descriptor it returns is not in use.\<close>

definition fd_free :: "world \<Rightarrow> nat \<Rightarrow> bool" where
  "fd_free w fd \<longleftrightarrow> (fd < length (fd2conn w) \<longrightarrow> fd2conn w ! fd = None)"

text \<open>
  What \<open>accept\<close> and \<open>fcntl\<close> document for the listening socket: an error, or a new descriptor whose
  flags can be read and written.
\<close>

definition accept_ok :: "world \<Rightarrow> accept_result option \<Rightarrow> bool" where
  "accept_ok w acc \<longleftrightarrow>
     (case acc of
        Some (Accepted fd (flags, errno1, errno2)) \<Rightarrow> fd_free w fd \<and> errno1 = 0 \<and> errno2 = 0
      | _ \<Rightarrow> True)"

definition fresh_conn :: "nat \<Rightarrow> u64 \<Rightarrow> Connection" where
  "fresh_conn fd now = \<lparr>socket_fd = fd, want_read = True, want_write = False, want_close = False,
     incoming = [], outgoing = [], last_activity_ms = now\<rparr>"

text \<open>
  The map of descriptors, extended up to \<open>fd\<close> when it is too short, and the links of the world
  after a new connection object \<open>a\<close> has been put at \<open>fd\<close> and at the back of the idle list.
\<close>

definition fds_upto :: "nat \<Rightarrow> ptr list \<Rightarrow> ptr list" where
  "fds_upto fd fds = (if length fds \<le> fd then fds @ replicate (fd + 1 - length fds) None else fds)"

lemma fds_upto:
  assumes "fd_free w fd"
  defines "fds \<equiv> fds_upto fd (fd2conn w)"
  shows "fd < length fds" "fds ! fd = None" "length (fd2conn w) \<le> length fds"
    "\<forall>i < length (fd2conn w). fds ! i = fd2conn w ! i" "\<forall>i < length fds. length (fd2conn w) \<le> i \<longrightarrow> fds ! i = None"
  using assms by (auto simp: fds_upto_def fd_free_def nth_append)

lemma accept_links:
  assumes l: "net_links w xs" and t: "seen w xs now" and free: "fd_free w fd" and a: "a = cbrk w"
    and h: "ring h idle_conn_list (xs @ [a])" and anew: "a \<notin> set xs" "conns w a = None"
  shows "net_links (w\<lparr>conns := (conns w)(a \<mapsto> fresh_conn fd now), dls := h,
    fd2conn := (fds_upto fd (fd2conn w))[fd := Some a], cbrk := a + 1\<rparr>) (xs @ [a])" (is "net_links ?w _")
proof -
  note D = net_linksD [OF l] and fds = fds_upto [OF free]
  have st: "stamp ?w = (stamp w)(a := now)" by (auto simp: stamp_def fresh_conn_def fun_eq_iff)
  have "sorted (map (stamp ?w) (xs @ [a]))"
    unfolding st using idle.push_sorted [OF anew(1) D(3)] t by (simp add: seen_def)
  moreover have "b < cbrk ?w \<and> socket_fd c < length (fd2conn ?w) \<and> fd2conn ?w ! socket_fd c = Some b"
    if "conns ?w b = Some c" for b c
  proof (cases "b = a")
    case True
    with that fds(1) show ?thesis by (auto simp: fresh_conn_def)
  next
    case False
    with that have b: "conns w b = Some c" by simp
    have "socket_fd c \<noteq> fd" using D(5) [OF b] free by (auto simp: fd_free_def)
    with D(4,5) [OF b] fds(3,4) show ?thesis by (auto simp: a)
  qed
  moreover have "\<exists>c. conns ?w b = Some c \<and> socket_fd c = i" if i: "i < length (fd2conn ?w)" "fd2conn ?w ! i = Some b" for i b
  proof (cases "i = fd")
    case True
    with i fds(1) show ?thesis by (auto simp: fresh_conn_def)
  next
    case False
    with i fds have "i < length (fd2conn w)" "fd2conn w ! i = Some b" by (auto simp: not_less [symmetric])
    from D(6) [OF this] anew(2) show ?thesis by auto
  qed
  ultimately show ?thesis using h D(2,7) by (auto simp: net_links_def a)
qed

lemma handle_accept_ok:
  assumes inv: "net_inv w xs" and t: "seen w xs now" and free: "fd_free w fd"
  defines "a \<equiv> cbrk w"
  shows "\<exists>w'. handle_accept w now (Accepted fd (flags, 0, 0)) = Some (w', 0) \<and> net_inv w' (xs @ [a]) \<and> srv w' = srv w
    \<and> conns w' = (conns w)(a \<mapsto> fresh_conn fd now) \<and> seen w' (xs @ [a]) now
    \<and> length (fd2conn w) \<le> length (fd2conn w') \<and> (\<forall>i < length (fd2conn w). i \<noteq> fd \<longrightarrow> fd2conn w' ! i = fd2conn w ! i)"
proof -
  have l: "net_links w xs" and cok: "conns_ok w (set xs)" using inv by (auto simp: net_inv_def)
  note D = net_linksD [OF l]
  have none: "conns w a = None" using D(4) [of a] by (cases "conns w a") (auto simp: a_def)
  then have anew: "a \<notin> set xs" "a \<noteq> idle_conn_list" "conns w a = None"
    using D(2) [symmetric] D(7) by (auto simp: a_def)
  let ?d = "(dls w)(a \<mapsto> \<lparr>dprev = None, dnext = None\<rparr>)"
  have "ring ?d idle_conn_list xs"
    by (rule ring_cong [OF D(1)]) (use anew in auto)
  from idle.push_ok [OF this, of a] anew obtain h where
    h: "dlist_insert_before ?d idle_conn_list a = Some h" "ring h idle_conn_list (xs @ [a])"
    by (auto simp: fresh_node_def)
  note fds = fds_upto [OF free]
  let ?w = "w\<lparr>conns := (conns w)(a \<mapsto> fresh_conn fd now), dls := h, fd2conn := (fds_upto fd (fd2conn w))[fd := Some a], cbrk := a + 1\<rparr>"
  have code: "handle_accept w now (Accepted fd (flags, 0, 0)) = Some (?w, 0)"
    using h(1) fds(1,2) by (simp add: handle_accept_def fd_set_nb_result Let_def a_def fresh_conn_def fds_upto_def)
  have st: "stamp ?w = (stamp w)(a := now)" by (auto simp: stamp_def fresh_conn_def fun_eq_iff)
  have "net_links ?w (xs @ [a])" by (rule accept_links [OF l t free _ h(2) anew(1,3)]) (simp add: a_def)
  moreover have "conns_ok ?w (set (xs @ [a]))"
    using cok by (auto simp: conns_ok_def fresh_conn_def conn_ok_def flags_ok_def)
  moreover have "seen ?w (xs @ [a]) now" using t st anew(1) by (auto simp: seen_def)
  ultimately show ?thesis using code fds(1,3,4) by (auto simp: net_inv_def)
qed

section \<open>Timers\<close>

definition no_overflow :: "u64 \<Rightarrow> bool" where
  "no_overflow now \<longleftrightarrow> uint now + uint k_idle_timeout_ms < 2 ^ 64"

definition keep_alive :: "world \<Rightarrow> u64 \<Rightarrow> addr list \<Rightarrow> addr list" where
  "keep_alive w now xs = filter (\<lambda>a. now \<le> stamp w a + k_idle_timeout_ms) xs"

lemma process_timers_ok:
  assumes ok: "db_ok (srv w) A" and inv: "net_inv w xs" and t: "seen w xs now" and o: "no_overflow now"
  shows "\<exists>w'. process_timers w now = Some w' \<and> net_inv w' (keep_alive w now xs) \<and> db_ok (srv w') (expire now A)
    \<and> seen w' (keep_alive w now xs) now"
proof -
  from close_idle_inv [OF inv, of now] t o obtain w1 where
    w1: "close_idle w now = Some w1" "srv w1 = srv w" "net_inv w1 (keep_alive w now xs)"
      "\<forall>a. now \<le> stamp w a + k_idle_timeout_ms \<longrightarrow> a \<in> set xs \<longrightarrow> conns w1 a = conns w a"
    by (auto simp: seen_def no_overflow_def keep_alive_def)
  from expire_loop_ok [of "srv w1" A 0 now] ok w1(2) obtain sv where
    sv: "expire_loop (srv w1) now 0 = Some sv" "server_ok sv (expire now A)"
    by (auto simp: db_ok_def adb_ok_def)
  let ?w = "w1\<lparr>srv := sv\<rparr>"
  have "net_inv ?w (keep_alive w now xs)"
    using w1(3) by simp
  moreover have "seen ?w (keep_alive w now xs) now"
    using w1(4) t by (auto simp: seen_def keep_alive_def stamp_def)
  moreover have "db_ok sv (expire now A)" using sv(2) ok adb_ok_expire by (simp add: db_ok_def)
  ultimately show ?thesis using w1(1) sv(1) by (simp add: process_timers_def)
qed

text \<open>
  How long \<open>poll\<close> waits: until the earliest of all deadlines, of connections and of keys. The
  difference is converted to \<open>int32_t\<close>.
\<close>

definition deadlines :: "world \<Rightarrow> addr list \<Rightarrow> u64 list" where
  "deadlines w xs = map (\<lambda>a. stamp w a + k_idle_timeout_ms) xs @ map val (ttls (srv w))"

definition wait_for :: "u64 \<Rightarrow> u64 list \<Rightarrow> int" where
  "wait_for now ds =
     (if ds = [] \<or> Min (set ds) = -1 then -1
      else if Min (set ds) \<le> now then 0 else int32_of (uint (Min (set ds) - now)))"

lemma Min_head: "\<forall>y \<in> set ys. x \<le> (y :: 'a::linorder) \<Longrightarrow> Min (set (x # ys)) = x"
  by (intro Min_eqI) auto

lemma Min_append:
  assumes "xs \<noteq> []" "ys \<noteq> []"
  shows "Min (set (xs @ ys)) = min (Min (set xs)) (Min (set (ys :: 'a::linorder list)))"
  using assms Min_Un [of "set xs" "set ys"] by simp

lemma min_idle:
  assumes "net_links w (a # xs)" "seen w (a # xs) now" "no_overflow now"
  shows "Min (set (map (\<lambda>a. stamp w a + k_idle_timeout_ms) (a # xs))) = stamp w a + k_idle_timeout_ms"
proof -
  have k: "uint k_idle_timeout_ms = 15000" by (simp add: k_idle_timeout_ms_def)
  have add: "uint (x + k_idle_timeout_ms) = uint x + 15000" if "x \<le> now" for x :: u64
    using that assms(3) k by (simp add: uint_plus_if' word_le_def no_overflow_def)
  have "stamp w a + k_idle_timeout_ms \<le> stamp w b + k_idle_timeout_ms" if b: "b \<in> set xs" for b
  proof -
    have "stamp w a \<le> stamp w b" using net_linksD(3) [OF assms(1)] b by simp
    moreover have "stamp w a \<le> now" "stamp w b \<le> now" using assms(2) b by (auto simp: seen_def)
    ultimately show ?thesis using add by (simp add: word_le_def)
  qed
  then show ?thesis unfolding list.map by (intro Min_head) auto
qed

lemma min_ttl:
  assumes "heap_ok (x # h)"
  shows "Min (set (map val (x # h))) = val x"
proof -
  have "val x \<le> val y" if "y \<in> set h" for y
  proof -
    from that obtain i where "i < length h" "y = h ! i" by (auto simp: in_set_conv_nth)
    with heap_root_min [OF assms, of "Suc i"] show ?thesis by simp
  qed
  then show ?thesis unfolding list.map by (intro Min_head) auto
qed

lemma next_timer_ok:
  assumes inv: "net_inv w xs" and heap: "heap_ok (ttls (srv w))" and t: "seen w xs now" and o: "no_overflow now"
  shows "next_timer_ms w now = Some (wait_for now (deadlines w xs))"
proof -
  have l: "net_links w xs" using inv by (simp add: net_inv_def)
  define next_ms where "next_ms = (if xs = [] then -1 else stamp w (hd xs) + k_idle_timeout_ms)"
  let ?h = "ttls (srv w)"
  have code: "next_timer_ms w now = Some (let m = (if ?h \<noteq> [] \<and> val (?h ! 0) < next_ms then val (?h ! 0) else next_ms)
      in if m = -1 then -1 else if m \<le> now then 0 else int32_of (uint (m - now)))"
  proof (cases xs)
    case Nil
    then have "dlist_empty (dls w) idle_conn_list = Some True" "-1 = next_ms"
      using ring_empty [OF net_linksD(1) [OF l]] by (simp_all add: next_ms_def)
    then show ?thesis by (simp add: next_timer_ms_def Let_def)
  next
    case (Cons a ys)
    with idle_head_ok [of w a ys] l obtain c where c: "conns w a = Some c" "idle_head w = Some (a, c)" by auto
    have "last_activity_ms c + k_idle_timeout_ms = next_ms" using Cons c(1) by (simp add: next_ms_def stamp_def)
    moreover have "dlist_empty (dls w) idle_conn_list = Some False"
      using ring_empty [OF net_linksD(1) [OF l]] Cons by simp
    ultimately show ?thesis using c(2) by (simp add: next_timer_ms_def Let_def)
  qed
  have ttl: "Min (set (map val ?h)) = val (?h ! 0)" if "?h \<noteq> []"
    using that heap min_ttl by (cases ?h) auto
  have idle: "Min (set (map (\<lambda>a. stamp w a + k_idle_timeout_ms) xs)) = next_ms" if "xs \<noteq> []"
    using that l t o min_idle by (cases xs) (auto simp: next_ms_def)
  have le: "m < -1 \<or> m = -1" for m :: u64 using word_n1_ge [of m] by (metis order_le_less)
  have "(if ?h \<noteq> [] \<and> val (?h ! 0) < next_ms then val (?h ! 0) else next_ms)
      = (if deadlines w xs = [] then -1 else Min (set (deadlines w xs)))"
  proof (cases "xs = []"; cases "?h = []")
    assume "xs \<noteq> []" "?h \<noteq> []"
    then show ?thesis
      using ttl idle Min_append [of "map (\<lambda>a. stamp w a + k_idle_timeout_ms) xs" "map val ?h"]
      by (auto simp: deadlines_def min_def not_less dest: leD)
  next
    assume "xs = []" "?h \<noteq> []"
    then show ?thesis using ttl le [of "val (?h ! 0)"] by (auto simp: deadlines_def next_ms_def)
  next
    assume "xs \<noteq> []" "?h = []"
    then show ?thesis using idle by (simp add: deadlines_def)
  qed (simp add: deadlines_def next_ms_def)
  then show ?thesis unfolding code wait_for_def by (auto simp: Let_def)
qed

section \<open>The machine\<close>

definition world_ok :: "u64 \<Rightarrow> world \<Rightarrow> adb \<Rightarrow> bool" where
  "world_ok t w A \<longleftrightarrow> db_ok (srv w) A \<and> (\<exists>xs. net_inv w xs \<and> seen w xs t)"

inductive step :: "u64 \<Rightarrow> world \<Rightarrow> u64 \<Rightarrow> world \<Rightarrow> bool" where
  accepted: "t \<le> now \<Longrightarrow> fd_free w fd \<Longrightarrow> handle_accept w now (Accepted fd (flags, 0, 0)) = Some (w', rv) \<Longrightarrow> step t w now w'"
| event: "t \<le> io_now ev \<Longrightarrow> read_fits ev \<Longrightarrow> ready ev \<Longrightarrow> fd < length (fd2conn w) \<Longrightarrow> fd2conn w ! fd = Some a \<Longrightarrow>
    handle_event w fd ev = Some w' \<Longrightarrow> step t w (io_now ev) w'"
| timers: "t \<le> now \<Longrightarrow> no_overflow now \<Longrightarrow> process_timers w now = Some w' \<Longrightarrow> step t w now w'"

text \<open>The abstract database changes by requests and by expiry.\<close>

inductive db_step :: "adb \<Rightarrow> adb \<Rightarrow> bool" where
  served: "serves clock ps A (Some (A', rs)) \<Longrightarrow> db_step A A'"
| expires: "db_step A (expire now A)"

lemma seen_mono: "seen w xs t \<Longrightarrow> t \<le> t' \<Longrightarrow> seen w xs t'"
  by (auto simp: seen_def)

lemma step_simulation:
  assumes "step t w t' w'" "world_ok t w A"
  shows "\<exists>A'. db_step\<^sup>*\<^sup>* A A' \<and> world_ok t' w' A'"
  using assms
proof (induction rule: step.induct)
  case (accepted t now w fd flags w' rv)
  then obtain xs where xs: "net_inv w xs" "seen w xs now" by (auto simp: world_ok_def intro: seen_mono)
  from handle_accept_ok [OF this accepted(2), of flags] accepted(3,4) show ?case
    by (auto simp: world_ok_def)
next
  case (event t ev fd w a w')
  then obtain xs where xs: "net_inv w xs" "seen w xs (io_now ev)" and ok: "db_ok (srv w) A"
    by (auto simp: world_ok_def intro: seen_mono)
  then obtain c where c: "conns w a = Some c"
    using net_linksD(6) [of w xs fd a] event(4,5) by (auto simp: net_inv_def)
  from handle_event_ok [OF ok xs(1) event(4,5) c xs(2) event(2,3)] event(6) obtain A' rs where
    "serves (io_clock ev) (requests_of c ev) A (Some (A', rs))" "db_ok (srv w') A'"
    "\<exists>xs. net_inv w' xs \<and> seen w' xs (io_now ev)"
    by (auto simp: option_rel_Some2)
  then show ?case by (auto simp: world_ok_def intro: served)
next
  case (timers t now w w')
  then obtain xs where xs: "net_inv w xs" "seen w xs now" and ok: "db_ok (srv w) A"
    by (auto simp: world_ok_def intro: seen_mono)
  from process_timers_ok [OF ok xs timers(2)] timers(3) show ?case
    using expires [of A now] by (auto simp: world_ok_def)
qed

text \<open>The server is a machine whose invariant is that it represents a database that requests and expiry lead to.\<close>

definition server_inv :: "u64 \<times> world \<Rightarrow> bool" where
  "server_inv s \<longleftrightarrow> (\<exists>A. db_step\<^sup>*\<^sup>* Map.empty A \<and> world_ok (fst s) (snd s) A)"

interpretation srv_machine: machine "\<lambda>s s'. step (fst s) (snd s) (fst s') (snd s')" server_inv
  by unfold_locales (metis server_inv_def step_simulation rtranclp_trans)

text \<open>From the start of the server.\<close>

definition server_start :: "world option" where
  "server_start = do {
     h \<leftarrow> dlist_init [idle_conn_list \<mapsto> \<lparr>dprev = None, dnext = None\<rparr>] idle_conn_list;
     Some \<lparr>srv = server0, conns = Map.empty, dls = h, fd2conn = [], cbrk = idle_conn_list + 1\<rparr>
   }"

inductive reachable :: "u64 \<Rightarrow> world \<Rightarrow> bool" where
  start: "server_start = Some w \<Longrightarrow> reachable t w"
| more: "reachable t w \<Longrightarrow> step t w t' w' \<Longrightarrow> reachable t' w'"

lemma server_start_ok: "\<exists>w. server_start = Some w \<and> world_ok t w Map.empty"
proof -
  from ring_init [of "[idle_conn_list \<mapsto> \<lparr>dprev = None, dnext = None\<rparr>]" idle_conn_list] obtain h where
    "dlist_init [idle_conn_list \<mapsto> \<lparr>dprev = None, dnext = None\<rparr>] idle_conn_list = Some h" "ring h idle_conn_list []"
    by auto
  then show ?thesis
    using db_ok_init by (auto simp: server_start_def world_ok_def net_inv_def net_links_def conns_ok_def seen_def
        intro!: exI [of _ "[]"])
qed

text \<open>The start, and the state after a first client has connected.\<close>

lemma server_start_state:
  obtains w where "server_start = Some w" "net_inv w []" "\<And>t. seen w [] t" "db_ok (srv w) Map.empty"
    "fd2conn w = []" "cbrk w = 1" "conns w = Map.empty"
proof -
  from server_start_ok [of 0] obtain w where w: "server_start = Some w" "world_ok 0 w Map.empty" by blast
  have c: "conns w = Map.empty" "fd2conn w = []" "cbrk w = 1"
    using w(1) by (auto simp: server_start_def idle_conn_list_def split: bind_splits)
  from w(2) obtain xs where xs: "net_inv w xs" "db_ok (srv w) Map.empty" by (auto simp: world_ok_def)
  have "dom (conns w) = set xs" using xs(1) net_linksD(2) by (simp add: net_inv_def)
  with c(1) have "xs = []" by simp
  with that [of w] w(1) xs c show thesis by (simp add: seen_def)
qed

lemma first_client:
  obtains w w' where "server_start = Some w" "handle_accept w now (Accepted fd (2, 0, 0)) = Some (w', 0)" "step 0 w now w'"
    "net_inv w' [1]" "db_ok (srv w') Map.empty" "conns w' = [1 \<mapsto> fresh_conn fd now]" "seen w' [1] now"
    "fd < length (fd2conn w')" "fd2conn w' ! fd = Some 1"
proof -
  obtain w where w: "server_start = Some w" "net_inv w []" "\<And>t. seen w [] t" "db_ok (srv w) Map.empty"
      "fd2conn w = []" "cbrk w = 1" "conns w = Map.empty"
    by (rule server_start_state) blast
  have free: "fd_free w fd" using w(5) by (simp add: fd_free_def)
  from handle_accept_ok [OF w(2,3) free, of now 2] w(4,6,7) obtain w' where
    w': "handle_accept w now (Accepted fd (2, 0, 0)) = Some (w', 0)" "net_inv w' [1]" "db_ok (srv w') Map.empty"
      "conns w' = [1 \<mapsto> fresh_conn fd now]" "seen w' [1] now"
    by auto
  have "fd < length (fd2conn w') \<and> fd2conn w' ! fd = Some 1"
    using net_linksD(5) [of w' "[1]" 1 "fresh_conn fd now"] w'(2,4) by (simp add: net_inv_def fresh_conn_def)
  moreover have "step 0 w now w'" using accepted [OF _ free w'(1), of 0] by simp
  ultimately show thesis using that [of w w'] w(1) w' by blast
qed

lemma reachable_ok:
  assumes "reachable t w"
  shows "\<exists>A. db_step\<^sup>*\<^sup>* Map.empty A \<and> world_ok t w A"
  using assms
proof (induction rule: reachable.induct)
  case (start w t)
  with server_start_ok [of t] have "world_ok t w Map.empty" by (metis option.inject)
  then show ?case by blast
next
  case (more t w t' w')
  with srv_machine.inv_step [of "(t, w)" "(t', w')"] show ?case by (simp add: server_inv_def)
qed

section \<open>One iteration of the event loop\<close>

lemma distinct_filter_nth:
  assumes "\<And>i j a. i < length ps \<Longrightarrow> j < length ps \<Longrightarrow> ps ! i = Some a \<Longrightarrow> ps ! j = Some a \<Longrightarrow> i = j"
  shows "distinct (filter (\<lambda>p. p \<noteq> None) ps)"
  using assms
proof (induction ps)
  case (Cons p ps)
  have "distinct (filter (\<lambda>p. p \<noteq> None) ps)"
  proof (rule Cons.IH)
    fix i j a assume "i < length ps" "j < length ps" "ps ! i = Some a" "ps ! j = Some a"
    with Cons.prems [of "Suc i" "Suc j" a] show "i = j" by simp
  qed
  moreover have "p \<notin> set ps" if "p \<noteq> None"
  proof
    assume "p \<in> set ps"
    then obtain j where "j < length ps" "ps ! j = p" by (auto simp: in_set_conv_nth)
    with that Cons.prems [of 0 "Suc j" "the p"] show False by simp
  qed
  ultimately show ?case by simp
qed simp

text \<open>The polled descriptors: those of the open connections, each once, for reading or for writing.\<close>

lemma poll_args_at:
  assumes "\<forall>a. Some a \<in> set ps \<longrightarrow> conns w a \<noteq> None"
  shows "poll_args w ps = Some (map (\<lambda>a. let c = the (conns w a) in (socket_fd c, want_read c, want_write c))
    (map the (filter (\<lambda>p. p \<noteq> None) ps)))"
  using assms by (induction w ps rule: poll_args.induct) (auto simp: Let_def)

lemma poll_args_ok:
  assumes inv: "net_inv w xs"
  shows "\<exists>args. poll_args w (fd2conn w) = Some args
    \<and> (\<forall>fd r wr. (fd, r, wr) \<in> set args \<longleftrightarrow>
         (\<exists>a c. conns w a = Some c \<and> socket_fd c = fd \<and> want_read c = r \<and> want_write c = wr))
    \<and> (\<forall>(fd, r, wr) \<in> set args. wr = (\<not> r)) \<and> distinct (map fst args)"
proof -
  let ?ps = "map the (filter (\<lambda>p. p \<noteq> None) (fd2conn w))"
  have l: "net_links w xs" and cok: "conns_ok w (set xs)" using inv by (auto simp: net_inv_def)
  note D = net_linksD [OF l]
  have some: "\<exists>i < length (fd2conn w). fd2conn w ! i = Some a" if "Some a \<in> set (fd2conn w)" for a
    using that by (auto simp: in_set_conv_nth)
  have live: "\<forall>a. Some a \<in> set (fd2conn w) \<longrightarrow> conns w a \<noteq> None" using some D(6) by fastforce
  have ps: "a \<in> set ?ps \<longleftrightarrow> Some a \<in> set (fd2conn w)" for a by force
  have all: "Some a \<in> set (fd2conn w) \<longleftrightarrow> conns w a \<noteq> None" for a
    using live D(5) [of a] nth_mem by fastforce
  let ?args = "map (\<lambda>a. let c = the (conns w a) in (socket_fd c, want_read c, want_write c)) ?ps"
  have mem: "(fd, r, wr) \<in> set ?args \<longleftrightarrow>
      (\<exists>a c. conns w a = Some c \<and> socket_fd c = fd \<and> want_read c = r \<and> want_write c = wr)" for fd r wr
    using ps all by (auto simp: Let_def image_iff) (metis option.sel)+
  have "wr = (\<not> r)" if "(fd, r, wr) \<in> set ?args" for fd r wr
  proof -
    from that [unfolded mem] obtain a c where "conns w a = Some c" "want_read c = r" "want_write c = wr" by blast
    moreover from this(1) D(2) have "a \<in> set xs" by blast
    ultimately show ?thesis using cok by (auto simp: conns_ok_def conn_ok_def flags_ok_def)
  qed
  moreover have "distinct (map fst ?args)"
  proof -
    have fst: "map fst ?args = map (\<lambda>p. socket_fd (the (conns w (the p)))) (filter (\<lambda>p. p \<noteq> None) (fd2conn w))"
      by (simp add: Let_def comp_def)
    have "fd2conn w ! socket_fd (the (conns w (the p))) = p" if "p \<in> set (filter (\<lambda>p. p \<noteq> None) (fd2conn w))" for p
      using that live D(5) [of "the p"] by fastforce
    moreover have "distinct (filter (\<lambda>p. p \<noteq> None) (fd2conn w))"
    proof (rule distinct_filter_nth)
      fix i j a assume "i < length (fd2conn w)" "j < length (fd2conn w)" "fd2conn w ! i = Some a" "fd2conn w ! j = Some a"
      with D(6) [of i a] D(6) [of j a] show "i = j" by auto
    qed
    ultimately show ?thesis unfolding fst by (auto simp: distinct_map intro: inj_on_inverseI [where g = "(!) (fd2conn w)"])
  qed
  ultimately show ?thesis using poll_args_at [OF live] mem by (intro exI [of _ ?args]) blast
qed

text \<open>
  What the events of one pass do to the database: the complete requests of each ready connection, in
  the order of the descriptors. \<open>cf\<close> gives the connection of a descriptor before the pass; an event
  changes no connection but its own.
\<close>

definition conn_of :: "world \<Rightarrow> nat \<Rightarrow> Connection option" where
  "conn_of w fd = (if fd < length (fd2conn w) then Option.bind (fd2conn w ! fd) (conns w) else None)"

inductive serves_events :: "(nat \<Rightarrow> Connection option) \<Rightarrow> (nat \<times> io) list \<Rightarrow> adb \<Rightarrow> adb option \<Rightarrow> bool" where
  all_done: "serves_events cf [] A (Some A)"
| not_ready: "\<not> ready ev \<Longrightarrow> serves_events cf evs A res \<Longrightarrow> serves_events cf ((fd, ev) # evs) A res"
| event_aborts: "ready ev \<Longrightarrow> cf fd = Some c \<Longrightarrow> serves (io_clock ev) (requests_of c ev) A None \<Longrightarrow>
    serves_events cf ((fd, ev) # evs) A None"
| event_served: "ready ev \<Longrightarrow> cf fd = Some c \<Longrightarrow> serves (io_clock ev) (requests_of c ev) A (Some (A1, rs)) \<Longrightarrow>
    serves_events cf evs A1 res \<Longrightarrow> serves_events cf ((fd, ev) # evs) A res"

lemma serves_events_cong:
  assumes "serves_events cf evs A res" "\<And>fd. fd \<in> fst ` set evs \<Longrightarrow> cf' fd = cf fd"
  shows "serves_events cf' evs A res"
  using assms by (induction rule: serves_events.induct) (auto intro: serves_events.intros)

definition polled :: "world \<Rightarrow> nat list \<Rightarrow> bool" where
  "polled w fds \<longleftrightarrow> distinct fds \<and> (\<forall>fd \<in> set fds. fd < length (fd2conn w) \<and> fd2conn w ! fd \<noteq> None)"

lemma conn_of_polled:
  assumes "net_inv w xs" "polled w fds" "fd \<in> set fds"
  obtains a c where "fd < length (fd2conn w)" "fd2conn w ! fd = Some a" "conns w a = Some c" "conn_of w fd = Some c"
proof -
  from assms(2,3) obtain a where a: "fd < length (fd2conn w)" "fd2conn w ! fd = Some a" by (auto simp: polled_def)
  with net_linksD(6) [of w xs fd a] assms(1) obtain c where "conns w a = Some c" by (auto simp: net_inv_def)
  with that a show thesis by (simp add: conn_of_def)
qed

lemma conn_of_others:
  assumes inv: "net_inv w xs" and fd: "fd2conn w ! fd = Some a" "fd < length (fd2conn w)"
    and same: "others_same w w' a fd" and i: "i \<noteq> fd"
  shows "conn_of w' i = conn_of w i"
proof -
  have len: "length (fd2conn w') = length (fd2conn w)" "fd2conn w' ! i = fd2conn w ! i"
    using same i by (simp_all add: others_same_def)
  have "b \<noteq> a" if "i < length (fd2conn w)" "fd2conn w ! i = Some b" for b
    using net_linksD(6) [of w xs i b] net_linksD(6) [of w xs fd a] that fd inv i by (auto simp: net_inv_def)
  then show ?thesis using len same
    by (cases "fd2conn w ! i") (auto simp: conn_of_def others_same_def)
qed

lemma polled_others: "polled w fds \<Longrightarrow> fd \<notin> set fds \<Longrightarrow> others_same w w' a fd \<Longrightarrow> polled w' fds"
  unfolding polled_def others_same_def by metis

text \<open>One ready event, as the world sees it: the requests are served and every other connection is kept.\<close>

lemma handle_event_world:
  assumes ok: "world_ok t w A" and p: "polled w fds" "fd \<in> set fds" and t: "t \<le> io_now ev"
    and ev: "read_fits ev" "ready ev"
  shows "\<exists>c res. conn_of w fd = Some c \<and> serves (io_clock ev) (requests_of c ev) A res
    \<and> rel_option (\<lambda>(A', rs) w'. world_ok (io_now ev) w' A'
        \<and> (\<forall>fds. polled w fds \<longrightarrow> fd \<notin> set fds \<longrightarrow> polled w' fds) \<and> (\<forall>i. i \<noteq> fd \<longrightarrow> conn_of w' i = conn_of w i))
      res (handle_event w fd ev)"
proof -
  from ok obtain xs where xs: "net_inv w xs" "seen w xs (io_now ev)" and d: "db_ok (srv w) A"
    using t by (auto simp: world_ok_def intro: seen_mono)
  from conn_of_polled [OF xs(1) p] obtain a c where
    fd: "fd < length (fd2conn w)" "fd2conn w ! fd = Some a" "conns w a = Some c" "conn_of w fd = Some c" by blast
  from handle_event_ok [OF d xs(1) fd(1-3) xs(2) ev] obtain res where
    s: "serves (io_clock ev) (requests_of c ev) A res" and
    r: "rel_option (\<lambda>(A', rs) w'. db_ok (srv w') A' \<and> others_same w w' a fd \<and> conversed w w' a (touch c ev) ev rs
      \<and> (\<exists>xs'. net_inv w' xs' \<and> set xs' \<subseteq> set xs \<and> seen w' xs' (io_now ev))) res (handle_event w fd ev)"
    by blast
  have "rel_option (\<lambda>(A', rs) w'. world_ok (io_now ev) w' A'
        \<and> (\<forall>fds. polled w fds \<longrightarrow> fd \<notin> set fds \<longrightarrow> polled w' fds) \<and> (\<forall>i. i \<noteq> fd \<longrightarrow> conn_of w' i = conn_of w i))
      res (handle_event w fd ev)"
    using r by (rule option.rel_mono_strong)
      (auto simp: world_ok_def dest: polled_others conn_of_others [OF xs(1) fd(2,1)])
  with s fd(4) show ?thesis by blast
qed

lemma handle_events_ok:
  assumes "world_ok t w A" "polled w (map fst evs)" "\<forall>(fd, ev) \<in> set evs. read_fits ev \<and> io_now ev \<le> T"
    "sorted (t # map (\<lambda>(fd, ev). io_now ev) evs)" "t \<le> T"
  shows "\<exists>res. serves_events (conn_of w) evs A res \<and> rel_option (\<lambda>A' w'. world_ok T w' A') res (handle_events w evs)"
  using assms
proof (induction evs arbitrary: t w A)
  case Nil
  then have "world_ok T w A" by (auto simp: world_ok_def intro: seen_mono)
  then show ?case by (intro exI [of _ "Some A"]) (auto intro: all_done)
next
  case (Cons fe evs)
  obtain fd ev where fe: "fe = (fd, ev)" by fastforce
  have le: "t \<le> io_now ev" "io_now ev \<le> T" "sorted (io_now ev # map (\<lambda>(fd, ev). io_now ev) evs)"
    "sorted (t # map (\<lambda>(fd, ev). io_now ev) evs)" "read_fits ev" "\<forall>(fd, ev) \<in> set evs. read_fits ev \<and> io_now ev \<le> T"
    using Cons.prems(3,4) fe by auto
  have p: "fd \<notin> set (map fst evs)" "polled w (map fst evs)" "fd \<in> set (map fst (fe # evs))"
    using Cons.prems(2) fe by (auto simp: polled_def)
  show ?case
  proof (cases "ready ev")
    case False
    then have "handle_events w (fe # evs) = handle_events w evs" by (simp add: fe handle_event_def ready_def)
    with Cons.IH [OF Cons.prems(1) p(2) le(6,4) Cons.prems(5)] not_ready [OF False, of "conn_of w" evs A _ fd]
    show ?thesis unfolding fe by auto
  next
    case True
    from handle_event_world [OF Cons.prems(1,2) p(3) le(1,5) True] obtain c res where
      fd: "conn_of w fd = Some c" and s: "serves (io_clock ev) (requests_of c ev) A res" and
      r: "rel_option (\<lambda>(A', rs) w'. world_ok (io_now ev) w' A'
          \<and> (\<forall>fds. polled w fds \<longrightarrow> fd \<notin> set fds \<longrightarrow> polled w' fds) \<and> (\<forall>i. i \<noteq> fd \<longrightarrow> conn_of w' i = conn_of w i))
        res (handle_event w fd ev)"
      by (elim exE conjE)
    show ?thesis
    proof (cases res)
      case None
      then have "serves_events (conn_of w) (fe # evs) A None" using event_aborts [where cf = "conn_of w" and fd = fd, OF True fd] s by (simp add: fe)
      with r None show ?thesis by (intro exI [of _ None]) (simp add: fe)
    next
      case (Some x)
      obtain A1 rs where x: "x = (A1, rs)" by fastforce
      from rel_SomeD [OF r [unfolded Some x]] obtain w1 where
        w1: "handle_event w fd ev = Some w1" "world_ok (io_now ev) w1 A1" "polled w1 (map fst evs)"
          "\<forall>i. i \<noteq> fd \<longrightarrow> conn_of w1 i = conn_of w i"
        using p(1,2) by blast
      from Cons.IH [OF w1(2,3) le(6,3,2)] obtain res1 where
        r1: "serves_events (conn_of w1) evs A1 res1" "rel_option (\<lambda>A' w'. world_ok T w' A') res1 (handle_events w1 evs)"
        by blast
      have "serves_events (conn_of w) evs A1 res1"
        by (rule serves_events_cong [OF r1(1)]) (use w1(4) p(1) in force)
      then have "serves_events (conn_of w) (fe # evs) A res1"
        using event_served [where cf = "conn_of w" and fd = fd, OF True fd] s Some x by (auto simp: fe)
      with r1(2) w1(1) show ?thesis by (intro exI [of _ res1]) (simp add: fe)
    qed
  qed
qed

text \<open>Accepting first changes nothing for the polled connections.\<close>

lemma accept_first:
  assumes ok: "world_ok now w A" and acc: "accept_ok w acc"
    and pl: "polled w fds"
  shows "\<exists>w1. (case acc of None \<Rightarrow> Some w | Some fd \<Rightarrow> do { (w, _) \<leftarrow> handle_accept w now fd; Some w }) = Some w1
    \<and> world_ok now w1 A \<and> polled w1 fds \<and> (\<forall>i \<in> set fds. conn_of w i = conn_of w1 i)"
proof (cases "acc = None \<or> acc = Some Accept_error")
  case True
  with ok pl show ?thesis by (auto simp: handle_accept_def)
next
  case False
  with acc obtain fd flags where fd: "acc = Some (Accepted fd (flags, 0, 0))" and free: "fd_free w fd"
    by (auto simp: accept_ok_def split: option.splits accept_result.splits)
  from ok obtain xs where xs: "net_inv w xs" "seen w xs now" and d: "db_ok (srv w) A" by (auto simp: world_ok_def)
  from handle_accept_ok [OF xs free, of flags] obtain w1 where
    w1: "handle_accept w now (Accepted fd (flags, 0, 0)) = Some (w1, 0)" "net_inv w1 (xs @ [cbrk w])" "srv w1 = srv w"
      "seen w1 (xs @ [cbrk w]) now" "length (fd2conn w) \<le> length (fd2conn w1)"
      "\<forall>i < length (fd2conn w). i \<noteq> fd \<longrightarrow> fd2conn w1 ! i = fd2conn w ! i"
      "conns w1 = (conns w)(cbrk w \<mapsto> fresh_conn fd now)"
    by blast
  have nfd: "fd \<notin> set fds" using pl free unfolding polled_def fd_free_def by blast
  then have "polled w1 fds" using pl w1(5,6) unfolding polled_def by (metis order.strict_trans2)
  moreover have "conn_of w i = conn_of w1 i" if i: "i \<in> set fds" for i
  proof -
    from conn_of_polled [OF xs(1) pl i] obtain a c where
      c: "i < length (fd2conn w)" "fd2conn w ! i = Some a" "conns w a = Some c" by blast
    have "a \<noteq> cbrk w" using net_linksD(4) [of w xs a c] xs(1) c(3) by (auto simp: net_inv_def)
    moreover have "i \<noteq> fd" using nfd i by auto
    ultimately show ?thesis using c w1(5-7) by (simp add: conn_of_def)
  qed
  ultimately show ?thesis using w1 d fd by (auto simp: world_ok_def)
qed

lemma loop_iteration_ok:
  assumes ok: "world_ok t w A" and acc: "accept_ok w acc"
    and evs: "polled w (map fst evs)" "\<forall>(fd, ev) \<in> set evs. read_fits ev \<and> io_now ev \<le> T"
    and times: "t \<le> now" "sorted (now # map (\<lambda>(fd, ev). io_now ev) evs)" "now \<le> T" "no_overflow T"
  shows "\<exists>res. serves_events (conn_of w) evs A res \<and>
    rel_option (\<lambda>A' w'. world_ok T w' (expire T A')) res (loop_iteration w now acc evs T)"
proof -
  have "world_ok now w A" using ok times(1) by (auto simp: world_ok_def intro: seen_mono)
  from accept_first [OF this acc evs(1)] obtain w1 where
    w1: "(case acc of None \<Rightarrow> Some w | Some fd \<Rightarrow> do { (w, _) \<leftarrow> handle_accept w now fd; Some w }) = Some w1"
      "world_ok now w1 A" "polled w1 (map fst evs)" "\<forall>i \<in> set (map fst evs). conn_of w i = conn_of w1 i" by blast
  from handle_events_ok [OF w1(2,3) evs(2) times(2,3)] obtain res where
    r: "serves_events (conn_of w1) evs A res" "rel_option (\<lambda>A' w'. world_ok T w' A') res (handle_events w1 evs)" by blast
  have "serves_events (conn_of w) evs A res" by (rule serves_events_cong [OF r(1)]) (use w1(4) in auto)
  moreover have "loop_iteration w now acc evs T = Option.bind (handle_events w1 evs) (\<lambda>w. process_timers w T)"
    using w1(1) by (simp add: loop_iteration_def)
  moreover have "rel_option (\<lambda>A' w'. world_ok T w' (expire T A')) res \<dots>"
  proof (rule rel_then [OF r(2)])
    fix A' w2 assume "world_ok T w2 A'"
    then obtain xs where "db_ok (srv w2) A'" "net_inv w2 xs" "seen w2 xs T" by (auto simp: world_ok_def)
    from process_timers_ok [OF this times(4)] show "\<exists>w'. process_timers w2 T = Some w' \<and> world_ok T w' (expire T A')"
      by (auto simp: world_ok_def)
  qed
  ultimately show ?thesis by auto
qed

text \<open>
  The whole loop body. What \<open>poll\<close> and \<open>accept\<close> document is a hypothesis: no fatal error, a
  descriptor from \<open>accept\<close> that is not open, at most 64 KB per read; and time does not go back.
\<close>

definition poll_allowed :: "world \<Rightarrow> u64 \<Rightarrow> u64 \<Rightarrow> poll_result \<Rightarrow> bool" where
  "poll_allowed w now T res \<longleftrightarrow>
     (case res of
        Poll_eintr \<Rightarrow> True
      | Poll_error \<Rightarrow> False
      | Poll_ready acc evs \<Rightarrow>
          accept_ok w acc
          \<and> list_all (\<lambda>ev. read_fits ev \<and> io_now ev \<le> T) evs \<and> sorted (now # map io_now evs))"

lemma db_ok_heap: "db_ok sv A \<Longrightarrow> heap_ok (ttls sv)"
  by (auto simp: db_ok_def ttl_ok_def elim!: server_okE dest!: sv_invD(5))

text \<open>Before \<open>poll\<close>: the descriptors and the time-out are computed.\<close>

lemma before_poll:
  assumes "world_ok t w A" "no_overflow t"
  obtains args ms where "poll_args w (fd2conn w) = Some args" "next_timer_ms w t = Some ms" "polled w (map fst args)"
proof -
  from assms obtain xs where xs: "net_inv w xs" "seen w xs t" and d: "db_ok (srv w) A" by (auto simp: world_ok_def)
  from poll_args_ok [OF xs(1)] obtain args where
    args: "poll_args w (fd2conn w) = Some args" "distinct (map fst args)"
      "\<forall>fd r wr. (fd, r, wr) \<in> set args \<longleftrightarrow>
         (\<exists>a c. conns w a = Some c \<and> socket_fd c = fd \<and> want_read c = r \<and> want_write c = wr)"
    by (elim exE conjE) (rule that)
  have "fd < length (fd2conn w) \<and> fd2conn w ! fd \<noteq> None" if "fd \<in> set (map fst args)" for fd
  proof -
    from that obtain r wr where "(fd, r, wr) \<in> set args" by auto
    with args(3) obtain a c where "conns w a = Some c" "socket_fd c = fd" by blast
    with net_linksD(5) [of w xs a c] xs(1) show ?thesis by (auto simp: net_inv_def)
  qed
  with args(2) have "polled w (map fst args)" by (simp add: polled_def)
  then show thesis using that args(1) next_timer_ok [OF xs(1) db_ok_heap [OF d] xs(2) assms(2)] by blast
qed

text \<open>After \<open>poll\<close>: its events, with their descriptors.\<close>

lemma after_poll:
  assumes "poll_allowed w now T (Poll_ready acc evs)" "polled w (map fst args)"
  defines "es \<equiv> zip (map fst args) evs"
  shows "accept_ok w acc" "polled w (map fst es)"
    "\<forall>(fd, ev) \<in> set es. read_fits ev \<and> io_now ev \<le> T" "sorted (now # map (\<lambda>(fd, ev). io_now ev) es)"
proof -
  have p: "\<forall>ev \<in> set evs. read_fits ev \<and> io_now ev \<le> T" "sorted (now # map io_now evs)"
    using assms(1) by (auto simp: poll_allowed_def list_all_iff)
  show "accept_ok w acc" using assms(1) by (simp add: poll_allowed_def)
  have fst: "map fst es = take (length evs) (map fst args)" by (simp add: es_def map_fst_zip_take min_def)
  show "polled w (map fst es)"
    unfolding fst using assms(2) unfolding polled_def by (metis distinct_take in_set_takeD)
  show "\<forall>(fd, ev) \<in> set es. read_fits ev \<and> io_now ev \<le> T" using p(1) by (auto simp: es_def dest: set_zip_rightD)
  have "map (\<lambda>(fd, ev). io_now ev) es = map io_now (map snd es)" by (simp add: case_prod_unfold)
  then have snd: "map (\<lambda>(fd, ev). io_now ev) es = take (length args) (map io_now evs)"
    unfolding es_def map_snd_zip_take by (simp add: take_map min_def)
  show "sorted (now # map (\<lambda>(fd, ev). io_now ev) es)"
    unfolding snd using p(2) sorted_wrt_take [of "(\<le>)" "now # map io_now evs" "Suc (length args)"] by simp
qed

lemma event_loop_ok:
  assumes ok: "world_ok t w A" and times: "t \<le> now" "now \<le> T" "no_overflow T"
    and poll: "\<And>args timeout. poll_allowed w now T (poll args timeout)"
  shows "\<exists>args timeout. poll_args w (fd2conn w) = Some args \<and> next_timer_ms w t = Some timeout \<and>
    (case poll args timeout of
       Poll_ready acc evs \<Rightarrow> \<exists>res. serves_events (conn_of w) (zip (map fst args) evs) A res \<and>
         rel_option (\<lambda>A' w'. world_ok T w' (expire T A')) res (event_loop w t poll now T)
     | _ \<Rightarrow> event_loop w t poll now T = Some w)"
proof -
  have "no_overflow t" using times by (auto simp: no_overflow_def word_le_def)
  with ok obtain args ms where
    b: "poll_args w (fd2conn w) = Some args" "next_timer_ms w t = Some ms" "polled w (map fst args)"
    by (rule before_poll)
  have "case poll args ms of
       Poll_ready acc evs \<Rightarrow> \<exists>res. serves_events (conn_of w) (zip (map fst args) evs) A res \<and>
         rel_option (\<lambda>A' w'. world_ok T w' (expire T A')) res (event_loop w t poll now T)
     | _ \<Rightarrow> event_loop w t poll now T = Some w"
  proof (cases "poll args ms")
    case Poll_eintr
    with b show ?thesis by (simp add: event_loop_def)
  next
    case Poll_error
    with poll [of args ms] show ?thesis by (simp add: poll_allowed_def)
  next
    case (Poll_ready acc evs)
    note a = after_poll [OF poll [of args ms, unfolded Poll_ready] b(3)]
    from Poll_ready b have "event_loop w t poll now T = loop_iteration w now acc (zip (map fst args) evs) T"
      by (simp add: event_loop_def)
    with loop_iteration_ok [OF ok a(1-3) times(1) a(4) times(2,3)] Poll_ready show ?thesis by simp
  qed
  with b show ?thesis by blast
qed

end
