(* ===== verification/Session.thy ===== *)
theory Session
  imports Server_Loop
begin

text \<open>
  Many passes of the event loop. The history of a run is kept beside the code: \<open>traced_run\<close> is
  \<open>run_loop\<close> with the bytes every connection received and sent. A run is explained by one sequence of
  operations, requests and expiries, that the abstract database executes one after the other: on each
  connection the requests of the sequence are the frames received there, and the bytes sent are the
  start of their answers.
\<close>

section \<open>Runs of the event loop\<close>

text \<open>
  A pass is the reading of the clock for the time-out, what \<open>poll\<close> and the calls after it return, the
  time of the first activity and the time of the timers. The loop never ends by itself; a run is any
  finite number of passes.
\<close>

type_synonym pass = "u64 \<times> ((nat \<times> bool \<times> bool) list \<Rightarrow> int \<Rightarrow> poll_result) \<times> u64 \<times> u64"

fun run_loop :: "world \<Rightarrow> pass list \<Rightarrow> world option" where
  "run_loop w [] = Some w"
| "run_loop w ((t, poll, now, timer_now) # ps) = do {
     w \<leftarrow> event_loop w t poll now timer_now;
     run_loop w ps
   }"

text \<open>What the kernel promises during a run: time does not go back and every \<open>poll\<close> is as documented.\<close>

fun kernel_ok :: "world \<Rightarrow> u64 \<Rightarrow> pass list \<Rightarrow> bool" where
  "kernel_ok w T0 [] = True"
| "kernel_ok w T0 ((t, poll, now, T) # ps) =
     (T0 \<le> t \<and> t \<le> now \<and> now \<le> T \<and> no_overflow T
      \<and> (\<forall>args timeout. poll_allowed w now T (poll args timeout))
      \<and> (case event_loop w t poll now T of None \<Rightarrow> True | Some w \<Rightarrow> kernel_ok w T ps))"

fun last_time :: "u64 \<Rightarrow> pass list \<Rightarrow> u64" where
  "last_time T0 [] = T0"
| "last_time T0 ((t, poll, now, T) # ps) = last_time T ps"

section \<open>Histories\<close>

type_synonym transfers = "(addr \<times> bytes \<times> bytes) list"

definition received :: "transfers \<Rightarrow> addr \<Rightarrow> bytes" where
  "received tr a = concat (map (\<lambda>(b, got, sent). if b = a then got else []) tr)"

definition sent :: "transfers \<Rightarrow> addr \<Rightarrow> bytes" where
  "sent tr a = concat (map (\<lambda>(b, got, sent). if b = a then sent else []) tr)"

lemma transfer_simps [simp]:
  "received [] a = []" "received (tr @ tr') a = received tr a @ received tr' a"
  "received [(b, x, y)] a = (if b = a then x else [])"
  "sent [] a = []" "sent (tr @ tr') a = sent tr a @ sent tr' a"
  "sent [(b, x, y)] a = (if b = a then y else [])"
  by (simp_all add: received_def sent_def)

definition traffic :: "world \<Rightarrow> nat \<Rightarrow> io \<Rightarrow> transfers" where
  "traffic w fd ev =
     (if ready ev
      then (case (if fd < length (fd2conn w) then fd2conn w ! fd else None) of
              None \<Rightarrow> []
            | Some a \<Rightarrow> (case conns w a of
                None \<Rightarrow> []
              | Some c \<Rightarrow> [(a, got c ev, written (srv w) (touch c ev) ev)]))
      else [])"

fun traced_events :: "world \<Rightarrow> (nat \<times> io) list \<Rightarrow> (world \<times> transfers) option" where
  "traced_events w [] = Some (w, [])"
| "traced_events w ((fd, ev) # evs) = do {
     w1 \<leftarrow> handle_event w fd ev;
     (w2, tr) \<leftarrow> traced_events w1 evs;
     Some (w2, traffic w fd ev @ tr)
   }"

definition traced_pass :: "world \<Rightarrow> pass \<Rightarrow> (world \<times> transfers) option" where
  "traced_pass w p = (case p of (t, poll, now, timer_now) \<Rightarrow> do {
     args \<leftarrow> poll_args w (fd2conn w);
     timeout_ms \<leftarrow> next_timer_ms w t;
     (case poll args timeout_ms of
        Poll_eintr \<Rightarrow> Some (w, [])
      | Poll_error \<Rightarrow> None
      | Poll_ready acc evs \<Rightarrow> do {
          w \<leftarrow> (case acc of None \<Rightarrow> Some w | Some fd \<Rightarrow> do { (w, _) \<leftarrow> handle_accept w now fd; Some w });
          (w, tr) \<leftarrow> traced_events w (zip (map fst args) evs);
          w \<leftarrow> process_timers w timer_now;
          Some (w, tr)
        })
   })"

fun traced_run :: "world \<Rightarrow> pass list \<Rightarrow> (world \<times> transfers) option" where
  "traced_run w [] = Some (w, [])"
| "traced_run w (p # ps) = do {
     (w1, tr) \<leftarrow> traced_pass w p;
     (w2, tr') \<leftarrow> traced_run w1 ps;
     Some (w2, tr @ tr')
   }"

text \<open>The histories change nothing: without them the runs are those of the code.\<close>

lemma traced_events_erase: "map_option fst (traced_events w evs) = handle_events w evs"
  by (induction w evs rule: traced_events.induct) (force split: bind_splits simp: option.map_comp)+

lemma traced_pass_erase: "map_option fst (traced_pass w (t, poll, now, T)) = event_loop w t poll now T"
  by (auto simp: traced_pass_def event_loop_def loop_iteration_def traced_events_erase [symmetric]
      split: poll_result.splits option.splits bind_splits)

lemma traced_run_erase: "map_option fst (traced_run w ps) = run_loop w ps"
proof (induction ps arbitrary: w)
  case (Cons p ps)
  obtain t poll now T where p: "p = (t, poll, now, T)" by (cases p)
  have e: "event_loop w t poll now T = map_option fst (traced_pass w p)" by (simp add: traced_pass_erase p)
  show ?case
    unfolding p run_loop.simps e [unfolded p] by (auto simp: Cons.IH [symmetric] split: bind_splits)
qed simp

section \<open>Sequential executions\<close>

datatype op = Request addr u64 bytes resp | Expiry u64

inductive serial :: "adb \<Rightarrow> op list \<Rightarrow> adb \<Rightarrow> bool" where
  nothing: "serial A [] A"
| request: "key_order ks A \<Longrightarrow> serve_one now ks p A = Some (A1, r) \<Longrightarrow> serial A1 ops A' \<Longrightarrow>
    serial A (Request a now p r # ops) A'"
| expiry: "serial (expire now A) ops A' \<Longrightarrow> serial A (Expiry now # ops) A'"

inductive_cases serial_NilE: "serial A [] A'"
inductive_cases serial_RequestE: "serial A (Request a now p r # ops) A'"

text \<open>A request that aborts the process.\<close>

definition crashes :: "adb \<Rightarrow> bool" where
  "crashes A \<longleftrightarrow> (\<exists>now ks p. key_order ks A \<and> serve_one now ks p A = None)"

text \<open>The requests of one connection in a sequence, with their answers.\<close>

fun exchanges :: "addr \<Rightarrow> op list \<Rightarrow> (bytes \<times> resp) list" where
  "exchanges a [] = []"
| "exchanges a (Request b now p r # ops) = (if b = a then (p, r) # exchanges a ops else exchanges a ops)"
| "exchanges a (Expiry now # ops) = exchanges a ops"

lemma exchanges_append [simp]: "exchanges a (ops @ ops') = exchanges a ops @ exchanges a ops'"
  by (induction a ops rule: exchanges.induct) simp_all

lemma serial_append: "serial A ops A1 \<Longrightarrow> serial A1 ops' A2 \<Longrightarrow> serial A (ops @ ops') A2"
  by (induction rule: serial.induct) (auto intro: serial.intros)

lemma serves_serial:
  assumes "serves clock ps A (Some (A', rs))"
  shows "\<exists>ops. serial A ops A' \<and> (\<forall>b. exchanges b ops = (if b = a then zip ps rs else []))"
  using assms
proof (induction ps arbitrary: clock A rs)
  case Nil
  then show ?case by (intro exI [of _ "[]"]) (auto intro: serial.intros elim: serves_NilE)
next
  case (Cons p ps)
  from Cons.prems obtain ks A1 r rs1 where
    s: "key_order ks A" "serve_one (clock 0) ks p A = Some (A1, r)"
      "serves (\<lambda>i. clock (Suc i)) ps A1 (Some (A', rs1))" "rs = r # rs1"
    by (elim serves_ConsE) (auto simp: map_option_case split: option.splits)
  from Cons.IH [OF s(3)] obtain ops where "serial A1 ops A'" "\<forall>b. exchanges b ops = (if b = a then zip ps rs1 else [])"
    by blast
  with s show ?case by (intro exI [of _ "Request a (clock 0) p r # ops"]) (auto intro: serial.intros)
qed

lemma serves_crash:
  assumes "serves clock ps A None"
  shows "\<exists>ops A'. serial A ops A' \<and> crashes A'"
  using assms
proof (induction ps arbitrary: clock A)
  case Nil
  then show ?case by (auto elim: serves_NilE)
next
  case (Cons p ps)
  show ?case
    using Cons.prems
  proof (cases rule: serves.cases)
    case (aborts ks)
    then have "crashes A" by (auto simp: crashes_def)
    with serial.nothing show ?thesis by (intro exI conjI)
  next
    case (answers ks A1 r res)
    then have "serves (\<lambda>i. clock (Suc i)) ps A1 None" by simp
    from Cons.IH [OF this] answers show ?thesis by (blast intro: request)
  qed
qed

section \<open>Conversations\<close>

text \<open>
  What the traffic on a connection has to do with a sequence of operations. For an open connection
  nothing is missing: its buffers hold the incomplete request and the unsent answers.
\<close>

definition conversation :: "transfers \<Rightarrow> op list \<Rightarrow> addr \<Rightarrow> Connection option \<Rightarrow> bool" where
  "conversation tr ops a co \<longleftrightarrow>
     (let requests = map fst (exchanges a ops); replies = concat (map (\<lambda>(p, r). reply r) (exchanges a ops)) in
      case co of
        Some c \<Rightarrow> split_frames (received tr a) = (requests, incoming c, False) \<and> sent tr a @ outgoing c = replies
      | None \<Rightarrow> (\<exists>rest bad. split_frames (received tr a) = (requests, rest, bad)) \<and> prefix (sent tr a) replies)"

definition session :: "world \<Rightarrow> transfers \<Rightarrow> op list \<Rightarrow> bool" where
  "session w tr ops \<longleftrightarrow> (\<forall>a. conversation tr ops a (conns w a))
     \<and> (\<forall>a \<ge> cbrk w. received tr a = [] \<and> sent tr a = [] \<and> exchanges a ops = [])"

lemma conversation_closes: "conversation tr ops a (Some c) \<Longrightarrow> conversation tr ops a None"
  by (auto simp: conversation_def Let_def intro: prefixI [OF sym])

lemma conversation_other:
  "b \<noteq> a \<Longrightarrow> (\<forall>b. exchanges b ops' = (if b = a then zs else [])) \<Longrightarrow>
    conversation (tr @ [(a, x, y)]) (ops @ ops') b co = conversation tr ops b co"
  by (simp add: conversation_def cong: option.case_cong)

lemma session_Nil: "conns w = Map.empty \<Longrightarrow> session w [] []"
  using drained_Nil by (auto simp: session_def conversation_def drained_def)

lemma session_closes:
  assumes "session w tr ops" "conns w' \<subseteq>\<^sub>m conns w" "cbrk w' = cbrk w"
  shows "session w' tr ops"
  unfolding session_def
proof (intro conjI allI)
  fix a
  have "conversation tr ops a (conns w a)" using assms(1) by (simp add: session_def)
  then show "conversation tr ops a (conns w' a)"
    using assms(2) conversation_closes [of tr ops a]
    by (cases "conns w a"; cases "conns w' a") (auto simp: map_le_def dom_def)
qed (use assms in \<open>auto simp: session_def\<close>)

text \<open>A new connection has said nothing yet.\<close>

lemma session_opens:
  assumes s: "session w tr ops" and w': "conns w' = (conns w)(cbrk w \<mapsto> fresh_conn fd now)" "cbrk w' = cbrk w + 1"
  shows "session w' tr ops"
  unfolding session_def
proof (intro conjI allI impI)
  have new: "received tr a = [] \<and> sent tr a = [] \<and> exchanges a ops = []" if "cbrk w \<le> a" for a
    using s that by (simp add: session_def)
  fix a
  show "conversation tr ops a (conns w' a)"
  proof (cases "a = cbrk w")
    case True
    with new [of a] w'(1) drained_Nil show ?thesis by (simp add: conversation_def fresh_conn_def drained_def)
  next
    case False
    with s w'(1) show ?thesis by (simp add: session_def)
  qed
  assume "cbrk w' \<le> a"
  then show "received tr a = []" "sent tr a = []" "exchanges a ops = []" using new [of a] w'(2) by auto
qed

text \<open>An event prolongs the conversation on its connection and no other.\<close>

lemma conversation_event:
  assumes k: "conversation tr ops a (Some c)" and dr: "drained (incoming c)"
    and v: "conversed w w' a (touch c ev) ev rs"
    and ops': "exchanges a ops' = zip (requests_of c ev) rs"
  shows "conversation (tr @ [(a, got c ev, written (srv w) (touch c ev) ev)]) (ops @ ops') a (conns w' a)"
proof -
  let ?ps = "requests_of c ev" and ?x = "exchanges a ops"
  have len: "length rs = length ?ps" using v by (simp add: conversed_def)
  have ex: "map fst (exchanges a (ops @ ops')) = map fst ?x @ ?ps"
    "map (\<lambda>(p, r). reply r) (exchanges a (ops @ ops')) = map (\<lambda>(p, r). reply r) ?x @ map reply rs"
    using len map_map [of reply snd "zip ?ps rs"] by (simp_all add: ops' split_def comp_def)
  have old: "split_frames (received tr a) = (map fst ?x, incoming c, False)"
    "sent tr a @ outgoing c = concat (map (\<lambda>(p, r). reply r) ?x)"
    using k by (simp_all add: conversation_def Let_def)
  obtain rest bad where "split_frames (incoming c @ got c ev) = (?ps, rest, bad)"
    using requests_split [OF dr] by blast
  note more = split_frames_append [OF old(1)]
  show ?thesis
  proof (cases "conns w' a")
    case None
    with v obtain u where "outgoing c @ concat (map reply rs) = written (srv w) (touch c ev) ev @ u"
      by (auto simp: conversed_def prefix_def)
    then have "(sent tr a @ outgoing c) @ concat (map reply rs) = (sent tr a @ written (srv w) (touch c ev) ev) @ u" by simp
    then have "prefix (sent tr a @ written (srv w) (touch c ev) ev) (concat (map (\<lambda>(p, r). reply r) ?x) @ concat (map reply rs))"
      unfolding old(2) by (rule prefixI)
    with None more [OF \<open>split_frames (incoming c @ got c ev) = _\<close>] show ?thesis
      unfolding conversation_def Let_def ex by simp
  next
    case (Some c')
    with v have "split_frames (incoming c @ got c ev) = (?ps, incoming c', False)"
      and out: "written (srv w) (touch c ev) ev @ outgoing c' = outgoing c @ concat (map reply rs)"
      by (simp_all add: conversed_def)
    then have "(sent tr a @ written (srv w) (touch c ev) ev) @ outgoing c' = (sent tr a @ outgoing c) @ concat (map reply rs)"
      by simp
    with Some more [OF \<open>split_frames (incoming c @ got c ev) = (?ps, incoming c', False)\<close>] show ?thesis
      unfolding conversation_def Let_def ex by (simp add: old(2))
  qed
qed

text \<open>No step but \<open>handle_accept\<close> creates an address.\<close>

lemma handle_destroy_frame:
  "handle_destroy w a = Some w' \<Longrightarrow> conns w' = (conns w)(a := None) \<and> cbrk w' = cbrk w"
  by (auto simp: handle_destroy_def split: bind_splits)

lemma handle_event_frame: "handle_event w fd ev = Some w' \<Longrightarrow> cbrk w' = cbrk w"
  by (auto simp: handle_event_def Let_def dest!: handle_destroy_frame split: if_splits bind_splits)

lemma close_idle_frame:
  assumes "close_idle w now = Some w'"
  shows "cbrk w' = cbrk w \<and> conns w' \<subseteq>\<^sub>m conns w"
proof (rule close_idle.raw_induct [OF _ assms], goal_cases)
  case (1 f w now w')
  note IH = 1(1)
  show ?case
  proof (cases "w' = w")
    case False
    with 1(2) obtain a w1 where w1: "handle_destroy w a = Some w1" "f w1 now = Some w'"
      by (auto split: bind_splits if_splits)
    have "conns w1 \<subseteq>\<^sub>m conns w" using handle_destroy_frame [OF w1(1)] by (auto simp: map_le_def)
    from map_le_trans [OF _ this, of "conns w'"] IH [OF w1(2)] have "conns w' \<subseteq>\<^sub>m conns w" by blast
    with IH [OF w1(2)] handle_destroy_frame [OF w1(1)] show ?thesis by simp
  qed simp
qed

lemma process_timers_frame:
  assumes "process_timers w now = Some w'"
  shows "cbrk w' = cbrk w \<and> conns w' \<subseteq>\<^sub>m conns w"
proof -
  from assms obtain w1 sv where "close_idle w now = Some w1" "w' = w1\<lparr>srv := sv\<rparr>"
    by (auto simp: process_timers_def split: bind_splits)
  with close_idle_frame [OF this(1)] show ?thesis by simp
qed

lemma handle_accept_frame: "handle_accept w now (Accepted fd res) = Some (w', rv) \<Longrightarrow> cbrk w' = cbrk w + 1"
  by (auto simp: handle_accept_def Let_def split: bind_splits)

section \<open>Every run is sequential\<close>

text \<open>
  The result of a part of a run that starts in \<open>A\<close> with the history \<open>tr\<close>, explained by \<open>ops\<close>: more
  operations explain the longer history, or they lead to a database where a request aborts.
\<close>

definition run_ok :: "u64 \<Rightarrow> adb \<Rightarrow> transfers \<Rightarrow> op list \<Rightarrow> (world \<times> transfers) option \<Rightarrow> bool" where
  "run_ok T A tr ops res \<longleftrightarrow> (\<exists>ops' A'. serial A ops' A' \<and>
     (case res of
        None \<Rightarrow> crashes A'
      | Some (w', tr') \<Rightarrow> world_ok T w' A' \<and> session w' (tr @ tr') (ops @ ops')))"

lemma run_ok_here: "world_ok T w A \<Longrightarrow> session w tr ops \<Longrightarrow> run_ok T A tr ops (Some (w, []))"
  unfolding run_ok_def by (intro exI [of _ "[]"] exI [of _ A]) (simp add: serial.nothing)

lemma run_ok_bind:
  assumes "run_ok T A tr ops res"
    and next_part: "\<And>w' tr' ops' A'. res = Some (w', tr') \<Longrightarrow> world_ok T w' A' \<Longrightarrow> session w' (tr @ tr') (ops @ ops') \<Longrightarrow>
      run_ok T' A' (tr @ tr') (ops @ ops') (f w')"
  shows "run_ok T' A tr ops (do { (w', tr') \<leftarrow> res; (w'', tr'') \<leftarrow> f w'; Some (w'', tr' @ tr'') })"
proof (cases res)
  case None
  with assms(1) show ?thesis by (simp add: run_ok_def)
next
  case (Some x)
  obtain w' tr' where x: "x = (w', tr')" by fastforce
  from assms(1) Some x obtain ops' A' where 1: "serial A ops' A'" "world_ok T w' A'" "session w' (tr @ tr') (ops @ ops')"
    by (auto simp: run_ok_def)
  from next_part [OF _ 1(2,3)] Some x obtain ops'' A'' where
    2: "serial A' ops'' A''" "case f w' of None \<Rightarrow> crashes A''
      | Some (w'', tr'') \<Rightarrow> world_ok T' w'' A'' \<and> session w'' ((tr @ tr') @ tr'') ((ops @ ops') @ ops'')"
    unfolding run_ok_def by blast
  from serial_append [OF 1(1) 2(1)] 2(2) Some x show ?thesis
    unfolding run_ok_def by (intro exI [of _ "ops' @ ops''"] exI [of _ A'']) (auto split: option.splits)
qed

text \<open>Expiry at the end of a pass.\<close>

lemma run_ok_timers:
  assumes "run_ok T A tr ops res" "no_overflow T"
  shows "run_ok T A tr ops (do { (w, tr') \<leftarrow> res; w \<leftarrow> process_timers w T; Some (w, tr') })"
proof -
  have "run_ok T A' tr' ops' (map_option (\<lambda>w. (w, [])) (process_timers w T))"
    if s: "world_ok T w A'" "session w tr' ops'" for w A' tr' ops'
  proof -
    from s(1) obtain xs where xs: "db_ok (srv w) A'" "net_inv w xs" "seen w xs T" by (auto simp: world_ok_def)
    from process_timers_ok [OF this assms(2)] obtain w' where
      w': "process_timers w T = Some w'" "world_ok T w' (expire T A')" by (auto simp: world_ok_def)
    from process_timers_frame [OF w'(1)] session_closes [OF s(2)] have "session w' tr' ops'" by blast
    then have "session w' tr' (ops' @ [Expiry T])" by (simp add: session_def conversation_def)
    with w' serial.expiry [OF serial.nothing] show ?thesis
      unfolding run_ok_def by (intro exI [of _ "[Expiry T]"] exI [of _ "expire T A'"]) simp
  qed
  then have "run_ok T A tr ops (do { (w', tr') \<leftarrow> res; (w'', tr'') \<leftarrow> map_option (\<lambda>w. (w, [])) (process_timers w' T);
    Some (w'', tr' @ tr'') })" by (intro run_ok_bind [OF assms(1)])
  moreover have "(do { (w', tr') \<leftarrow> res; (w'', tr'') \<leftarrow> map_option (\<lambda>w. (w, [])) (process_timers w' T);
    Some (w'', tr' @ tr'') }) = do { (w, tr') \<leftarrow> res; w \<leftarrow> process_timers w T; Some (w, tr') }"
    by (cases res) (auto split: bind_splits)
  ultimately show ?thesis by simp
qed

text \<open>One event.\<close>

lemma traced_event_ok:
  assumes ok: "world_ok t w A" "session w tr ops" and t: "t \<le> io_now ev" and rf: "read_fits ev" and rdy: "ready ev"
    and fd: "fd < length (fd2conn w)" "fd2conn w ! fd = Some a"
  shows "run_ok (io_now ev) A tr ops (map_option (\<lambda>w'. (w', traffic w fd ev)) (handle_event w fd ev))"
proof -
  from ok(1) obtain xs where xs: "net_inv w xs" "seen w xs (io_now ev)" and db: "db_ok (srv w) A"
    using t by (auto simp: world_ok_def intro: seen_mono)
  then obtain c where c: "conns w a = Some c" using net_linksD(6) [of w xs fd a] fd by (auto simp: net_inv_def)
  have "a \<in> set xs" using c xs(1) net_linksD(2) [of w xs] by (auto simp: net_inv_def)
  then have dr: "drained (incoming c)" using xs(1) c by (auto simp: net_inv_def conns_ok_def conn_ok_def)
  have tr: "traffic w fd ev = [(a, got c ev, written (srv w) (touch c ev) ev)]" using rdy fd c by (simp add: traffic_def)
  from handle_event_ok [OF db xs(1) fd c xs(2) rf rdy] obtain res where
    s: "serves (io_clock ev) (requests_of c ev) A res" and
    r: "rel_option (\<lambda>(A', rs) w'. db_ok (srv w') A' \<and> others_same w w' a fd \<and> conversed w w' a (touch c ev) ev rs
        \<and> (\<exists>xs'. net_inv w' xs' \<and> set xs' \<subseteq> set xs \<and> seen w' xs' (io_now ev))) res (handle_event w fd ev)"
    by blast
  show ?thesis
  proof (cases res)
    case None
    with r serves_crash [of "io_clock ev" "requests_of c ev" A] s show ?thesis by (auto simp: run_ok_def)
  next
    case (Some x)
    obtain A' rs where x: "x = (A', rs)" by fastforce
    from rel_SomeD [OF r [unfolded Some x]] obtain w' where
      w': "handle_event w fd ev = Some w'" "world_ok (io_now ev) w' A'" "others_same w w' a fd"
        "conversed w w' a (touch c ev) ev rs" by (auto simp: world_ok_def)
    from serves_serial [of "io_clock ev" "requests_of c ev" A A' rs a] s Some x obtain ops' where
      ops': "serial A ops' A'" "\<forall>b. exchanges b ops' = (if b = a then zip (requests_of c ev) rs else [])" by blast
    have a: "a < cbrk w" using net_linksD(4) [of w xs a c] xs(1) c by (auto simp: net_inv_def)
    have k: "conversation tr ops a (Some c)" using ok(2) by (simp add: session_def flip: c)
    have "conversation (tr @ traffic w fd ev) (ops @ ops') b (conns w' b)" for b
    proof (cases "b = a")
      case True
      with conversation_event [OF k dr w'(4), of ops'] ops'(2) show ?thesis by (simp add: tr)
    next
      case False
      with conversation_other [OF False ops'(2)] ok(2) w'(3) show ?thesis
        by (simp add: tr session_def others_same_def)
    qed
    moreover have "received (tr @ traffic w fd ev) b = [] \<and> sent (tr @ traffic w fd ev) b = [] \<and> exchanges b (ops @ ops') = []"
      if "cbrk w' \<le> b" for b
      using ok(2) that a ops'(2) handle_event_frame [OF w'(1)] by (auto simp: tr session_def)
    ultimately have "session w' (tr @ traffic w fd ev) (ops @ ops')" by (simp add: session_def)
    with w'(1,2) ops'(1) show ?thesis unfolding run_ok_def by (intro exI [of _ ops'] exI [of _ A']) simp
  qed
qed

text \<open>The events of a pass, one after the other.\<close>

lemma event_polled:
  assumes ok: "world_ok t w A" and t: "t \<le> io_now ev" and rf: "read_fits ev" and rdy: "ready ev"
    and fd: "fd < length (fd2conn w)" "fd2conn w ! fd = Some a" and w1: "handle_event w fd ev = Some w1"
    and p: "polled w fds" "fd \<notin> set fds"
  shows "polled w1 fds"
proof -
  from ok obtain xs where xs: "net_inv w xs" "seen w xs (io_now ev)" and db: "db_ok (srv w) A"
    using t by (auto simp: world_ok_def intro: seen_mono)
  then obtain c where c: "conns w a = Some c" using net_linksD(6) [of w xs fd a] fd by (auto simp: net_inv_def)
  from handle_event_ok [OF db xs(1) fd c xs(2) rf rdy] w1 have "others_same w w1 a fd" by (auto simp: option_rel_Some2)
  with p show ?thesis by (rule polled_others)
qed

lemma traced_events_ok:
  assumes "world_ok t w A" "session w tr ops" "polled w (map fst evs)"
    "\<forall>(fd, ev) \<in> set evs. read_fits ev \<and> io_now ev \<le> T" "sorted (t # map (\<lambda>(fd, ev). io_now ev) evs)" "t \<le> T"
  shows "run_ok T A tr ops (traced_events w evs)"
  using assms
proof (induction evs arbitrary: t w A tr ops)
  case Nil
  then have "world_ok T w A" by (auto simp: world_ok_def intro: seen_mono)
  with Nil show ?case by (simp add: run_ok_here)
next
  case (Cons fe evs)
  obtain fd ev where fe: "fe = (fd, ev)" by fastforce
  have le: "t \<le> io_now ev" "io_now ev \<le> T" "sorted (io_now ev # map (\<lambda>(fd, ev). io_now ev) evs)"
    "sorted (t # map (\<lambda>(fd, ev). io_now ev) evs)" "read_fits ev" "\<forall>(fd, ev) \<in> set evs. read_fits ev \<and> io_now ev \<le> T"
    using Cons.prems(4,5) fe by auto
  have p: "fd \<notin> set (map fst evs)" "polled w (map fst evs)" using Cons.prems(3) fe by (auto simp: polled_def)
  show ?case
  proof (cases "ready ev")
    case False
    then have "traced_events w (fe # evs) = traced_events w evs"
      by (cases "traced_events w evs") (auto simp: fe handle_event_def ready_def traffic_def)
    with Cons.IH [OF Cons.prems(1,2) p(2) le(6,4) Cons.prems(6)] show ?thesis by simp
  next
    case True
    from Cons.prems(3) obtain a where fd: "fd < length (fd2conn w)" "fd2conn w ! fd = Some a"
      by (auto simp: polled_def fe)
    have "traced_events w (fe # evs) = do {
        (w1, tr') \<leftarrow> map_option (\<lambda>w'. (w', traffic w fd ev)) (handle_event w fd ev);
        (w2, tr'') \<leftarrow> traced_events w1 evs;
        Some (w2, tr' @ tr'') }"
      by (cases "handle_event w fd ev") (simp_all add: fe)
    moreover have "run_ok T A tr ops \<dots>"
    proof (rule run_ok_bind [OF traced_event_ok [OF Cons.prems(1,2) le(1,5) True fd]], goal_cases)
      case (1 w1 tr' ops' A')
      then have "handle_event w fd ev = Some w1" by auto
      from event_polled [OF Cons.prems(1) le(1,5) True fd this p(2,1)] have "polled w1 (map fst evs)" .
      with 1 show ?case by (intro Cons.IH [OF _ _ _ le(6,3,2)])
    qed
    ultimately show ?thesis by simp
  qed
qed

lemma traced_accept:
  assumes ok: "world_ok now w A" "session w tr ops" and acc: "accept_ok w acc"
    and w1: "(case acc of None \<Rightarrow> Some w | Some fd \<Rightarrow> do { (w, _) \<leftarrow> handle_accept w now fd; Some w }) = Some w1"
  shows "session w1 tr ops"
proof (cases "acc = None \<or> acc = Some Accept_error")
  case True
  with w1 ok(2) show ?thesis by (auto simp: handle_accept_def)
next
  case False
  with acc obtain fd flags where fd: "acc = Some (Accepted fd (flags, 0, 0))" and free: "fd_free w fd"
    by (auto simp: accept_ok_def split: option.splits accept_result.splits)
  from ok(1) obtain xs where xs: "net_inv w xs" "seen w xs now" by (auto simp: world_ok_def)
  from handle_accept_ok [OF xs free, of flags] fd w1 obtain rv where
    "handle_accept w now (Accepted fd (flags, 0, 0)) = Some (w1, rv)" "conns w1 = (conns w)(cbrk w \<mapsto> fresh_conn fd now)"
    by auto
  with session_opens [OF ok(2) this(2)] handle_accept_frame show ?thesis by blast
qed

lemma traced_pass_ok:
  assumes ok: "world_ok t w A" "session w tr ops" and times: "t \<le> now" "now \<le> T" "no_overflow T"
    and poll: "\<And>args timeout. poll_allowed w now T (poll args timeout)"
  shows "run_ok T A tr ops (traced_pass w (t, poll, now, T))"
proof -
  have "no_overflow t" using times by (auto simp: no_overflow_def word_le_def)
  with ok(1) obtain args ms where
    b: "poll_args w (fd2conn w) = Some args" "next_timer_ms w t = Some ms" "polled w (map fst args)"
    by (rule before_poll)
  have w: "world_ok now w A" "world_ok T w A"
    using ok(1) times by (auto simp: world_ok_def intro: seen_mono [OF _ order_trans])
  show ?thesis
  proof (cases "poll args ms")
    case Poll_eintr
    with b run_ok_here [OF w(2) ok(2)] show ?thesis by (simp add: traced_pass_def)
  next
    case Poll_error
    with poll [of args ms] show ?thesis by (simp add: poll_allowed_def)
  next
    case (Poll_ready acc evs)
    note a = after_poll [OF poll [of args ms, unfolded Poll_ready] b(3)]
    from accept_first [OF w(1) a(1,2)] obtain w1 where
      w1: "(case acc of None \<Rightarrow> Some w | Some fd \<Rightarrow> do { (w, _) \<leftarrow> handle_accept w now fd; Some w }) = Some w1"
        "world_ok now w1 A" "polled w1 (map fst (zip (map fst args) evs))" by blast
    from traced_accept [OF w(1) ok(2) a(1) w1(1)] have "session w1 tr ops" .
    from run_ok_timers [OF traced_events_ok [OF w1(2) this w1(3) a(3,4) times(2)] times(3)]
    show ?thesis using b w1(1) Poll_ready by (simp add: traced_pass_def)
  qed
qed

lemma traced_run_ok:
  assumes "world_ok T0 w A" "session w tr ops" "kernel_ok w T0 ps"
  shows "run_ok (last_time T0 ps) A tr ops (traced_run w ps)"
  using assms
proof (induction ps arbitrary: w T0 A tr ops)
  case Nil
  then show ?case by (simp add: run_ok_here)
next
  case (Cons p ps)
  obtain t poll now T where p: "p = (t, poll, now, T)" by (cases p)
  from Cons.prems(3) have k: "T0 \<le> t" "t \<le> now" "now \<le> T" "no_overflow T"
    "\<And>args timeout. poll_allowed w now T (poll args timeout)"
    "\<And>w'. event_loop w t poll now T = Some w' \<Longrightarrow> kernel_ok w' T ps"
    by (auto simp: p)
  have "world_ok t w A" using Cons.prems(1) k(1) by (auto simp: world_ok_def intro: seen_mono)
  from traced_pass_ok [OF this Cons.prems(2) k(2-5)] have "run_ok T A tr ops (traced_pass w p)" by (simp add: p)
  then have "run_ok (last_time T ps) A tr ops
    (do { (w', tr') \<leftarrow> traced_pass w p; (w'', tr'') \<leftarrow> traced_run w' ps; Some (w'', tr' @ tr'') })"
  proof (rule run_ok_bind, goal_cases)
    case (1 w1 tr1 ops1 A1)
    have "event_loop w t poll now T = Some w1"
      using 1(1) traced_pass_erase [of w t poll now T, symmetric] by (simp add: p)
    from Cons.IH [OF 1(2,3) k(6) [OF this]] show ?case .
  qed
  then show ?case by (simp add: p)
qed

lemma run_from_start:
  assumes "server_start = Some w0" "kernel_ok w0 t0 ps"
  shows "run_ok (last_time t0 ps) Map.empty [] [] (traced_run w0 ps)"
proof -
  obtain w where w: "server_start = Some w" "net_inv w []" "\<And>t. seen w [] t" "db_ok (srv w) Map.empty"
      "conns w = Map.empty"
    by (rule server_start_state) blast
  have "w = w0" by (rule option.inject [THEN iffD1], rule trans [OF w(1) [symmetric] assms(1)])
  then have "world_ok t0 w0 Map.empty" "session w0 [] []" using w session_Nil by (auto simp: world_ok_def)
  then show ?thesis by (rule traced_run_ok [OF _ _ assms(2)])
qed

text \<open>Two parts of a run.\<close>

lemma traced_run_append:
  "traced_run w (ps @ qs) = do {
     (w1, tr) \<leftarrow> traced_run w ps;
     (w2, tr') \<leftarrow> traced_run w1 qs;
     Some (w2, tr @ tr')
   }"
proof (induction ps arbitrary: w)
  case Nil
  show ?case by (cases "traced_run w qs") auto
next
  case (Cons p ps)
  show ?case
    unfolding append_Cons traced_run.simps Cons.IH
    by (cases "traced_pass w p") (auto split: bind_splits)
qed

end
