(* ===== verification/Exchange.thy ===== *)
theory Exchange
  imports Netio
begin

text \<open>
  Client and server together. What \<open>send_request\<close> sends is one frame of the server's stream, what the
  server appends to its output for it is one frame that \<open>read_response\<close> reads and prints. The second
  half shows that the server's stream may be cut anywhere: handling a buffer and then more bytes is
  handling all of them at once.
\<close>

lemma request_frame_frame:
  assumes "request_frame cmd = Some f" "length (request_payload cmd) < 2 ^ 32"
  shows "f = frame_of (request_payload cmd) \<and> length (request_payload cmd) \<le> k_max_msg"
  using assms by (auto simp: request_frame_def Let_def frame_of_def append_buffer_def not_less split: if_splits)

lemma read_response_reply:
  assumes "read_all rds 4 [] = Some (0, u32_bytes (of_nat (length (ser r))), e, rds')"
    "read_all rds' (length (ser r)) [] = Some (0, ser r, e', rds'')" "length (ser r) \<le> k_max_msg"
  shows "read_response rds = Some (int (length (ser r)), events_of r)"
proof -
  have n: "length (ser r) < 2 ^ 31" using assms(3) by (simp add: k_max_msg_def)
  then have u: "unat (of_nat (length (ser r)) :: u32) = length (ser r)" by simp
  have p: "print_response (ser r) = Some (int (length (ser r)), events_of r)"
    using print_response_ser [OF n, of "[]"] by simp
  have "word_of_int (int (length (ser r))) = (of_nat (length (ser r)) :: u32)" by simp
  then show ?thesis using assms u p by (simp add: read_response_def Let_def del: ser.simps)
qed

text \<open>What a successful \<open>send_request\<close> has sent, and what reading a reply in pieces prints.\<close>

lemma sent_frame:
  assumes "send_request rvs cmd = Some (0, sent)" "length (request_payload cmd) \<le> k_max_msg"
  shows "sent = frame_of (request_payload cmd)"
proof -
  have n: "length (request_payload cmd) < 2 ^ 32" using assms(2) by (simp add: k_max_msg_def)
  from assms(1) obtain f where f: "request_frame cmd = Some f" "write_all rvs f [] = Some (0, sent)"
    by (auto simp: send_request_def split: option.splits bind_splits)
  from write_all_ok [OF f(2)] request_frame_frame [OF f(1) n] show ?thesis by simp
qed

lemma read_reply:
  assumes "concat hs = take 4 (reply r)" "concat ps = drop 4 (reply r)" "[] \<notin> set (hs @ ps)"
  shows "read_response (map Read_data (hs @ ps)) = Some (int (length (ser (fit r))), events_of (fit r))"
proof -
  let ?p = "ser (fit r)"
  have c: "concat hs = u32_bytes (of_nat (length ?p))" "concat ps = ?p"
    using assms(1,2) by (simp_all add: frame_of_def)
  have ne: "\<forall>c \<in> set hs. c \<noteq> []" "\<forall>c \<in> set ps. c \<noteq> []" using assms(3) by auto
  show ?thesis
    using read_all_ok [OF c(1) ne(1), of "map Read_data ps" "[]"] read_all_ok [OF c(2) ne(2), of "[]" "[]"] fit_size [of r]
    by (intro read_response_reply [of "map Read_data (hs @ ps)" _ False "map Read_data ps" False "[]"]) simp_all
qed

section \<open>Cutting the stream\<close>

lemma handle_one_request_more:
  assumes "handle_one_request sv now c = Some (sv', c', True)"
  shows "handle_one_request sv now (c\<lparr>incoming := incoming c @ b\<rparr>)
      = Some (sv', c'\<lparr>incoming := incoming c' @ b\<rparr>, True)"
    "length (incoming c') < length (incoming c)"
proof -
  let ?n = "u32_of_bytes (take 4 (incoming c))"
  have g: "\<not> length (incoming c) < 4" "unat ?n \<le> k_max_msg" "unat (4 + ?n) \<le> length (incoming c)"
    using assms by (auto simp: handle_one_request_def Let_def not_less split: if_splits)
  have n: "unat (4 + ?n) = 4 + unat ?n" by (rule unat_header [OF g(2)])
  have rest: "consume_buffer (incoming c @ b) (4 + unat ?n) = consume_buffer (incoming c) (4 + unat ?n) @ b"
    using g(3) n by (simp add: consume_buffer_def)
  have pay: "take (unat ?n) (drop 4 (incoming c @ b)) = take (unat ?n) (drop 4 (incoming c))"
    using g n by simp
  have hd: "take 4 (incoming c @ b) = take 4 (incoming c)" using g(1) by simp
  have len: "length (consume_buffer (incoming c) (4 + unat ?n)) < length (incoming c)"
    using g(1,3) n by (simp add: consume_buffer_def)
  note code = handle_one_request_def Let_def n
  show "length (incoming c') < length (incoming c)"
    using assms g len by (auto simp: code split: if_splits prod.splits bind_splits)
  show "handle_one_request sv now (c\<lparr>incoming := incoming c @ b\<rparr>)
      = Some (sv', c'\<lparr>incoming := incoming c' @ b\<rparr>, True)"
    using assms g rest pay hd by (auto simp: code split: if_splits prod.splits bind_splits)
qed

text \<open>Processing a buffer and then what follows is processing both at once.\<close>

lemma handle_requests_cut:
  assumes "handle_requests sv clock c = Some (sv1, c1)" "\<not> want_close c1"
  shows "\<exists>n. \<forall>b. handle_requests sv clock (c\<lparr>incoming := incoming c @ b\<rparr>)
    = handle_requests sv1 (\<lambda>i. clock (n + i)) (c1\<lparr>incoming := incoming c1 @ b\<rparr>)"
  using assms
proof (induction "length (incoming c)" arbitrary: sv clock c rule: less_induct)
  case less
  from less.prems(1) obtain sv' c' more where
    one: "handle_one_request sv (clock 0) c = Some (sv', c', more)"
      "(if more then handle_requests sv' (\<lambda>i. clock (Suc i)) c' else Some (sv', c')) = Some (sv1, c1)"
    by (subst (asm) handle_requests.simps) (auto split: bind_splits)
  show ?case
  proof (cases more)
    case False
    then have "c1 = c" "sv1 = sv"
      using one less.prems(2)
      by (auto simp: handle_one_request_def Let_def split: if_splits prod.splits bind_splits)
    then show ?thesis by (intro exI [of _ 0]) simp
  next
    case True
    with one(1) have "handle_one_request sv (clock 0) c = Some (sv', c', True)" by simp
    note m = handle_one_request_more [OF this]
    from less.hyps [OF m(2), of sv' "\<lambda>i. clock (Suc i)"] one(2) True less.prems(2) obtain n where
      n: "\<forall>b. handle_requests sv' (\<lambda>i. clock (Suc i)) (c'\<lparr>incoming := incoming c' @ b\<rparr>)
        = handle_requests sv1 (\<lambda>i. clock (Suc (n + i))) (c1\<lparr>incoming := incoming c1 @ b\<rparr>)"
      by auto
    have "handle_requests sv clock (c\<lparr>incoming := incoming c @ b\<rparr>)
        = handle_requests sv' (\<lambda>i. clock (Suc i)) (c'\<lparr>incoming := incoming c' @ b\<rparr>)" for b
      using m(1) [of b] by (subst handle_requests.simps) simp
    with n show ?thesis by (intro exI [of _ "Suc n"]) simp
  qed
qed

end
