(* ===== verification/Repl.thy ===== *)
theory Repl
  imports Exchange
begin

text \<open>
  The interactive loop of \<open>client.cpp\<close>. A line is split at white space and sent as one request. The
  input of the loop is the list of lines, each with what the kernel does during its exchange; the
  result is what was sent for each request and what was printed.
\<close>

section \<open>Tokens\<close>

text \<open>\<open>for (std::string tok; iss >> tok; )\<close>: the maximal runs of bytes that are not white space.\<close>

function tokenize :: "bytes \<Rightarrow> bytes list" where
  "tokenize line =
     (let s = dropWhile isspace line in
      if s = [] then []
      else takeWhile (\<lambda>b. \<not> isspace b) s # tokenize (dropWhile (\<lambda>b. \<not> isspace b) s))"
  by pat_completeness auto
termination
proof (relation "measure length", goal_cases)
  case (2 line s)
  have "\<not> isspace (hd s)" using hd_dropWhile 2 by blast
  with \<open>s \<noteq> []\<close> obtain b r where s: "s = b # r" "\<not> isspace b" by (cases s) simp_all
  have "length (dropWhile (\<lambda>b. \<not> isspace b) s) < length s"
    using length_dropWhile_le [of "\<lambda>b. \<not> isspace b" r] by (simp only: s) (simp add: s(2))
  also have "\<dots> \<le> length line" unfolding \<open>s = dropWhile isspace line\<close> by (rule length_dropWhile_le)
  finally show ?case by simp
qed simp

declare tokenize.simps [simp del]

fun repl :: "(bytes \<times> int list \<times> read_result list) list \<Rightarrow> (bytes list \<times> event list) option" where
  "repl [] = Some ([], [Prompt])"
| "repl ((line, rvs, rds) # lines) =
     (if line = [] then do { (frames, evs) \<leftarrow> repl lines; Some (frames, Prompt # evs) }
      else
        (let request = tokenize line in
         if request = [] then do { (frames, evs) \<leftarrow> repl lines; Some (frames, Prompt # evs) }
         else if request ! 0 = lit ''exit'' \<or> request ! 0 = lit ''quit'' then Some ([], [Prompt])
         else do {
           (err, sent) \<leftarrow> send_request rvs request;
           if err \<noteq> 0 then Some ([sent], [Prompt, Msg (lit ''write() error'')])
           else do {
             (err, evs) \<leftarrow> read_response rds;
             if err < 0 then Some ([sent], Prompt # evs @ [Msg (lit ''read() error'')])
             else do {
               (frames, evs') \<leftarrow> repl lines;
               Some (sent # frames, Prompt # evs @ evs')
             }
           }
         }))"

section \<open>Splitting and joining\<close>

definition is_token :: "bytes \<Rightarrow> bool" where
  "is_token t \<longleftrightarrow> t \<noteq> [] \<and> (\<forall>b \<in> set t. \<not> isspace b)"

fun join :: "bytes list \<Rightarrow> bytes" where
  "join [] = []"
| "join [t] = t"
| "join (t # ts) = t @ 32 # join ts"

lemma space_isspace [simp]: "isspace 32"
  by (simp add: isspace_def)

lemma tokenize_cons:
  assumes "is_token t" "r = [] \<or> isspace (hd r)"
  shows "tokenize (t @ r) = t # tokenize r"
proof -
  have t: "t \<noteq> []" "\<not> isspace (hd t)" "takeWhile (\<lambda>b. \<not> isspace b) t = t" "dropWhile (\<lambda>b. \<not> isspace b) t = []"
    using assms(1) by (auto simp: is_token_def)
  have s: "dropWhile isspace (t @ r) = t @ r" using t(1,2) by (cases t) auto
  have "takeWhile (\<lambda>b. \<not> isspace b) (t @ r) = t" "dropWhile (\<lambda>b. \<not> isspace b) (t @ r) = r"
    using assms by (cases r; auto simp: is_token_def)+
  with s t(1) show ?thesis by (subst tokenize.simps) (simp add: Let_def)
qed

lemma tokenize_space: "tokenize (32 # r) = tokenize r"
  by (subst (1 2) tokenize.simps) simp

lemma tokenize_tokens: "t \<in> set (tokenize line) \<Longrightarrow> is_token t"
proof (induction line rule: tokenize.induct)
  case (1 line)
  let ?s = "dropWhile isspace line"
  show ?case
  proof (cases "?s = []")
    case True
    with "1.prems" show ?thesis by (subst (asm) tokenize.simps) simp
  next
    case False
    then obtain b r where s: "?s = b # r" "\<not> isspace b"
      using hd_dropWhile [OF False] by (cases ?s) simp_all
    have first: "is_token (takeWhile (\<lambda>b. \<not> isspace b) ?s)"
      unfolding s(1) is_token_def using s(2) by (auto dest: set_takeWhileD)
    have "tokenize line = takeWhile (\<lambda>b. \<not> isspace b) ?s # tokenize (dropWhile (\<lambda>b. \<not> isspace b) ?s)"
      by (subst tokenize.simps) (simp only: Let_def False if_False)
    with "1.prems" have "t = takeWhile (\<lambda>b. \<not> isspace b) ?s \<or> t \<in> set (tokenize (dropWhile (\<lambda>b. \<not> isspace b) ?s))"
      by (simp only: list.set insert_iff)
    with first "1.IH" [OF refl False] show ?thesis by blast
  qed
qed

lemma tokenize_join:
  assumes "\<forall>t \<in> set ts. is_token t"
  shows "tokenize (join ts) = ts"
  using assms
proof (induction ts rule: join.induct)
  case 1
  show ?case by (simp add: tokenize.simps)
next
  case (2 t)
  then show ?case using tokenize_cons [of t "[]"] by (simp add: tokenize.simps [of "[]"])
next
  case (3 t u ts)
  then show ?case using tokenize_cons [of t "32 # join (u # ts)"] by (simp add: tokenize_space)
qed

end
