(* ===== verification/Thread_Pool.thy ===== *)
theory Thread_Pool
  imports Prelude
begin

text \<open>
  The worker pool, \<open>core/thread_pool.h\<close> and \<open>core/thread_pool.cpp\<close>, as a machine whose steps are the
  synchronization points of the source: one step per call into the pthread library and per access to
  the queue between two of them. \<open>pthread_cond_wait\<close> releases the mutex and sleeps in one step, may
  wake up without a signal, and takes the mutex again before it returns; \<open>pthread_cond_signal\<close>
  wakes one sleeping thread if there is one. The fields \<open>submitted\<close>, \<open>taken\<close> and \<open>finished\<close> record
  the history.
\<close>

section \<open>The machine\<close>

record Work =
  fn :: addr
  arg :: ptr

datatype worker_pc =
    At_lock                \<comment> \<open>before \<open>pthread_mutex_lock\<close>\<close>
  | At_check               \<comment> \<open>holding the mutex, before \<open>queue.empty()\<close>\<close>
  | Asleep                 \<comment> \<open>in \<open>pthread_cond_wait\<close>\<close>
  | Awake                  \<comment> \<open>in \<open>pthread_cond_wait\<close>, waiting for the mutex\<close>
  | Took Work              \<comment> \<open>holding the mutex, before \<open>pthread_mutex_unlock\<close>\<close>
  | Working Work           \<comment> \<open>before or in \<open>w.f(w.arg)\<close>\<close>

datatype producer_pc =
    Outside
  | Entered Work           \<comment> \<open>holding the mutex, before \<open>push_back\<close>\<close>
  | Pushed                 \<comment> \<open>before \<open>pthread_cond_signal\<close>\<close>
  | Signalled              \<comment> \<open>before \<open>pthread_mutex_unlock\<close>\<close>

datatype thread = Producer | Worker nat

record TheadPool =
  threads :: nat
  queue :: "Work list"
  mu :: "thread option"
  wpc :: "nat \<Rightarrow> worker_pc"
  ppc :: producer_pc
  submitted :: "Work list"
  taken :: "Work list"
  finished :: "Work list"

text \<open>The arguments \<open>mutex_rv\<close>, \<open>cond_rv\<close> and \<open>create_rv\<close> are what the pthread calls return.\<close>

definition thread_pool_init :: "nat \<Rightarrow> int \<Rightarrow> int \<Rightarrow> (nat \<Rightarrow> int) \<Rightarrow> TheadPool option" where
  "thread_pool_init num_threads mutex_rv cond_rv create_rv = do {
     assertion (num_threads > 0);
     assertion (mutex_rv = 0);
     assertion (cond_rv = 0);
     assertion (list_all (\<lambda>i. create_rv i = 0) [0..<num_threads]);
     Some \<lparr>threads = num_threads, queue = [], mu = None, wpc = (\<lambda>_. At_lock), ppc = Outside,
           submitted = [], taken = [], finished = []\<rparr>
   }"

text \<open>The steps of a call of \<open>thread_pool_queue\<close>.\<close>

inductive thread_pool_queue :: "TheadPool \<Rightarrow> TheadPool \<Rightarrow> bool" where
  enter: "ppc s = Outside \<Longrightarrow> mu s = None \<Longrightarrow> thread_pool_queue s (s\<lparr>mu := Some Producer, ppc := Entered w\<rparr>)"
| push: "ppc s = Entered w \<Longrightarrow>
    thread_pool_queue s (s\<lparr>queue := queue s @ [w], ppc := Pushed, submitted := submitted s @ [w]\<rparr>)"
| signal: "ppc s = Pushed \<Longrightarrow> i < threads s \<Longrightarrow> wpc s i = Asleep \<Longrightarrow>
    thread_pool_queue s (s\<lparr>wpc := (wpc s)(i := Awake), ppc := Signalled\<rparr>)"
| signal_nobody: "ppc s = Pushed \<Longrightarrow> \<forall>i < threads s. wpc s i \<noteq> Asleep \<Longrightarrow>
    thread_pool_queue s (s\<lparr>ppc := Signalled\<rparr>)"
| leave: "ppc s = Signalled \<Longrightarrow> thread_pool_queue s (s\<lparr>mu := None, ppc := Outside\<rparr>)"

text \<open>The steps of worker \<open>i\<close>.\<close>

inductive worker :: "nat \<Rightarrow> TheadPool \<Rightarrow> TheadPool \<Rightarrow> bool" where
  lock: "wpc s i = At_lock \<Longrightarrow> mu s = None \<Longrightarrow>
    worker i s (s\<lparr>mu := Some (Worker i), wpc := (wpc s)(i := At_check)\<rparr>)"
| wait: "wpc s i = At_check \<Longrightarrow> queue s = [] \<Longrightarrow> worker i s (s\<lparr>mu := None, wpc := (wpc s)(i := Asleep)\<rparr>)"
| spurious: "wpc s i = Asleep \<Longrightarrow> worker i s (s\<lparr>wpc := (wpc s)(i := Awake)\<rparr>)"
| relock: "wpc s i = Awake \<Longrightarrow> mu s = None \<Longrightarrow>
    worker i s (s\<lparr>mu := Some (Worker i), wpc := (wpc s)(i := At_check)\<rparr>)"
| pop: "wpc s i = At_check \<Longrightarrow> queue s = w # ws \<Longrightarrow>
    worker i s (s\<lparr>queue := ws, wpc := (wpc s)(i := Took w), taken := taken s @ [w]\<rparr>)"
| unlock: "wpc s i = Took w \<Longrightarrow> worker i s (s\<lparr>mu := None, wpc := (wpc s)(i := Working w)\<rparr>)"
| run: "wpc s i = Working w \<Longrightarrow>
    worker i s (s\<lparr>wpc := (wpc s)(i := At_lock), finished := finished s @ [w]\<rparr>)"

inductive pool_step :: "TheadPool \<Rightarrow> TheadPool \<Rightarrow> bool" where
  by_producer: "thread_pool_queue s s' \<Longrightarrow> pool_step s s'"
| by_worker: "i < threads s \<Longrightarrow> worker i s s' \<Longrightarrow> pool_step s s'"

text \<open>
  The steps that bring work forward: all but the begin of a new submission and the wake-ups that nobody has
  asked for. A thread that sleeps stays asleep until it is signalled.
\<close>

inductive work_step :: "TheadPool \<Rightarrow> TheadPool \<Rightarrow> bool" where
  finish_submit: "ppc s \<noteq> Outside \<Longrightarrow> thread_pool_queue s s' \<Longrightarrow> work_step s s'"
| work: "i < threads s \<Longrightarrow> wpc s i \<noteq> Asleep \<Longrightarrow> worker i s s' \<Longrightarrow> work_step s s'"

inductive_simps worker_step [simp]: "worker i s s'"
inductive_simps producer_step [simp]: "thread_pool_queue s s'"
inductive_cases pool_stepE: "pool_step s s'"

section \<open>The invariant\<close>

fun holds_mutex :: "worker_pc \<Rightarrow> bool" where
  "holds_mutex At_check = True"
| "holds_mutex (Took w) = True"
| "holds_mutex _ = False"

fun held_job :: "worker_pc \<Rightarrow> Work list" where
  "held_job (Took w) = [w]"
| "held_job (Working w) = [w]"
| "held_job _ = []"

definition in_hand :: "TheadPool \<Rightarrow> Work multiset" where
  "in_hand s = mset (concat (map (\<lambda>i. held_job (wpc s i)) [0..<threads s]))"

definition sync_inv :: "TheadPool \<Rightarrow> bool" where
  "sync_inv s \<longleftrightarrow>
     (\<forall>i < threads s. holds_mutex (wpc s i) \<longleftrightarrow> mu s = Some (Worker i))
     \<and> (ppc s \<noteq> Outside \<longleftrightarrow> mu s = Some Producer)
     \<and> (\<forall>i. mu s = Some (Worker i) \<longrightarrow> i < threads s)
     \<and> submitted s = taken s @ queue s
     \<and> (queue s \<noteq> [] \<longrightarrow> ppc s = Pushed \<or> (\<exists>i < threads s. wpc s i \<noteq> Asleep))
     \<and> 0 < threads s"

definition pool_inv :: "TheadPool \<Rightarrow> bool" where
  "pool_inv s \<longleftrightarrow> sync_inv s \<and> mset (taken s) = in_hand s + mset (finished s)"

text \<open>Changing the job one worker holds.\<close>

lemma concat_upd:
  assumes "i < n"
  shows "mset (concat (map (\<lambda>j. f ((g(i := x)) j)) [0..<n])) + mset (f (g i))
    = mset (concat (map (\<lambda>j. f (g j)) [0..<n])) + mset (f x)"
  using assms
proof (induction n)
  case (Suc n)
  show ?case
  proof (cases "i = n")
    case True
    have "mset (concat (map (\<lambda>j. f (if j = n then x else g j)) [0..<n])) = mset (concat (map (\<lambda>j. f (g j)) [0..<n]))"
      by (rule arg_cong [of _ _ "\<lambda>xs. mset (concat xs)"]) auto
    with True show ?thesis by simp
  next
    case False
    with Suc have "mset (concat (map (\<lambda>j. f ((g(i := x)) j)) [0..<n])) + mset (f (g i))
        = mset (concat (map (\<lambda>j. f (g j)) [0..<n])) + mset (f x)" by simp
    with False show ?thesis by (simp add: ac_simps)
  qed
qed simp

lemma in_hand_upd:
  assumes "i < threads s" "wpc s' = (wpc s)(i := pc)" "threads s' = threads s"
  shows "in_hand s' + mset (held_job (wpc s i)) = in_hand s + mset (held_job pc)"
  using concat_upd [OF assms(1), of held_job "wpc s" pc] assms(2,3) by (simp add: in_hand_def)

lemma in_hand_cong: "wpc s' = wpc s \<Longrightarrow> threads s' = threads s \<Longrightarrow> in_hand s' = in_hand s"
  by (simp add: in_hand_def)

text \<open>Every job that was taken is in the hands of one worker or finished.\<close>

lemma worker_jobs:
  assumes "worker i s s'" "i < threads s" "mset (taken s) = in_hand s + mset (finished s)"
  shows "mset (taken s') = in_hand s' + mset (finished s')"
proof -
  have th: "threads s' = threads s" using assms(1) by (cases rule: worker.cases) simp_all
  have pc: "wpc s' = (wpc s)(i := wpc s' i)" using assms(1) by (cases rule: worker.cases) simp_all
  have hand: "in_hand s' + mset (held_job (wpc s i)) = in_hand s + mset (held_job (wpc s' i))"
    by (rule in_hand_upd [OF assms(2) pc th])
  show ?thesis
    using assms(1) hand assms(3) by (cases rule: worker.cases) simp_all
qed

lemma worker_sync:
  assumes "worker i s s'" "i < threads s" "sync_inv s"
  shows "sync_inv s'"
  using assms(1)
proof (cases rule: worker.cases)
  case lock
  with assms(2,3) show ?thesis by (auto simp: sync_inv_def)
next
  case wait
  with assms(2,3) show ?thesis by (auto simp: sync_inv_def)
qed (use assms(2,3) in \<open>auto simp: sync_inv_def\<close>)

lemma producer_inv:
  assumes "thread_pool_queue s s'" "pool_inv s"
  shows "pool_inv s'"
proof -
  have "in_hand s' = in_hand s \<and> taken s' = taken s \<and> finished s' = finished s"
    using assms(1)
  proof (cases rule: thread_pool_queue.cases)
    case (signal i)
    with in_hand_upd [of i s s' Awake] show ?thesis by simp
  qed (simp_all add: in_hand_def)
  moreover have "sync_inv s'"
    using assms(1)
  proof (cases rule: thread_pool_queue.cases)
    case (signal i)
    with assms(2) show ?thesis by (auto simp: pool_inv_def sync_inv_def)
  next
    case signal_nobody
    with assms(2) show ?thesis by (auto simp: pool_inv_def sync_inv_def)
  qed (use assms(2) in \<open>auto simp: pool_inv_def sync_inv_def\<close>)
  ultimately show ?thesis using assms(2) by (simp add: pool_inv_def)
qed

lemma pool_step_inv:
  assumes "pool_step s s'" "pool_inv s"
  shows "pool_inv s'"
  using assms(1)
proof (cases rule: pool_step.cases)
  case by_producer
  with producer_inv assms(2) show ?thesis by blast
next
  case (by_worker i)
  with worker_jobs worker_sync assms(2) show ?thesis by (auto simp: pool_inv_def)
qed

lemma pool_init_inv: "thread_pool_init n mrv crv trv = Some s \<Longrightarrow> pool_inv s"
  by (auto simp: thread_pool_init_def pool_inv_def sync_inv_def in_hand_def assertion_def split: if_splits)

lemma work_step_pool: "work_step s s' \<Longrightarrow> pool_step s s'"
  by (auto elim!: work_step.cases intro: by_producer by_worker simp del: worker_step producer_step)

section \<open>Completion\<close>

text \<open>
  No wake-up is lost: from every reachable state, every run that goes on without new submissions and
  without spurious wake-ups ends, and it ends with all submitted work finished. The measure counts the
  synchronization points that are left.
\<close>

fun worker_rank :: "worker_pc \<Rightarrow> nat" where
  "worker_rank At_lock = 3"
| "worker_rank Awake = 3"
| "worker_rank At_check = 2"
| "worker_rank Asleep = 1"
| "worker_rank (Took w) = 10"
| "worker_rank (Working w) = 9"

fun producer_rank :: "producer_pc \<Rightarrow> nat" where
  "producer_rank Outside = 0"
| "producer_rank (Entered w) = 30"
| "producer_rank Pushed = 5"
| "producer_rank Signalled = 1"

definition work_left :: "TheadPool \<Rightarrow> nat" where
  "work_left s = 20 * length (queue s) + producer_rank (ppc s) + (\<Sum>i<threads s. worker_rank (wpc s i))"

lemma sum_upd:
  fixes f :: "'a \<Rightarrow> nat" and n :: nat
  assumes "i < n"
  shows "(\<Sum>j<n. f ((g(i := x)) j)) + f (g i) = (\<Sum>j<n. f (g j)) + f x"
proof -
  have "(\<Sum>j<n. f ((g(i := x)) j)) = f x + (\<Sum>j \<in> {..<n} - {i}. f ((g(i := x)) j))"
    using assms by (subst sum.remove [of _ i]) auto
  moreover have "(\<Sum>j \<in> {..<n} - {i}. f ((g(i := x)) j)) = (\<Sum>j \<in> {..<n} - {i}. f (g j))"
    by (rule sum.cong) auto
  moreover have "(\<Sum>j<n. f (g j)) = f (g i) + (\<Sum>j \<in> {..<n} - {i}. f (g j))"
    using assms by (subst sum.remove [of _ i]) auto
  ultimately show ?thesis by simp
qed

lemma work_left_upd:
  assumes "i < threads s" "wpc s' = (wpc s)(i := pc)" "threads s' = threads s"
  shows "work_left s' + 20 * length (queue s) + producer_rank (ppc s) + worker_rank (wpc s i)
    = work_left s + 20 * length (queue s') + producer_rank (ppc s') + worker_rank pc"
  using sum_upd [OF assms(1), of worker_rank "wpc s" pc] assms(2,3) by (simp add: work_left_def)

lemma work_step_lowers:
  assumes "work_step s s'"
  shows "work_left s' < work_left s"
  using assms
proof (cases rule: work_step.cases)
  case finish_submit
  show ?thesis
    using finish_submit(2)
  proof (cases rule: thread_pool_queue.cases)
    case (signal i)
    with work_left_upd [of i s s' Awake] show ?thesis by simp
  qed (use finish_submit(1) in \<open>simp_all add: work_left_def\<close>)
next
  case (work i)
  have up: "wpc s' = (wpc s)(i := wpc s' i)" "threads s' = threads s" "ppc s' = ppc s"
    using work(3) by (cases rule: worker.cases, simp_all)+
  show ?thesis
    using work(3) work_left_upd [OF work(1) up(1,2)] work(2) by (cases rule: worker.cases) simp_all
qed

text \<open>The job that a submission in progress has still to append.\<close>

fun job_entered :: "producer_pc \<Rightarrow> Work list" where
  "job_entered (Entered w) = [w]"
| "job_entered _ = []"

definition all_submitted :: "TheadPool \<Rightarrow> Work list" where
  "all_submitted s = submitted s @ job_entered (ppc s)"

lemma work_step_submitted: "work_step s s' \<Longrightarrow> all_submitted s' = all_submitted s"
  by (auto elim!: work_step.cases simp: all_submitted_def)

lemma work_steps_submitted: "work_step\<^sup>*\<^sup>* s s' \<Longrightarrow> all_submitted s' = all_submitted s"
  by (induction rule: rtranclp_induct) (simp_all add: work_step_submitted)

text \<open>Whenever a job is unfinished, some thread can go on.\<close>

lemma worker_advance:
  assumes inv: "pool_inv s" and i: "i < threads s" and m: "mu s = Some (Worker i)"
  shows "\<exists>s'. work_step s s'"
proof -
  have "holds_mutex (wpc s i)" using inv i m by (simp add: pool_inv_def sync_inv_def)
  then consider "wpc s i = At_check" "queue s = []" | w ws where "wpc s i = At_check" "queue s = w # ws"
    | w where "wpc s i = Took w"
    by (cases "wpc s i"; cases "queue s") auto
  then show ?thesis
    by cases (auto intro!: exI work_step.work [OF i])
qed

lemma producer_advance:
  assumes inv: "pool_inv s" and m: "mu s = Some Producer"
  shows "\<exists>s'. work_step s s'"
proof -
  have out: "ppc s \<noteq> Outside" using inv m by (auto simp: pool_inv_def sync_inv_def)
  have "\<exists>s'. thread_pool_queue s s'"
  proof (cases "ppc s")
    case Pushed
    show ?thesis
      by (cases "\<exists>i < threads s. wpc s i = Asleep") (use Pushed in auto)
  qed (use out in auto)
  with out show ?thesis by (blast intro: work_step.finish_submit)
qed

lemma free_advance:
  assumes inv: "pool_inv s" and m: "mu s = None" and left: "mset (finished s) \<noteq> mset (all_submitted s)"
  shows "\<exists>s'. work_step s s'"
proof (cases "\<exists>i < threads s. \<exists>w. wpc s i = Working w")
  case True
  then obtain i w where i: "i < threads s" "wpc s i = Working w" by blast
  then show ?thesis by (auto intro!: exI work_step.work [OF i(1)])
next
  case False
  have free: "\<not> holds_mutex (wpc s i)" if "i < threads s" for i
    using inv m that by (simp add: pool_inv_def sync_inv_def)
  have "held_job (wpc s i) = []" if "i < threads s" for i
    using free [OF that] False that by (cases "wpc s i") auto
  then have "in_hand s = {#}" by (simp add: in_hand_def)
  moreover have out: "ppc s = Outside" using inv m by (auto simp: pool_inv_def sync_inv_def)
  ultimately have "queue s \<noteq> []" using inv left by (auto simp: pool_inv_def sync_inv_def all_submitted_def)
  with out obtain i where i: "i < threads s" "wpc s i \<noteq> Asleep"
    using inv by (auto simp: pool_inv_def sync_inv_def)
  with free [OF i(1)] False have "wpc s i = At_lock \<or> wpc s i = Awake" by (cases "wpc s i") auto
  with m show ?thesis by (auto intro!: exI work_step.work [OF i])
qed

lemma work_advance:
  assumes inv: "pool_inv s" and left: "mset (finished s) \<noteq> mset (all_submitted s)"
  shows "\<exists>s'. work_step s s'"
proof (cases "mu s")
  case None
  with free_advance [OF inv None left] show ?thesis by blast
next
  case (Some t)
  show ?thesis
  proof (cases t)
    case Producer
    with producer_advance [OF inv] Some show ?thesis by blast
  next
    case (Worker i)
    with Some inv have "i < threads s" by (simp add: pool_inv_def sync_inv_def)
    with worker_advance [OF inv this] Some Worker show ?thesis by blast
  qed
qed

interpretation pool: machine pool_step pool_inv
  by unfold_locales (rule pool_step_inv)

interpretation work: progress_machine work_step pool_inv work_left "\<lambda>s. mset (finished s) = mset (all_submitted s)"
  by unfold_locales (auto intro: pool_step_inv work_step_pool work_advance work_step_lowers)

text \<open>
  Once no more work step is possible the submission in progress has been completed too, so that all
  jobs are in \<open>submitted\<close>.
\<close>

lemma work_done:
  assumes inv: "pool_inv s" and steps: "work_step\<^sup>*\<^sup>* s s'" and stuck: "\<nexists>t. work_step s' t"
  shows "submitted s' = all_submitted s" "mset (finished s') = mset (all_submitted s)"
proof -
  have inv': "pool_inv s'" by (rule work.inv_steps [OF steps inv])
  have "mu s' \<noteq> Some Producer" using producer_advance [OF inv'] stuck by blast
  then have "ppc s' = Outside" using inv' by (auto simp: pool_inv_def sync_inv_def)
  then show "submitted s' = all_submitted s" using work_steps_submitted [OF steps] by (simp add: all_submitted_def)
  show "mset (finished s') = mset (all_submitted s)"
    using work.ends_at_goal [OF steps inv stuck] work_steps_submitted [OF steps] by simp
qed

end
