(* ===== verification/Startup.thy ===== *)
theory Startup
  imports Session Repl Thread_Pool
begin

text \<open>
  The two \<open>main\<close> functions up to their loops, the message about a new peer, and both programs as a
  whole. The answers of the kernel during the set-up are arguments; byte order conversion is that of a
  little-endian machine, which the format of the messages presumes as well.
\<close>

unbundle bit_operations_syntax

section \<open>Addresses\<close>

definition htons :: "16 word \<Rightarrow> 16 word" where
  "htons v = push_bit 8 v OR drop_bit 8 v"

definition ntohs :: "16 word \<Rightarrow> 16 word" where
  "ntohs v = push_bit 8 v OR drop_bit 8 v"

definition htonl :: "u32 \<Rightarrow> u32" where
  "htonl v = push_bit 24 v OR (push_bit 8 v AND 0xFF0000) OR (drop_bit 8 v AND 0xFF00) OR drop_bit 24 v"

definition INADDR_LOOPBACK :: u32 where
  "INADDR_LOOPBACK = 0x7F000001"

text \<open>The line that \<open>handle_accept\<close> prints about the address \<open>accept\<close> has filled in.\<close>

definition accept_message :: "sockaddr_in \<Rightarrow> unit proc" where
  "accept_message client_addr =
     (let ip = sin_addr client_addr in
      call (Stderr (lit ''[server] accepted connection from ''
        @ dec_nat (unat (ip AND 255)) @ lit ''.'' @ dec_nat (unat (drop_bit 8 ip AND 255)) @ lit ''.''
        @ dec_nat (unat (drop_bit 16 ip AND 255)) @ lit ''.'' @ dec_nat (unat (drop_bit 24 ip)) @ lit '':''
        @ dec_nat (unat (ntohs (sin_port client_addr))) @ [10])) ())"

section \<open>The server\<close>

text \<open>What the kernel answers, and \<open>errno\<close> after a call that fails.\<close>

record answers =
  ans_socket :: int
  ans_bind :: int
  ans_fcntl :: fcntl_result
  ans_listen :: int
  ans_getsockname :: "sockaddr_in option"
  ans_ntop :: "bytes option"
  ans_connect :: int
  ans_errno :: int

definition server_addr :: sockaddr_in where
  "server_addr = \<lparr>sin_port = htons 8080, sin_addr = htonl 0\<rparr>"

definition server_setup :: "answers \<Rightarrow> int proc" where
  "server_setup k =
     and_then (call (Socket (ans_socket k)) (ans_socket k)) (\<lambda>listen_fd.
     and_then (if listen_fd < 0 then die (ans_errno k) (lit ''socket()'') else ret ()) (\<lambda>_.
     and_then (msg (lit ''[server] socket created'')) (\<lambda>_.
     and_then (call (Reuseaddr listen_fd) ()) (\<lambda>_.
     and_then (call (Bind listen_fd server_addr (ans_bind k)) (ans_bind k)) (\<lambda>rv.
     and_then (if rv \<noteq> 0 then die (ans_errno k) (lit ''bind()'') else ret ()) (\<lambda>_.
     and_then (msg (lit ''[server] bind successful on 0.0.0.0:8080'')) (\<lambda>_.
     and_then (fd_set_nb listen_fd (ans_fcntl k)) (\<lambda>_.
     and_then (call (Listen listen_fd (ans_listen k)) (ans_listen k)) (\<lambda>rv.
     and_then (if rv \<noteq> 0 then die (ans_errno k) (lit ''listen()'') else ret ()) (\<lambda>_.
     and_then (msg (lit ''[server] listen successful on 0.0.0.0:8080'')) (\<lambda>_.
     ret listen_fd)))))))))))"

text \<open>
  The whole program for a number of passes of its loop: the list of idle connections and the pool are
  set up first.
\<close>

definition server_main ::
    "answers \<Rightarrow> int \<Rightarrow> int \<Rightarrow> (nat \<Rightarrow> int) \<Rightarrow> pass list \<Rightarrow> (world \<times> TheadPool) proc" where
  "server_main k mutex_rv cond_rv create_rv passes =
     and_then (local server_start) (\<lambda>w.
     and_then (local (thread_pool_init 4 mutex_rv cond_rv create_rv)) (\<lambda>tp.
     and_then (server_setup k) (\<lambda>listen_fd.
     and_then (local (run_loop w passes)) (\<lambda>w.
     ret (w, tp)))))"

section \<open>The client\<close>

definition client_target :: sockaddr_in where
  "client_target = \<lparr>sin_port = htons 8080, sin_addr = htonl INADDR_LOOPBACK\<rparr>"

definition client_addr :: sockaddr_in where
  "client_addr = \<lparr>sin_port = htons 0, sin_addr = htonl INADDR_LOOPBACK\<rparr>"

text \<open>\<open>snprintf\<close> into a buffer of 128 bytes: at most 127 characters.\<close>

definition bound_message :: "answers \<Rightarrow> unit proc" where
  "bound_message k =
     (case ans_getsockname k of
        Some bound_addr \<Rightarrow>
          (let ipstr = (case ans_ntop k of Some s \<Rightarrow> s | None \<Rightarrow> lit ''127.0.0.1'')
           in msg (take 127 (lit ''[client] bind successful on '' @ ipstr @ lit '':''
                @ dec_nat (unat (ntohs (sin_port bound_addr))))))
      | None \<Rightarrow> msg (lit ''[client] bind successful on 127.0.0.1:<ephemeral>''))"

definition client_setup :: "answers \<Rightarrow> int proc" where
  "client_setup k =
     and_then (call (Socket (ans_socket k)) (ans_socket k)) (\<lambda>fd.
     and_then (if fd < 0 then die (ans_errno k) (lit ''socket()'') else ret ()) (\<lambda>_.
     and_then (msg (lit ''[client] socket created'')) (\<lambda>_.
     and_then (call (Reuseaddr fd) ()) (\<lambda>_.
     and_then (call (Bind fd client_addr (ans_bind k)) (ans_bind k)) (\<lambda>rv.
     and_then (if rv < 0 then die (ans_errno k) (lit ''bind()'') else ret ()) (\<lambda>_.
     and_then (call (Getsockname fd (if ans_getsockname k = None then -1 else 0)) ()) (\<lambda>_.
     and_then (bound_message k) (\<lambda>_.
     and_then (call (Connect fd client_target (ans_connect k)) (ans_connect k)) (\<lambda>rv.
     and_then (if rv < 0 then die (ans_errno k) (lit ''connect()'') else ret ()) (\<lambda>_.
     and_then (msg (lit ''[client] connected to 127.0.0.1:8080'')) (\<lambda>_.
     ret fd)))))))))))"

definition client_main ::
    "answers \<Rightarrow> (bytes \<times> int list \<times> read_result list) list \<Rightarrow> (int \<times> bytes list \<times> event list) proc" where
  "client_main k lines =
     and_then (client_setup k) (\<lambda>fd.
     and_then (local (repl lines)) (\<lambda>(frames, evs).
     and_then (call (Close fd) ()) (\<lambda>_.
     ret (0, frames, evs))))"

lemmas startup_defs [eval_simps] = htons_def ntohs_def htonl_def INADDR_LOOPBACK_def accept_message_def server_addr_def
  server_setup_def server_main_def client_target_def client_addr_def bound_message_def client_setup_def client_main_def

section \<open>What the calls do to a socket\<close>

text \<open>The state of one descriptor after a list of calls; a call that failed changes nothing.\<close>

record sock =
  bound_to :: "sockaddr_in option"
  nonblocking :: bool
  listening :: bool
  peer :: "sockaddr_in option"

fun effect :: "int \<Rightarrow> syscall \<Rightarrow> sock \<Rightarrow> sock" where
  "effect fd (Bind f a rv) s = (if f = fd \<and> rv = 0 then s\<lparr>bound_to := Some a\<rparr> else s)"
| "effect fd (Listen f rv) s = (if f = fd \<and> rv = 0 then s\<lparr>listening := True\<rparr> else s)"
| "effect fd (Connect f a rv) s = (if f = fd \<and> rv = 0 then s\<lparr>peer := Some a\<rparr> else s)"
| "effect fd (Setfl f flags errno) s =
     (if f = fd \<and> errno = 0 then s\<lparr>nonblocking := (flags AND O_NONBLOCK \<noteq> 0)\<rparr> else s)"
| "effect fd _ s = s"

definition sock_after :: "syscall list \<Rightarrow> int \<Rightarrow> sock" where
  "sock_after cs fd = fold (effect fd) cs \<lparr>bound_to = None, nonblocking = False, listening = False, peer = None\<rparr>"

lemma nonblock_set: "(flags OR O_NONBLOCK) AND O_NONBLOCK \<noteq> 0"
proof -
  have "bit ((flags OR O_NONBLOCK) AND O_NONBLOCK) 11" by (simp add: O_NONBLOCK_def bit_simps)
  then show ?thesis by fastforce
qed

text \<open>The calls and the result of a sequence.\<close>

lemma proc_simps [simp]:
  "fst (ret x) = []" "snd (ret x) = Some x" "fst (call c x) = [c]" "snd (call c x) = Some x"
  "fst (local r) = []" "snd (local r) = r" "fst (msg m) = [Stderr (m @ [10])]" "snd (msg m) = Some ()"
  "snd (die e m) = None"
  by (simp_all add: proc_defs)

lemma snd_and_then: "snd (and_then m f) = Option.bind (snd m) (\<lambda>x. snd (f x))"
  by (auto simp: and_then_def split: prod.splits option.splits)

lemma fst_and_then: "fst (and_then m f) = fst m @ (case snd m of None \<Rightarrow> [] | Some x \<Rightarrow> fst (f x))"
  by (auto simp: and_then_def split: prod.splits option.splits)

lemma and_then_local: "and_then (local (Some x)) f = f x"
  by (simp add: and_then_def local_def)

lemmas run_proc = fst_and_then snd_and_then

text \<open>A program that dies does so with its message as the last thing it does.\<close>

definition orderly :: "'a proc \<Rightarrow> bool" where
  "orderly p \<longleftrightarrow>
     (case snd p of
        Some _ \<Rightarrow> Abort \<notin> set (fst p)
      | None \<Rightarrow> \<exists>cs e what. fst p = cs @ fst (die e what :: unit proc) \<and> Abort \<notin> set cs)"

lemma orderly_and_then: "orderly m \<Longrightarrow> (\<And>x. orderly (f x)) \<Longrightarrow> orderly (and_then m f)"
proof (cases "snd m")
  case (Some x)
  assume "orderly m" "\<And>x. orderly (f x)"
  then have "Abort \<notin> set (fst m)" "orderly (f x)" using Some by (simp_all add: orderly_def)
  then show ?thesis
  proof (cases "snd (f x)")
    case None
    with \<open>orderly (f x)\<close> obtain cs e what where
      "fst (f x) = cs @ fst (die e what :: unit proc)" "Abort \<notin> set cs" by (auto simp: orderly_def)
    with None Some \<open>Abort \<notin> set (fst m)\<close> show ?thesis
      unfolding orderly_def by (auto simp: run_proc intro!: exI [of _ "fst m @ cs"]) blast
  qed (use Some in \<open>simp add: orderly_def run_proc\<close>)
qed (simp add: orderly_def run_proc)

lemma orderly_die: "orderly (die e m)"
  by (auto simp: orderly_def die_def)

lemma orderly_basic: "orderly (ret x)" "c \<noteq> Abort \<Longrightarrow> orderly (call c x)" "orderly (msg m)"
  by (simp_all add: orderly_def)

lemma orderly_if: "orderly m \<Longrightarrow> orderly m' \<Longrightarrow> orderly (if b then m else m')"
  by simp

lemmas orderly_intros = orderly_and_then orderly_die orderly_basic orderly_if

lemma fd_set_nb_orderly: "orderly (fd_set_nb fd res)"
  by (cases res) (auto simp: fd_set_nb_def Let_def intro!: orderly_intros)

section \<open>The set-up of the server\<close>

definition setup_ok :: "answers \<Rightarrow> bool" where
  "setup_ok k \<longleftrightarrow> 0 \<le> ans_socket k \<and> ans_bind k = 0 \<and> snd (ans_fcntl k) = (0, 0) \<and> ans_listen k = 0"

lemma server_setup_result: "snd (server_setup k) = (if setup_ok k then Some (ans_socket k) else None)"
  by (cases "ans_fcntl k") (auto simp: server_setup_def setup_ok_def fd_set_nb_result snd_and_then)

lemma server_setup_sock:
  assumes "setup_ok k"
  shows "sock_after (fst (server_setup k)) (ans_socket k)
    = \<lparr>bound_to = Some server_addr, nonblocking = True, listening = True, peer = None\<rparr>"
proof -
  from assms obtain flags where k: "ans_fcntl k = (flags, 0, 0)" "\<not> ans_socket k < 0" "ans_bind k = 0" "ans_listen k = 0"
    by (cases "ans_fcntl k") (auto simp: setup_ok_def)
  then show ?thesis
    using nonblock_set [of flags]
    by (simp add: server_setup_def run_proc fd_set_nb_result fd_set_nb_calls sock_after_def)
qed

lemma server_setup_orderly: "orderly (server_setup k)"
  unfolding server_setup_def by (intro orderly_intros fd_set_nb_orderly) simp_all

lemma server_setup_fails:
  "\<not> setup_ok k \<Longrightarrow> \<exists>cs e what. fst (server_setup k) = cs @ fst (die e what :: unit proc) \<and> Abort \<notin> set cs"
  using server_setup_orderly [of k] by (simp add: orderly_def server_setup_result)

lemma server_main_ok:
  assumes "thread_pool_init 4 mutex_rv cond_rv create_rv = Some tp"
  shows "\<exists>w0. server_start = Some w0 \<and>
    snd (server_main k mutex_rv cond_rv create_rv ps) = (if setup_ok k then map_option (\<lambda>w. (w, tp)) (run_loop w0 ps) else None)
    \<and> fst (server_main k mutex_rv cond_rv create_rv ps) = fst (server_setup k)"
proof -
  obtain w0 where w0: "server_start = Some w0" using server_start_ok by blast
  have "server_main k mutex_rv cond_rv create_rv ps =
      and_then (server_setup k) (\<lambda>listen_fd. and_then (local (run_loop w0 ps)) (\<lambda>w. ret (w, tp)))"
    unfolding server_main_def w0 assms and_then_local ..
  with w0 show ?thesis
    by (cases "run_loop w0 ps") (auto simp: run_proc server_setup_result)
qed

section \<open>The set-up of the client\<close>

definition client_ok :: "answers \<Rightarrow> bool" where
  "client_ok k \<longleftrightarrow> 0 \<le> ans_socket k \<and> 0 \<le> ans_bind k \<and> 0 \<le> ans_connect k"

lemma bound_message_result: "snd (bound_message k) = Some ()" "orderly (bound_message k)"
  by (auto simp: bound_message_def Let_def orderly_basic split: option.splits)

lemma client_setup_result: "snd (client_setup k) = (if client_ok k then Some (ans_socket k) else None)"
  by (auto simp: client_setup_def client_ok_def bound_message_result snd_and_then)

lemma client_setup_orderly: "orderly (client_setup k)"
  unfolding client_setup_def by (intro orderly_intros bound_message_result) simp_all

lemma client_setup_sock:
  assumes "client_ok k" "ans_bind k = 0" "ans_connect k = 0"
  shows "peer (sock_after (fst (client_setup k)) (ans_socket k)) = Some client_target"
proof -
  have "fold (effect fd) (fst (bound_message k)) s = s" for fd s
    by (auto simp: bound_message_def Let_def split: option.splits)
  with assms show ?thesis
    by (simp add: client_setup_def client_ok_def run_proc bound_message_result sock_after_def not_less)
qed

section \<open>Addresses on the wire\<close>

text \<open>The port is stored with its high byte first, and the conversion back gives the port.\<close>

lemma ntohs_htons: "ntohs (htons v) = v"
  by (rule bit_word_eqI) (auto simp: ntohs_def htons_def bit_simps)

lemma port_wire: "sin_port server_addr = 0x901F" "sin_port client_target = 0x901F"
  by (simp_all add: server_addr_def client_target_def htons_def)

lemma addr_wire: "sin_addr server_addr = 0" "u32_bytes (sin_addr client_target) = [127, 0, 0, 1]"
  by (simp_all add: server_addr_def client_target_def htonl_def INADDR_LOOPBACK_def eval_simps)

text \<open>The four bytes of an address, in the order of the network, are the numbers of the printed quad.\<close>

lemma unat_byte_at: "unat (drop_bit n x AND 255 :: u32) = unat x div 2 ^ n mod 256"
proof -
  have "drop_bit n x AND 255 = take_bit 8 (drop_bit n x)" by (simp add: take_bit_eq_mask mask_numeral and.commute)
  then have "unat (drop_bit n x AND 255) = take_bit 8 (drop_bit n (unat x))"
    by (simp only: unsigned_take_bit_eq unat_drop_bit_eq)
  then show ?thesis by (simp add: take_bit_eq_mod drop_bit_eq_div)
qed

lemma quad_bytes:
  assumes "ip = u32_of_bytes [b0, b1, b2, b3]"
  shows "unat (ip AND 255) = unat b0" "unat (drop_bit 8 ip AND 255) = unat b1"
    "unat (drop_bit 16 ip AND 255) = unat b2" "unat (drop_bit 24 ip) = unat b3"
proof -
  have "le_dec [b0, b1, b2, b3] < 2 ^ 32" using le_dec_less [of "[b0, b1, b2, b3]"] by simp
  then have n: "unat ip = unat b0 + 256 * (unat b1 + 256 * (unat b2 + 256 * unat b3))"
    by (simp add: assms u32_of_bytes_def of_nat_inverse)
  have shift: "(unat b + 256 * m) div 256 = m" for b :: u8 and m using unat_byte_less [of b] by simp
  have d: "unat ip div 2 ^ 8 = unat b1 + 256 * (unat b2 + 256 * unat b3)"
    "unat ip div 2 ^ 16 = unat b2 + 256 * unat b3" "unat ip div 2 ^ 24 = unat b3"
    using div_mult2_eq [of "unat ip" 256 256] div_mult2_eq [of "unat ip" 65536 256] unfolding n shift
    by (simp_all add: shift del: div_mult_self2 distrib_left distrib_left_numeral)
  show "unat (ip AND 255) = unat b0" using unat_byte_at [of 0 ip] unfolding n by (simp del: distrib_left_numeral)
  show "unat (drop_bit 8 ip AND 255) = unat b1" "unat (drop_bit 16 ip AND 255) = unat b2"
    unfolding unat_byte_at d by (simp_all del: distrib_left_numeral)
  show "unat (drop_bit 24 ip) = unat b3" using d(3) unfolding unat_drop_bit_eq by (simp only: drop_bit_eq_div)
qed

lemma accept_message_text:
  "accept_message \<lparr>sin_port = htons port, sin_addr = u32_of_bytes [b0, b1, b2, b3]\<rparr>
    = msg (lit ''[server] accepted connection from '' @ dec_nat (unat b0) @ lit ''.'' @ dec_nat (unat b1)
        @ lit ''.'' @ dec_nat (unat b2) @ lit ''.'' @ dec_nat (unat b3) @ lit '':'' @ dec_nat (unat port))"
  using quad_bytes [OF refl, of b0 b1 b2 b3] by (simp add: accept_message_def msg_def ntohs_htons)

text \<open>
  When both set-ups succeed, the client is connected to a port on which the server listens: its
  peer is the loopback address with the port of the server's socket, which is bound to all addresses.
  On the wire the port is 8080 with the high byte first.
\<close>

lemma mains_meet:
  assumes "snd (server_setup k) = Some fd" "snd (client_setup k') = Some fd'" "ans_bind k' = 0" "ans_connect k' = 0"
  shows "\<exists>a b. bound_to (sock_after (fst (server_setup k)) fd) = Some a \<and> listening (sock_after (fst (server_setup k)) fd)
    \<and> peer (sock_after (fst (client_setup k')) fd') = Some b
    \<and> sin_port b = sin_port a \<and> sin_port a = 0x901F \<and> sin_addr a = 0 \<and> u32_bytes (sin_addr b) = [127, 0, 0, 1]"
proof -
  from assms(1,2) have k: "setup_ok k" "fd = ans_socket k" "client_ok k'" "fd' = ans_socket k'"
    by (simp_all add: server_setup_result client_setup_result split: if_splits)
  from server_setup_sock [OF k(1)] client_setup_sock [OF k(3) assms(3,4)] k(2,4) port_wire addr_wire show ?thesis by simp
qed

end
