(* ===== verification/Dialogue.thy ===== *)
theory Dialogue
  imports Startup
begin

text \<open>
  A client at its prompt and the server behind it. \<open>dialogue\<close> describes what the client's kernel does
  during a session without transfer errors; its requests and the answers it prints are those of the
  sequence of operations that explains the run of the server.
\<close>

section \<open>Streams of frames\<close>

lemma split_frames_frames:
  assumes "\<forall>p \<in> set ps. length p \<le> k_max_msg"
  shows "split_frames (concat (map frame_of ps)) = (ps, [], False)"
  using assms
proof (induction ps)
  case Nil
  show ?case using drained_Nil by (simp add: drained_def)
next
  case (Cons p ps)
  then show ?case using split_frames_frame [of p "concat (map frame_of ps)" ps "[]" False] by simp
qed

text \<open>A stream of frames determines its frames, also when it is the start of a longer one.\<close>

lemma frames_unique:
  assumes "prefix (concat (map frame_of ps)) (concat (map frame_of qs))" "length ps = length qs"
    and "\<forall>p \<in> set (ps @ qs). length p \<le> k_max_msg"
  shows "ps = qs"
proof -
  from assms(1) obtain u where u: "concat (map frame_of qs) = concat (map frame_of ps) @ u" by (auto simp: prefix_def)
  obtain ps' r bad where s: "split_frames ([] @ u) = (ps', r, bad)" by (metis prod.exhaust)
  have "split_frames (concat (map frame_of ps)) = (ps, [], False)" by (rule split_frames_frames) (use assms(3) in auto)
  from split_frames_append [OF this s] have "split_frames (concat (map frame_of qs)) = (ps @ ps', r, bad)"
    by (simp add: u)
  moreover have "split_frames (concat (map frame_of qs)) = (qs, [], False)"
    by (rule split_frames_frames) (use assms(3) in auto)
  ultimately show ?thesis using assms(2) by simp
qed

lemma printed_unique:
  assumes "ser (fit r) = ser (fit r')"
  shows "events_of (fit r) = events_of (fit r')"
proof -
  have "length (ser (fit x)) < 2 ^ 31" for x using fit_size [of x] by (simp add: k_max_msg_def)
  from print_response_ser [OF this, of r "[]"] print_response_ser [OF this, of r' "[]"] assms show ?thesis by simp
qed

section \<open>The client's side\<close>

definition leaves :: "bytes list \<Rightarrow> bool" where
  "leaves cmd \<longleftrightarrow> cmd \<noteq> [] \<and> (cmd ! 0 = lit ''exit'' \<or> cmd ! 0 = lit ''quit'')"

inductive dialogue :: "(bytes \<times> int list \<times> read_result list) list \<Rightarrow> bytes list list \<Rightarrow> resp list \<Rightarrow> bool" where
  input_ends: "dialogue [] [] []"
| left: "leaves (tokenize line) \<Longrightarrow> dialogue ((line, rvs, rds) # lines) [] []"
| blank: "tokenize line = [] \<Longrightarrow> dialogue lines cmds rs \<Longrightarrow> dialogue ((line, rvs, rds) # lines) cmds rs"
| exchange: "tokenize line = cmd \<Longrightarrow> cmd \<noteq> [] \<Longrightarrow> \<not> leaves cmd \<Longrightarrow> length (request_payload cmd) \<le> k_max_msg \<Longrightarrow>
    send_request rvs cmd = Some (0, out) \<Longrightarrow>
    concat hs = take 4 (reply r) \<Longrightarrow> concat ps = drop 4 (reply r) \<Longrightarrow> [] \<notin> set (hs @ ps) \<Longrightarrow>
    dialogue lines cmds rs \<Longrightarrow> dialogue ((line, rvs, map Read_data (hs @ ps)) # lines) (cmd # cmds) (r # rs)"

lemma tokenize_Nil: "tokenize [] = []"
  by (simp add: tokenize.simps)

lemma dialogue_lengths: "dialogue lines cmds rs \<Longrightarrow> length rs = length cmds \<and>
    (\<forall>p \<in> set (map request_payload cmds). length p \<le> k_max_msg)"
  by (induction rule: dialogue.induct) auto

text \<open>What the client sends and prints. \<open>answers_in\<close> is what it prints apart from the prompts.\<close>

definition answers_in :: "event list \<Rightarrow> event list" where
  "answers_in evs = filter (\<lambda>e. e \<noteq> Prompt) evs"

lemma prompt_free: "filter (\<lambda>e. e \<noteq> Prompt) (events_of v) = events_of v"
proof (induction v)
  case (RArr vs)
  then show ?case by (simp add: filter_concat o_def cong: map_cong)
next
  case (RMap vs)
  then show ?case by (simp add: filter_concat o_def cong: map_cong)
qed simp_all

lemma stdout_answers: "stdout_text (answers_in evs) = stdout_text evs"
  by (induction evs) (auto simp: stdout_text_def answers_in_def)

lemma stdout_concat: "stdout_text (concat (map f xs)) = concat (map (\<lambda>x. stdout_text (f x)) xs)"
  by (induction xs) (simp_all add: stdout_text_def)

lemma stdout_exchanges:
  assumes "answers_in evs = concat (map (\<lambda>(p, r). events_of (fit r)) xs)"
  shows "stdout_text evs = concat (map (\<lambda>(p, r). stdout_text (events_of (fit r))) xs)"
  using stdout_answers [of evs] stdout_concat [of "\<lambda>(p, r). events_of (fit r)" xs] assms
  by (simp add: split_def)

lemma dialogue_repl:
  assumes "dialogue lines cmds rs"
  shows "\<exists>evs. repl lines = Some (map (\<lambda>cmd. frame_of (request_payload cmd)) cmds, evs)
    \<and> answers_in evs = concat (map (\<lambda>r. events_of (fit r)) rs)"
  using assms
proof (induction rule: dialogue.induct)
  case (left line rvs rds lines)
  then have "line \<noteq> []" using tokenize_Nil by (auto simp: leaves_def)
  with left show ?case by (auto simp: leaves_def Let_def answers_in_def)
next
  case (exchange line cmd rvs out hs r ps lines cmds rs)
  have "line \<noteq> []" using exchange(1,2) tokenize_Nil by auto
  moreover have "read_response (map Read_data (hs @ ps)) = Some (int (length (ser (fit r))), events_of (fit r))"
    by (rule read_reply [OF exchange(6-8)])
  moreover have "out = frame_of (request_payload cmd)" by (rule sent_frame [OF exchange(5,4)])
  moreover have "\<not> (cmd ! 0 = lit ''exit'' \<or> cmd ! 0 = lit ''quit'')" using exchange(2,3) by (simp add: leaves_def)
  ultimately show ?case using exchange(1,2,5,10) by (auto simp: Let_def answers_in_def prompt_free)
qed (auto simp: answers_in_def)

section \<open>Both sides\<close>

lemma dialogue_answers:
  assumes d: "dialogue lines cmds rs" and k: "conversation tr ops a co"
    and up: "received tr a = concat (map (\<lambda>cmd. frame_of (request_payload cmd)) cmds)"
    and down: "sent tr a = concat (map reply rs)"
  shows "map fst (exchanges a ops) = map request_payload cmds \<and>
    map (\<lambda>r. events_of (fit r)) rs = map (\<lambda>(p, r). events_of (fit r)) (exchanges a ops)"
proof -
  let ?x = "exchanges a ops"
  have up': "received tr a = concat (map frame_of (map request_payload cmds))" by (simp add: up comp_def)
  have "split_frames (received tr a) = (map request_payload cmds, [], False)"
    unfolding up' using dialogue_lengths [OF d] by (intro split_frames_frames) blast
  with k have req: "map fst ?x = map request_payload cmds"
    by (cases co) (auto simp: conversation_def Let_def)
  have "prefix (sent tr a) (concat (map (\<lambda>(p, r). reply r) ?x))"
    using k by (cases co) (auto simp: conversation_def Let_def intro: prefixI [OF sym])
  moreover have "sent tr a = concat (map frame_of (map (\<lambda>r. ser (fit r)) rs))" by (simp add: down comp_def)
  moreover have "concat (map (\<lambda>(p, r). reply r) ?x) = concat (map frame_of (map (\<lambda>(p, r). ser (fit r)) ?x))"
    by (simp add: comp_def split_def)
  ultimately have pre: "prefix (concat (map frame_of (map (\<lambda>r. ser (fit r)) rs)))
      (concat (map frame_of (map (\<lambda>(p, r). ser (fit r)) ?x)))" by simp
  have "length rs = length ?x" using dialogue_lengths [OF d] arg_cong [OF req, of length] by simp
  with frames_unique [OF pre] fit_size have same: "map (\<lambda>r. ser (fit r)) rs = map (\<lambda>(p, r). ser (fit r)) ?x"
    by fastforce
  have "map (\<lambda>r. events_of (fit r)) rs = map (\<lambda>(p, r). events_of (fit r)) ?x"
  proof (rule nth_equalityI)
    show "length (map (\<lambda>r. events_of (fit r)) rs) = length (map (\<lambda>(p, r). events_of (fit r)) ?x)"
      using \<open>length rs = length ?x\<close> by simp
  next
    fix i assume "i < length (map (\<lambda>r. events_of (fit r)) rs)"
    then have i: "i < length rs" "i < length ?x" using \<open>length rs = length ?x\<close> by simp_all
    then have "ser (fit (rs ! i)) = ser (fit (snd (?x ! i)))"
      using arg_cong [OF same, of "\<lambda>l. l ! i"] by (simp add: split_def)
    from printed_unique [OF this] i show "map (\<lambda>r. events_of (fit r)) rs ! i = map (\<lambda>(p, r). events_of (fit r)) ?x ! i"
      by (simp add: split_def)
  qed
  with req show ?thesis ..
qed

section \<open>An example\<close>

text \<open>A client connects, the server receives a \<open>ping\<close> and answers it in the same pass.\<close>

definition accept_pass :: pass where
  "accept_pass = (0, \<lambda>args timeout. Poll_ready (Some (Accepted 5 (2, 0, 0))) [], 10, 20)"

definition ping_event :: io where
  "ping_event = \<lparr>pollin = True, pollout = False, pollerr = False, pollother = False, io_now = 30,
     io_clock = (\<lambda>_. 30), io_read = Read_data (frame_of (request_payload [lit ''ping''])),
     io_write1 = Wrote 100, io_write2 = Write_again\<rparr>"

definition ping_pass :: pass where
  "ping_pass = (25, \<lambda>args timeout. Poll_ready None [ping_event], 30, 40)"

definition example_world :: "Connection \<Rightarrow> world" where
  "example_world c = \<lparr>srv = server0, conns = [1 \<mapsto> c],
     dls = [1 \<mapsto> \<lparr>dprev = Some 0, dnext = Some 0\<rparr>, 0 \<mapsto> \<lparr>dprev = Some 1, dnext = Some 1\<rparr>],
     fd2conn = [None, None, None, None, None, Some 1], cbrk = 2\<rparr>"

lemma accept_pass_run:
  "\<exists>w. server_start = Some w \<and> traced_pass w accept_pass = Some (example_world (fresh_conn 5 10), [])
    \<and> fd2conn w = []"
proof -
  have "(replicate 6 None)[5 := Some x] = [None, None, None, None, None, Some x]" for x :: nat
    by (simp add: numeral_eq_Suc)
  then show ?thesis
    by (simp add: eval_simps server_start_def traced_pass_def accept_pass_def server0_def example_world_def
        idle_conn_list_def fresh_conn_def)
qed

lemma ping_pass_run:
  "\<exists>w. traced_pass (example_world (fresh_conn 5 10)) ping_pass
    = Some (w, [(1, frame_of (request_payload [lit ''ping'']), reply (RStr (lit ''pong'')))])"
proof -
  have "ttls server0 = []" by (simp add: server0_def)
  then show ?thesis
    by (simp add: eval_simps traced_pass_def ping_pass_def ping_event_def example_world_def fresh_conn_def
        idle_conn_list_def frame_of_def fit_def handle_requests.simps traffic_def got_def written_def wrote1_def
        wrote2_def read_part_def touch_def ready_def sent_by_read_def Netio.taken_def)
qed

lemma ping_run:
  obtains w w' tr where "server_start = Some w" "kernel_ok w 0 [accept_pass, ping_pass]"
    "traced_run w [accept_pass, ping_pass] = Some (w', tr)"
    "received tr 1 = frame_of (request_payload [lit ''ping''])" "sent tr 1 = reply (RStr (lit ''pong''))"
proof -
  let ?w1 = "example_world (fresh_conn 5 10)"
  obtain w where w: "server_start = Some w" "traced_pass w accept_pass = Some (?w1, [])" "fd2conn w = []"
    using accept_pass_run by blast
  obtain w2 where w2: "traced_pass ?w1 ping_pass
      = Some (w2, [(1, frame_of (request_payload [lit ''ping'']), reply (RStr (lit ''pong'')))])"
    using ping_pass_run by blast
  have e: "event_loop w 0 (\<lambda>args timeout. Poll_ready (Some (Accepted 5 (2, 0, 0))) []) 10 20 = Some ?w1"
    using traced_pass_erase w(2) unfolding accept_pass_def by (metis fst_conv option.simps(9))
  have t: "no_overflow 20" "no_overflow 40" by (simp_all add: no_overflow_def k_idle_timeout_ms_def)
  have "read_fits ping_event" by (simp add: read_fits_def ping_event_def eval_simps frame_of_def)
  with t e w(3) have "kernel_ok w 0 [accept_pass, ping_pass]"
    by (simp add: accept_pass_def ping_pass_def poll_allowed_def accept_ok_def fd_free_def ping_event_def
        split: option.splits)
  with that [OF w(1) this, of w2] w(2) w2 show thesis by simp
qed

lemma ping_dialogue:
  "dialogue [(lit ''ping'', [16], map Read_data ([take 4 (reply (RStr (lit ''pong'')))] @ [drop 4 (reply (RStr (lit ''pong'')))]))]
    [[lit ''ping'']] [RStr (lit ''pong'')]"
proof (rule exchange)
  show "tokenize (lit ''ping'') = [lit ''ping'']"
    using tokenize_join [of "[lit ''ping'']"] by (simp add: is_token_def eval_simps isspace_def)
  show "send_request [16] [lit ''ping''] = Some (0, frame_of (request_payload [lit ''ping'']))"
    by (simp add: eval_simps frame_of_def)
qed (simp_all add: leaves_def eval_simps frame_of_def fit_def input_ends)

end
