(* ===== verification/Decimal.thy ===== *)
theory Decimal
  imports Printf Complex_Main
begin

text \<open>
  Numbers as text. \<open>strtod\<close> rounds a decimal to the nearest double with a relative error of at most
  \<open>2 ^ - 53\<close>, and \<open>%g\<close> prints the six significant digits of the exact value of the double: a number
  written with at most six significant digits, as \<open>%g\<close> writes it, is read and printed as it was
  written, and what \<open>%g\<close> prints for any double is such a number.
\<close>

section \<open>Rounding\<close>

lemma round_half_even_near:
  assumes "0 < b"
  shows "\<bar>real (round_half_even a b) - real a / real b\<bar> \<le> 1 / 2"
proof -
  let ?q = "a div b" and ?r = "a mod b"
  have a: "real a = real ?q * real b + real ?r" by (metis mult_div_mod_eq of_nat_add of_nat_mult mult.commute)
  then have e: "real a / real b = real ?q + real ?r / real b" using assms by (simp add: field_simps)
  have r: "real ?r < real b" using assms by simp
  consider "2 * ?r < b" | "b < 2 * ?r" | "2 * ?r = b" by linarith
  then show ?thesis
  proof cases
    case 1
    then have "2 * real ?r < real b" by linarith
    with 1 assms show ?thesis by (simp add: round_half_even_def Let_def e field_simps)
  next
    case 2
    then have "real b < 2 * real ?r" by linarith
    with 2 assms r show ?thesis by (simp add: round_half_even_def Let_def e field_simps)
  next
    case 3
    then have "real ?r / real b = 1 / 2" using assms by (simp add: field_simps)
    moreover have "round_half_even a b = ?q \<or> round_half_even a b = ?q + 1"
      using 3 by (auto simp: round_half_even_def Let_def)
    ultimately show ?thesis unfolding e by (auto simp del: of_nat_div)
  qed
qed

lemma round_half_even_unique:
  assumes "0 < b" "\<bar>real a / real b - real D\<bar> < 1 / 2"
  shows "round_half_even a b = D"
  using round_half_even_near [OF assms(1), of a] assms(2) by linarith

text \<open>A fraction scaled by a power, which the source and the library write as a factor of either side.\<close>

lemma scaled_frac:
  assumes "0 < b"
  shows "real (p * b ^ nat k) / real (q * b ^ nat (- k)) = real p / real q * real b powi k"
  using assms by (cases "0 \<le> k") (simp_all add: power_int_def field_simps)

lemma le_frac: "0 < b \<Longrightarrow> b \<le> a \<longleftrightarrow> 1 \<le> real a / real b"
  by simp

lemma scaled_le:
  assumes "0 < q" "0 < b"
  shows "q * b ^ nat k \<le> p * b ^ nat (- k) \<longleftrightarrow> real b powi k \<le> real p / real q"
proof -
  have "q * b ^ nat k \<le> p * b ^ nat (- k) \<longleftrightarrow> 1 \<le> real (p * b ^ nat (- k)) / real (q * b ^ nat k)"
    by (rule le_frac) (use assms in simp)
  also have "real (p * b ^ nat (- k)) / real (q * b ^ nat k) = real p / real q * real b powi (- k)"
    using scaled_frac [OF assms(2), of p "- k" q] by simp
  also have "1 \<le> \<dots> \<longleftrightarrow> real b powi k \<le> real p / real q"
    using assms by (simp add: power_int_minus field_simps)
  finally show ?thesis .
qed

lemma powi_less: "1 < b \<Longrightarrow> b powi m < b powi n \<longleftrightarrow> m < n" for b :: real
  by (meson less_imp_le not_le power_int_increasing power_int_strict_increasing)

lemma near_le: "real k \<le> x \<Longrightarrow> \<bar>real m - x\<bar> \<le> 1 / 2 \<Longrightarrow> k \<le> m"
  and near_ge: "x \<le> real k \<Longrightarrow> \<bar>real m - x\<bar> \<le> 1 / 2 \<Longrightarrow> m \<le> k"
  by (linarith, linarith)

lemma nbits_bounds: "0 < n \<Longrightarrow> 0 < nbits n \<and> 2 ^ (nbits n - 1) \<le> n \<and> n < 2 ^ nbits n"
proof (induction n rule: nbits.induct)
  case (1 n)
  show ?case
  proof (cases "n = 1")
    case True
    then show ?thesis by (simp add: nbits.simps)
  next
    case False
    with 1 have IH: "0 < nbits (n div 2)" "2 ^ (nbits (n div 2) - 1) \<le> n div 2" "n div 2 < 2 ^ nbits (n div 2)" by auto
    have s: "nbits n = Suc (nbits (n div 2))" using 1 by (simp add: nbits.simps [of n])
    obtain k where k: "nbits (n div 2) = Suc k" using IH(1) by (cases "nbits (n div 2)") simp_all
    have "2 * (n div 2) \<le> n" "n < 2 * (n div 2) + 2" by simp_all
    with IH s show ?thesis unfolding k by simp
  qed
qed

definition bin_exp :: "nat \<Rightarrow> nat \<Rightarrow> int" where
  "bin_exp p q = (let e0 = int (nbits p) - int (nbits q)
     in if p * 2 ^ nat (- e0) \<ge> q * 2 ^ nat e0 then e0 else e0 - 1)"

lemma bin_exp_bounds:
  assumes "0 < p" "0 < q"
  shows "2 powi bin_exp p q \<le> real p / real q" "real p / real q < 2 powi (bin_exp p q + 1)"
proof -
  let ?e = "int (nbits p) - int (nbits q)"
  let ?v = "real p / real q"
  note P = nbits_bounds [OF assms(1)] and Q = nbits_bounds [OF assms(2)]
  have pw: "(2::real) powi ?e = 2 ^ nbits p / 2 ^ nbits q" by (simp add: power_int_diff)
  have p2: "(2::real) ^ nbits p = 2 * 2 ^ (nbits p - 1)" "(2::real) ^ nbits q = 2 * 2 ^ (nbits q - 1)"
    using P Q by (simp_all add: power_eq_if)
  have pr: "2 ^ (nbits p - 1) \<le> real p" "real p < 2 ^ nbits p" "2 ^ (nbits q - 1) \<le> real q" "real q < 2 ^ nbits q"
    using P Q by (metis of_nat_le_iff of_nat_less_iff of_nat_numeral of_nat_power)+
  have "real p * 2 ^ nbits q < 2 ^ nbits p * (2 * real q)"
    using pr p2 assms by (intro mult_less_le_imp_less) simp_all
  then have up: "?v < 2 * 2 powi ?e" unfolding pw using assms by (simp add: field_simps)
  have "2 ^ nbits p * real q < (2 * real p) * 2 ^ nbits q"
    using pr p2 assms by (intro mult_le_less_imp_less) simp_all
  then have low: "2 powi ?e < 2 * ?v" unfolding pw using assms by (simp add: field_simps)
  have c: "q * 2 ^ nat ?e \<le> p * 2 ^ nat (- ?e) \<longleftrightarrow> 2 powi ?e \<le> ?v"
    using scaled_le [OF assms(2), of 2 ?e p] by simp
  have b: "bin_exp p q = (if 2 powi ?e \<le> ?v then ?e else ?e - 1)" by (simp only: bin_exp_def Let_def c)
  have s: "2 powi (?e + 1) = 2 * (2 powi ?e :: real)" "2 powi (?e - 1) = (2 powi ?e :: real) / 2"
    using power_int_add [of "2::real" ?e 1] power_int_diff [of "2::real" ?e 1] by simp_all
  show "2 powi bin_exp p q \<le> ?v"
  proof (cases "2 powi ?e \<le> ?v")
    case False
    with low s(2) show ?thesis unfolding b if_not_P [OF False] by linarith
  qed (simp add: b)
  show "?v < 2 powi (bin_exp p q + 1)"
  proof (cases "2 powi ?e \<le> ?v")
    case True
    with up s(1) show ?thesis unfolding b if_P [OF True] by linarith
  qed (simp add: b)
qed

lemma round_dbl_exp:
  assumes "0 < p" "- 1022 \<le> bin_exp p q"
  shows "round_dbl p q = min (nat (bin_exp p q + 1022) * 2 ^ 52
    + round_half_even (p * 2 ^ nat (52 - bin_exp p q)) (q * 2 ^ nat (bin_exp p q - 52))) (2047 * 2 ^ 52)"
proof -
  have "round_dbl p q = (if p = 0 then 0 else let e1 = max (bin_exp p q) (- 1022); k = e1 - 52
      in min (nat (e1 + 1022) * 2 ^ 52 + round_half_even (p * 2 ^ nat (- k)) (q * 2 ^ nat k)) (2047 * 2 ^ 52))"
    by (simp only: round_dbl_def bin_exp_def Let_def)
  moreover have "max (bin_exp p q) (- 1022) = bin_exp p q" "p \<noteq> 0" using assms by simp_all
  ultimately show ?thesis by (simp only: Let_def if_False minus_diff_eq)
qed

text \<open>
  A fraction in the range of the normal numbers is rounded with a relative error of at most
  \<open>2 ^ - 53\<close>.
\<close>

lemma round_dbl_normal:
  assumes "0 < p" "0 < q" and r: "2 powi - 1022 \<le> real p / real q" "real p / real q < 2 powi 1023"
  defines "e \<equiv> bin_exp p q"
  defines "m \<equiv> round_half_even (p * 2 ^ nat (52 - e)) (q * 2 ^ nat (e - 52))"
  shows "round_dbl p q = nat (e + 1022) * 2 ^ 52 + m" "2 ^ 52 \<le> m" "m \<le> 2 ^ 53" "- 1022 \<le> e" "e < 1023"
    "\<bar>real m * 2 powi (e - 52) - real p / real q\<bar> \<le> real p / real q / 2 ^ 53"
proof -
  let ?v = "real p / real q"
  note b = bin_exp_bounds [OF assms(1,2), folded e_def]
  have "(2::real) powi - 1022 < 2 powi (e + 1)" "(2::real) powi e < 2 powi 1023" using b r by linarith+
  then have "- 1022 < e + 1" "e < 1023" by (simp_all only: powi_less one_less_numeral_iff semiring_norm)
  then show er: "- 1022 \<le> e" "e < 1023" by simp_all
  let ?x = "real (p * 2 ^ nat (52 - e)) / real (q * 2 ^ nat (e - 52))"
  have x: "?x = ?v * 2 powi (52 - e)" using scaled_frac [of 2 p "52 - e" q] by simp
  have "2 powi e * 2 powi (52 - e) = (2::real) ^ 52" "2 powi (e + 1) * 2 powi (52 - e) = (2::real) ^ 53"
    by (simp_all flip: power_int_add)
  then have xb: "2 ^ 52 \<le> ?x" "?x < 2 ^ 53" unfolding x
    using b by (metis mult_right_mono mult_strict_right_mono zero_le_power_int zero_less_power_int zero_less_numeral zero_le_numeral)+
  have near: "\<bar>real m - ?x\<bar> \<le> 1 / 2" unfolding m_def by (rule round_half_even_near) (use assms(2) in simp)
  show mb: "2 ^ 52 \<le> m" "m \<le> 2 ^ 53"
    using near_le [OF _ near, of "2 ^ 52"] near_ge [OF _ near, of "2 ^ 53"] xb by simp_all
  have e: "round_dbl p q = min (nat (e + 1022) * 2 ^ 52 + m) (2047 * 2 ^ 52)"
    using round_dbl_exp [OF assms(1), of q] er by (simp only: e_def m_def)
  have "nat (e + 1022) \<le> 2044" using er by simp
  then have "nat (e + 1022) * 2 ^ 52 + m \<le> 2047 * 2 ^ 52" using mb(2) by simp
  with e show "round_dbl p q = nat (e + 1022) * 2 ^ 52 + m" by simp
  have "real m * 2 powi (e - 52) - ?v = (real m - ?x) * 2 powi (e - 52)"
    unfolding x by (simp add: power_int_diff field_simps)
  then have "\<bar>real m * 2 powi (e - 52) - ?v\<bar> = \<bar>real m - ?x\<bar> * 2 powi (e - 52)" by (simp add: abs_mult)
  also have "\<dots> \<le> 1 / 2 * 2 powi (e - 52)" using near by (intro mult_right_mono) simp_all
  also have "\<dots> = 2 powi e / 2 ^ 53" by (simp add: power_int_diff)
  also have "\<dots> \<le> ?v / 2 ^ 53" using b(1) by (intro divide_right_mono) simp_all
  finally show "\<bar>real m * 2 powi (e - 52) - ?v\<bar> \<le> ?v / 2 ^ 53" .
qed


text \<open>The fields of the double.\<close>

lemma dbl_bits:
  assumes "n < 2 ^ 63" and d: "d = (if neg then 0x8000000000000000 else 0) OR (of_nat n :: u64)"
  shows "bit d 63 = neg" "unat (dbl_mag d) = n"
proof -
  let ?w = "of_nat n :: u64"
  have tb: "take_bit 63 ?w = ?w"
    using assms(1) by (simp add: take_bit_nat_eq_self flip: of_nat_take_bit [where 'a = "64 word"])
  then have hi: "\<not> bit ?w 63" by (metis bit_take_bit_iff less_irrefl)
  then show "bit d 63 = neg" by (simp add: d bit_simps)
  have "0x7FFFFFFFFFFFFFFF = (mask 63 :: u64)" by (simp add: mask_numeral)
  then have "dbl_mag d = take_bit 63 d" by (simp add: dbl_mag_def take_bit_eq_mask)
  also have "\<dots> = ?w" using tb by (simp add: d)
  finally have "dbl_mag d = ?w" .
  then show "unat (dbl_mag d) = n" using assms(1) by (simp add: of_nat_inverse)
qed

lemma dbl_frac_normal:
  assumes "unat (dbl_mag d) = nat (e + 1022) * 2 ^ 52 + m" "2 ^ 52 \<le> m" "m \<le> 2 ^ 53" "- 1022 \<le> e"
  shows "0 < fst (dbl_frac d)" "0 < snd (dbl_frac d)"
    "real (fst (dbl_frac d)) / real (snd (dbl_frac d)) = real m * 2 powi (e - 52)"
proof -
  define ex where "ex = unat (dbl_mag d) div 2 ^ 52"
  define mm where "mm = 2 ^ 52 + unat (dbl_mag d) mod 2 ^ 52"
  have ex: "(if m = 2 ^ 53 then int ex = e + 1024 \<and> mm = 2 ^ 52 else int ex = e + 1023 \<and> mm = m)"
  proof (cases "m = 2 ^ 53")
    case True
    then have "unat (dbl_mag d) = nat (e + 1024) * 2 ^ 52" using assms(1,4) by (simp add: nat_add_distrib)
    with True assms(4) show ?thesis by (simp add: ex_def mm_def)
  next
    case False
    define f where "f = m - 2 ^ 52"
    have f: "m = 2 ^ 52 + f" "f < 2 ^ 52" using False assms(2,3) by (simp_all add: f_def)
    then have "unat (dbl_mag d) = nat (e + 1023) * 2 ^ 52 + f" using assms(1,4) by (simp add: nat_add_distrib)
    with f assms(4) show ?thesis by (simp add: ex_def mm_def)
  qed
  then have e0: "ex \<noteq> 0" and k: "int (max ex 1) = int ex" using assms(4) by (auto split: if_splits)
  have fr: "dbl_frac d = (mm * 2 ^ nat (int ex - 1075), 1 * 2 ^ nat (- (int ex - 1075)))"
    using e0 k by (simp add: dbl_frac_def Let_def ex_def mm_def)
  have "0 < mm" by (simp add: mm_def)
  then show "0 < fst (dbl_frac d)" "0 < snd (dbl_frac d)" by (simp_all add: fr)
  have "real (fst (dbl_frac d)) / real (snd (dbl_frac d)) = real mm * 2 powi (int ex - 1075)"
    unfolding fr fst_conv snd_conv using scaled_frac [of 2 mm "int ex - 1075" 1] by simp
  also have "\<dots> = real m * 2 powi (e - 52)"
  proof (cases "m = 2 ^ 53")
    case True
    with ex have "int ex - 1075 = (e - 52) + 1" "mm = 2 ^ 52" by simp_all
    with True show ?thesis using power_int_add [of "2::real" "e - 52" 1] by simp
  qed (use ex in \<open>simp add: algebra_simps\<close>)
  finally show "real (fst (dbl_frac d)) / real (snd (dbl_frac d)) = real m * 2 powi (e - 52)" .
qed

section \<open>Six significant digits\<close>

lemma exp10_up_bounds: "0 < q \<Longrightarrow> q \<le> p \<Longrightarrow> q * 10 ^ exp10_up p q \<le> p \<and> p < q * 10 ^ (exp10_up p q + 1)"
proof (induction p q rule: exp10_up.induct)
  case (1 p q)
  then show ?case by (cases "10 * q \<le> p") (auto simp: exp10_up.simps [of p q] mult.assoc)
qed

lemma exp10_down_bounds: "0 < p \<Longrightarrow> q \<le> p * 10 ^ exp10_down p q \<and> (p < q \<longrightarrow> p * 10 ^ exp10_down p q < 10 * q)"
proof (induction p q rule: exp10_down.induct)
  case (1 p q)
  show ?case
  proof (cases "p < q")
    case True
    with 1 have IH: "q \<le> 10 * p * 10 ^ exp10_down (10 * p) q" "10 * p < q \<longrightarrow> 10 * p * 10 ^ exp10_down (10 * p) q < 10 * q"
      by auto
    show ?thesis
    proof (cases "10 * p < q")
      case False
      then have "exp10_down (10 * p) q = 0" by (simp add: exp10_down.simps [of "10 * p"])
      with IH True 1(2) show ?thesis by (simp add: exp10_down.simps [of p q])
    qed (use IH True 1(2) in \<open>simp add: exp10_down.simps [of p q]\<close>)
  qed (use 1(2) in \<open>simp add: exp10_down.simps [of p q]\<close>)
qed

lemma exp10_bounds:
  assumes "0 < p" "0 < q"
  shows "10 powi exp10 p q \<le> real p / real q" "real p / real q < 10 powi (exp10 p q + 1)"
proof -
  have "10 powi exp10 p q \<le> real p / real q \<and> real p / real q < 10 powi (exp10 p q + 1)"
  proof (cases "q \<le> p")
    case True
    from exp10_up_bounds [OF assms(2) True]
    have "real (q * 10 ^ exp10_up p q) \<le> real p" "real p < real (q * 10 ^ (exp10_up p q + 1))" by (simp_all only: of_nat_le_iff of_nat_less_iff)
    with True assms show ?thesis
      by (simp add: exp10_def power_int_add field_simps)
  next
    case False
    let ?k = "exp10_down p q"
    from exp10_down_bounds [OF assms(1), of q] False
    have "real q \<le> real (p * 10 ^ ?k)" "real (p * 10 ^ ?k) < real (10 * q)" by (simp_all only: of_nat_le_iff of_nat_less_iff)
    moreover have "(10::real) powi (1 - int ?k) = 10 / 10 ^ ?k" by (simp add: power_int_diff)
    ultimately show ?thesis using False assms
      by (simp add: exp10_def power_int_minus del: power_int_diff) (simp add: field_simps)
  qed
  then show "10 powi exp10 p q \<le> real p / real q" "real p / real q < 10 powi (exp10 p q + 1)" by simp_all
qed

text \<open>The digits are six, whatever the number.\<close>

lemma six_digits_bounds:
  assumes pq: "0 < p" "0 < q"
  shows "10 ^ 5 \<le> fst (six_digits p q)" "fst (six_digits p q) < 10 ^ 6"
proof -
  let ?Y = "exp10 p q" let ?V = "real p / real q" and ?c = "10 powi (5 - ?Y) :: real"
  let ?a = "p * 10 ^ nat (5 - ?Y)" and ?b = "q * 10 ^ nat (?Y - 5)"
  note b = exp10_bounds [OF pq]
  have c: "0 < ?c" "10 powi ?Y * ?c = 100000" "10 powi (?Y + 1) * ?c = 1000000" by (simp_all flip: power_int_add)
  have S: "real ?a / real ?b = ?V * ?c" using scaled_frac [of 10 p "5 - ?Y" q] by simp
  have "100000 \<le> ?V * ?c" "?V * ?c < 1000000"
    using mult_right_mono [OF b(1), of ?c] mult_strict_right_mono [OF b(2) c(1)] c by linarith+
  moreover have near: "\<bar>real (round_half_even ?a ?b) - ?V * ?c\<bar> \<le> 1 / 2" unfolding S [symmetric] using pq by (intro round_half_even_near) simp
  ultimately have "real (round_half_even ?a ?b) < 1000001" "100000 \<le> round_half_even ?a ?b"
    using near_le [of 100000 "?V * ?c" "round_half_even ?a ?b"] by (linarith, simp)
  then have "100000 \<le> round_half_even ?a ?b" "round_half_even ?a ?b \<le> 1000000" by simp_all
  then show "10 ^ 5 \<le> fst (six_digits p q)" "fst (six_digits p q) < 10 ^ 6" by (auto simp: six_digits_def Let_def)
qed

text \<open>A number within the error of a double of a decimal with six digits has these six digits.\<close>

lemma six_digits_near:
  assumes pq: "0 < p" "0 < q" and D: "10 ^ 5 \<le> D" "D < 10 ^ 6"
    and v: "v = real D * 10 powi (X - 5)" "\<bar>real p / real q - v\<bar> \<le> v / 2 ^ 53"
  shows "six_digits p q = (D, X)"
proof -
  let ?V = "real p / real q" and ?Y = "exp10 p q" and ?c = "10 powi (5 - X) :: real"
  note b = exp10_bounds [OF pq]
  have D': "100000 \<le> real D" "real D \<le> 999999" using D by simp_all
  have c: "0 < ?c" "10 powi X * ?c = 100000" "10 powi (X - 1) * ?c = 10000" "10 powi (X + 1) * ?c = 1000000"
    by (simp_all flip: power_int_add)
  have "v * ?c = real D" unfolding v(1) by (simp add: mult.assoc flip: power_int_add)
  moreover have "\<bar>?V * ?c - v * ?c\<bar> \<le> v * ?c / 2 ^ 53"
  proof -
    have "\<bar>?V * ?c - v * ?c\<bar> = \<bar>?V - v\<bar> * ?c" using c(1) by (simp only: abs_mult abs_of_pos flip: left_diff_distrib)
    also have "\<dots> \<le> v / 2 ^ 53 * ?c" using v(2) c(1) by (intro mult_right_mono) simp_all
    finally show ?thesis by simp
  qed
  ultimately have "\<bar>?V * ?c - real D\<bar> \<le> real D / 2 ^ 53" by simp
  then have err: "\<bar>?V * ?c - real D\<bar> < 1 / 100" using D(2) by simp
  have "10 powi (X - 1) * ?c < ?V * ?c" "?V * ?c < 10 powi (X + 1) * ?c" using err D' unfolding c by linarith+
  then have "10 powi (X - 1) < ?V" "?V < 10 powi (X + 1)" using c(1) by (simp_all only: mult_less_cancel_right_pos)
  with b have "(10::real) powi (X - 1) < 10 powi (?Y + 1)" "(10::real) powi ?Y < 10 powi (X + 1)" by linarith+
  then have Y: "X - 1 < ?Y + 1" "?Y < X + 1" by (simp_all only: powi_less one_less_numeral_iff semiring_norm)
  have scaled: "real (p * 10 ^ nat (5 - Y)) / real (q * 10 ^ nat (Y - 5)) = ?V * 10 powi (5 - Y)" for Y
    using scaled_frac [of 10 p "5 - Y" q] by simp
  show ?thesis
  proof (cases "?Y = X")
    case True
    have "round_half_even (p * 10 ^ nat (5 - X)) (q * 10 ^ nat (X - 5)) = D"
      using err scaled [of X] pq by (intro round_half_even_unique) auto
    with True D show ?thesis by (simp add: six_digits_def Let_def)
  next
    case False
    with Y have Y1: "?Y = X - 1" by simp
    then have "?V < 10 powi X" using b(2) by simp
    then have "?V * ?c < 10 powi X * ?c" using c(1) by (rule mult_strict_right_mono)
    then have "real D < 100001" using err unfolding c(2) by linarith
    then have D5: "D = 10 ^ 5" using D(1) by simp
    have ten: "10 powi (5 - ?Y) = 10 * ?c" unfolding Y1 using power_int_add [of "10::real" "5 - X" 1] by (simp add: algebra_simps)
    have e10: "?V * (10 * ?c) = 10 * (?V * ?c)" "real (10 ^ 6) = 10 * real D" using D5 by simp_all
    have "round_half_even (p * 10 ^ nat (5 - ?Y)) (q * 10 ^ nat (?Y - 5)) = 10 ^ 6"
    proof (rule round_half_even_unique)
      show "\<bar>real (p * 10 ^ nat (5 - ?Y)) / real (q * 10 ^ nat (?Y - 5)) - real (10 ^ 6)\<bar> < 1 / 2"
        unfolding scaled ten using err e10 by linarith
    qed (use pq in simp)
    with Y1 D5 show ?thesis by (simp add: six_digits_def Let_def)
  qed
qed

lemma fmt_g_decimal:
  assumes D: "10 ^ 5 \<le> D" "D < 10 ^ 6" and X: "- 300 \<le> X" "X \<le> 300" and pq: "0 < p" "0 < q"
    and v: "real p / real q = real D * 10 powi (X - 5)"
    and d: "d = (if neg then 0x8000000000000000 else 0) OR of_nat (round_dbl p q)"
  shows "fmt_g d = (if neg then [45] else []) @ g_text D X" "\<not> isnan d"
proof -
  let ?v = "real p / real q"
  have e: "?v = real D / 10 ^ 5 * 10 powi X" unfolding v by (simp add: power_int_diff)
  have "1 \<le> real D / 10 ^ 5" "real D / 10 ^ 5 < 10" using D by simp_all
  from mult_right_mono [OF this(1), of "10 powi X"] mult_strict_right_mono [OF this(2), of "10 powi X"]
  have "10 powi X \<le> ?v" "?v < 10 * 10 powi X" unfolding e by (simp_all only: mult_1 zero_le_power_int zero_less_power_int zero_le_numeral zero_less_numeral simp_thms)
  moreover have "(10::real) powi - 300 \<le> 10 powi X" "(10::real) powi X \<le> 10 powi 300"
    using X by (simp_all only: power_int_increasing one_le_numeral)
  moreover have "2 powi - 1022 \<le> (10::real) powi - 300" "10 * (10::real) powi 300 \<le> 2 powi 1023" by simp_all
  ultimately have r: "2 powi - 1022 \<le> ?v" "?v < 2 powi 1023" by linarith+
  define e where "e = bin_exp p q"
  note R = round_dbl_normal [OF pq r, folded e_def]
  obtain m where m: "round_dbl p q = nat (e + 1022) * 2 ^ 52 + m" "2 ^ 52 \<le> m" "m \<le> 2 ^ 53" "- 1022 \<le> e" "e < 1023"
    "\<bar>real m * 2 powi (e - 52) - ?v\<bar> \<le> ?v / 2 ^ 53" using R by blast
  have "nat (e + 1022) \<le> 2044" using m(5) by simp
  then have lt: "round_dbl p q < 2047 * 2 ^ 52" "0 < round_dbl p q" using m(1-3) by simp_all
  then have "round_dbl p q < 2 ^ 63" by simp
  note bits = dbl_bits [OF this d]
  note fr = dbl_frac_normal [OF bits(2) [unfolded m(1)] m(2-4)]
  have six: "six_digits (fst (dbl_frac d)) (snd (dbl_frac d)) = (D, X)"
    by (rule six_digits_near [OF fr(1,2) D v]) (use fr(3) m(6) in simp)
  have "unat (dbl_mag d) < unat (0x7FF0000000000000 :: u64)" "unat (dbl_mag d) \<noteq> 0" using bits(2) lt by simp_all
  then have mag: "dbl_mag d < 0x7FF0000000000000" "dbl_mag d \<noteq> 0" by (simp_all add: word_less_nat_alt) auto
  then show nn: "\<not> isnan d" by (simp add: isnan_def)
  then show "fmt_g d = (if neg then [45] else []) @ g_text D X"
    using mag six bits(1) by (auto simp: fmt_g_def split_def)
qed

section \<open>Reading decimal notation\<close>

lemma strtod_mag_decimal:
  assumes "s = c # r" "isdigit c" "r = [] \<or> lower (hd r) \<noteq> 120" "mantissa isdigit s = (ip, fp, n, t)"
  shows "strtod_mag s = (case exponent 101 t of (e, k) \<Rightarrow>
    (scale_dbl (digits_val (ip @ fp)) 10 (e - int (length fp)), n + k))"
proof -
  have "lower c = c" "c \<noteq> 105" "c \<noteq> 110" using assms(2) by (auto simp: isdigit_def lower_def word_le_nat_alt)
  then have "\<not> prefix_ci ''infinity'' s" "\<not> prefix_ci ''inf'' s" "\<not> prefix_ci ''nan'' s"
    by (simp_all add: prefix_ci_def lit_def assms(1))
  moreover have "\<not> prefix_ci ''0x'' s" using assms(3) by (cases r) (auto simp: prefix_ci_def lit_def assms(1))
  moreover have "ip \<noteq> []" using assms(1,2,4) by (auto simp: mantissa_def Let_def split: if_splits)
  ultimately show ?thesis using assms(4) by (simp add: strtod_mag_def)
qed

lemma digits_val_snoc: "digits_val (xs @ [b]) = digits_val xs * 10 + (unat b - 48)"
  by (simp add: digits_val_def)

lemma digits_val_append: "digits_val (xs @ ys) = digits_val xs * 10 ^ length ys + digits_val ys"
proof (induction ys rule: rev_induct)
  case Nil
  show ?case by (simp add: digits_val_def)
next
  case (snoc b ys)
  then show ?case by (simp add: digits_val_snoc algebra_simps flip: append_assoc)
qed

lemma digits_val_zeros: "digits_val (replicate n 48) = 0"
proof (induction n)
  case (Suc n)
  have "replicate (Suc n) 48 = replicate n 48 @ [48 :: u8]" by (simp add: replicate_append_same)
  then show ?case using Suc by (simp only: digits_val_snoc) simp
qed (simp add: digits_val_def)

lemma strip_zeros_split: "\<exists>z. xs = strip_zeros xs @ replicate z 48"
proof -
  have zeros: "takeWhile (\<lambda>b. b = 48) ys = replicate (length (takeWhile (\<lambda>b. b = 48) ys)) (48 :: u8)" for ys
    by (induction ys) simp_all
  have "takeWhile (\<lambda>b. b = 48) (rev xs) = replicate (length (takeWhile (\<lambda>b. b = 48) (rev xs))) 48"
    by (rule zeros)
  then have "rev xs = replicate (length (takeWhile (\<lambda>b. b = 48) (rev xs))) 48 @ dropWhile (\<lambda>b. b = 48) (rev xs)"
    by (metis takeWhile_dropWhile_id)
  then have "xs = strip_zeros xs @ replicate (length (takeWhile (\<lambda>b. b = 48) (rev xs))) 48"
    unfolding strip_zeros_def by (metis rev_append rev_replicate rev_rev_ident)
  then show ?thesis by blast
qed

text \<open>Dropping zeros at the end of the fraction keeps the value.\<close>

lemma strip_value:
  "real (digits_val (ip @ strip_zeros fp)) * 10 powi (e - int (length (strip_zeros fp)))
    = real (digits_val (ip @ fp)) * 10 powi (e - int (length fp))"
proof -
  from strip_zeros_split obtain z where z: "fp = strip_zeros fp @ replicate z 48" by blast
  have "digits_val (ip @ fp) = digits_val (ip @ strip_zeros fp) * 10 ^ z"
    by (subst z) (simp add: digits_val_append [of "ip @ strip_zeros fp", simplified] digits_val_zeros)
  moreover have "length fp = length (strip_zeros fp) + z" by (subst z) simp
  ultimately show ?thesis by (simp add: power_int_diff power_int_add)
qed

lemma take_run:
  assumes "\<forall>b \<in> set xs. P b" "u = [] \<or> \<not> P (hd u)"
  shows "takeWhile P (xs @ u) = xs" "dropWhile P (xs @ u) = u"
  using assms by (cases u; simp add: takeWhile_append dropWhile_append)+

lemma mantissa_point:
  assumes "ip \<noteq> []" "\<forall>b \<in> set ip. isdigit b" "\<forall>b \<in> set fp. isdigit b" "t = [] \<or> \<not> isdigit (hd t) \<and> hd t \<noteq> 46"
  shows "mantissa isdigit (with_point ip fp @ t)
    = (ip, strip_zeros fp, length (with_point ip fp), t)"
proof -
  have f: "\<forall>b \<in> set (strip_zeros fp). isdigit b"
    using assms(3) strip_zeros_split [of fp] by (metis Un_iff set_append)
  have n: "\<not> isdigit 46" by (simp add: isdigit_def)
  show ?thesis
  proof (cases "strip_zeros fp = []")
    case True
    with take_run [of ip isdigit t] assms(2,4) show ?thesis by (auto simp: with_point_def mantissa_def Let_def simp del: takeWhile_eq_all_conv)
  next
    case False
    with assms(2,4) n take_run [of ip isdigit "46 # strip_zeros fp @ t"] take_run [OF f, of t] show ?thesis
      by (auto simp: with_point_def mantissa_def Let_def simp del: takeWhile_eq_all_conv)
  qed
qed

lemma exponent_text:
  "exponent 101 (101 # (if X < 0 then 45 else 43) # two_digits (nat \<bar>X\<bar>)) = (X, 2 + length (two_digits (nat \<bar>X\<bar>)))"
proof -
  let ?t = "two_digits (nat \<bar>X\<bar>)"
  have "\<forall>b \<in> set ?t. isdigit b" using dec_nat_digits [of "nat \<bar>X\<bar>"] by (simp add: two_digits_def isdigit_def)
  then have "takeWhile isdigit ?t = ?t" by (simp add: takeWhile_eq_all_conv)
  moreover have "?t \<noteq> []" using dec_nat_nonempty by (simp add: two_digits_def)
  moreover have "digits_val ?t = nat \<bar>X\<bar>"
    using digits_val_dec [of "nat \<bar>X\<bar>"] digits_val_append [of "[48]" "dec_nat (nat \<bar>X\<bar>)"]
    by (simp add: two_digits_def digits_val_def [of "[48]"])
  ultimately show ?thesis
    by (cases "X < 0") (simp_all add: exponent_def lower_def take_sign_def Let_def del: takeWhile_eq_all_conv)
qed

lemma dec_nat_length: "10 ^ k \<le> n \<Longrightarrow> n < 10 ^ (k + 1) \<Longrightarrow> length (dec_nat n) = k + 1"
proof (induction k arbitrary: n)
  case 0
  then show ?case by (simp add: dec_nat.simps [of n])
next
  case (Suc k)
  then have "10 ^ k \<le> n div 10" "n div 10 < 10 ^ (k + 1)"
    by (simp_all add: less_eq_div_iff_mult_less_eq div_less_iff_less_mult mult.commute)
  moreover have "(10::nat) \<le> 10 ^ Suc k" by simp
  then have "\<not> n < 10" using Suc.prems(1) by linarith
  ultimately show ?case using Suc.IH [of "n div 10"] by (simp add: dec_nat.simps [of n])
qed

text \<open>The text of six digits, as it is read.\<close>

lemma g_text_parts:
  assumes D: "10 ^ 5 \<le> D" "D < 10 ^ 6"
  shows "\<exists>ip fp t e. g_text D X = with_point ip fp @ t \<and> ip \<noteq> [] \<and> (\<forall>b \<in> set (ip @ fp). isdigit b)
    \<and> (t = [] \<or> hd t = 101) \<and> exponent 101 t = (e, length t) \<and> digits_val (ip @ fp) = D \<and> e - int (length fp) = X - 5"
proof -
  let ?ds = "dec_nat D"
  have l: "length ?ds = 6" using dec_nat_length [of 5 D] D by simp
  have dig: "\<forall>b \<in> set ?ds. isdigit b" by (rule dec_nat_digits)
  have val: "digits_val ?ds = D" by (rule digits_val_dec)
  have z: "isdigit 48" by (simp add: isdigit_def)
  consider (sci) "X < -4 \<or> 6 \<le> X" | (small) "-4 \<le> X" "X < 0" | (fixed) "0 \<le> X" "X < 6" by linarith
  then show ?thesis
  proof cases
    case sci
    let ?t = "101 # (if X < 0 then 45 else 43) # two_digits (nat \<bar>X\<bar>)"
    have "g_text D X = with_point (take 1 ?ds) (drop 1 ?ds) @ ?t" using sci by (simp add: g_text_def Let_def)
    moreover have "exponent 101 ?t = (X, length ?t)" using exponent_text [of X] by simp
    moreover have "take 1 ?ds \<noteq> []" "X - int (length (drop 1 ?ds)) = X - 5" using l by auto
    ultimately show ?thesis using dig val
      by (intro exI [of _ "take 1 ?ds"] exI [of _ "drop 1 ?ds"] exI [of _ ?t] exI [of _ X]) simp
  next
    case small
    let ?fp = "replicate (nat (- X - 1)) 48 @ ?ds"
    have "g_text D X = with_point [48] ?fp @ []" using small by (simp add: g_text_def Let_def)
    moreover have "exponent 101 [] = (0, length [])" by (simp add: exponent_def)
    moreover have "[48] @ ?fp = replicate (nat (- X)) 48 @ ?ds" using small by (simp add: Suc_nat_eq_nat_zadd1 flip: replicate_Suc)
    then have "digits_val ([48] @ ?fp) = D" by (simp only: digits_val_append digits_val_zeros val mult_zero_left add_0)
    moreover have "0 - int (length ?fp) = X - 5" using l small by simp
    moreover have "\<forall>b \<in> set ([48] @ ?fp). isdigit b" using dig z by auto
    ultimately show ?thesis
      by - (rule exI [of _ "[48]"], rule exI [of _ ?fp], rule exI [of _ "[]"], rule exI [of _ 0], simp)
  next
    case fixed
    let ?k = "nat X + 1"
    have "g_text D X = with_point (take ?k ?ds) (drop ?k ?ds) @ []" using fixed by (simp add: g_text_def Let_def)
    moreover have "exponent 101 [] = (0, length [])" by (simp add: exponent_def)
    moreover have "take ?k ?ds \<noteq> []" "0 - int (length (drop ?k ?ds)) = X - 5" using l fixed by auto
    ultimately show ?thesis using dig val
      by (intro exI [of _ "take ?k ?ds"] exI [of _ "drop ?k ?ds"] exI [of _ "[]"] exI [of _ 0]) simp
  qed
qed


lemma strtod_g_text:
  assumes D: "10 ^ 5 \<le> D" "D < 10 ^ 6"
  shows "\<exists>c r p q. g_text D X = c # r \<and> isdigit c \<and> strtod_mag (g_text D X) = (round_dbl p q, length (g_text D X))
    \<and> 0 < p \<and> 0 < q \<and> real p / real q = real D * 10 powi (X - 5)"
proof -
  from g_text_parts [OF D, of X] obtain ip fp t e where
    g: "g_text D X = with_point ip fp @ t" "ip \<noteq> []" "\<forall>b \<in> set (ip @ fp). isdigit b" "t = [] \<or> hd t = 101"
      "exponent 101 t = (e, length t)" "digits_val (ip @ fp) = D" "e - int (length fp) = X - 5" by (elim exE conjE)
  let ?s = "g_text D X" and ?m = "digits_val (ip @ strip_zeros fp)" and ?e = "e - int (length (strip_zeros fp))"
  have n: "\<not> isdigit 101" by (simp add: isdigit_def)
  have m: "mantissa isdigit ?s = (ip, strip_zeros fp, length (with_point ip fp), t)"
    unfolding g(1) by (rule mantissa_point) (use g(2-4) n in auto)
  obtain c ip' where ip: "ip = c # ip'" using g(2) by (cases ip) auto
  then have c: "isdigit c" using g(3) by simp
  let ?r = "tl ?s"
  have s: "?s = c # ?r" by (simp add: g(1) ip with_point_def Let_def)
  have low: "lower b \<noteq> 120" if "isdigit b" for b using that by (auto simp: isdigit_def lower_def word_le_nat_alt)
  have r: "?r = [] \<or> lower (hd ?r) \<noteq> 120"
  proof (cases ip')
    case Nil
    with g(4) show ?thesis by (cases t) (auto simp: g(1) ip with_point_def Let_def lower_def)
  next
    case (Cons b bs)
    with g(3) low [of b] show ?thesis by (simp add: g(1) ip with_point_def Let_def)
  qed
  have "strtod_mag ?s = (scale_dbl ?m 10 ?e, length (with_point ip fp) + length t)"
    using strtod_mag_decimal [OF s c r m] g(5) by simp
  then have "strtod_mag ?s = (round_dbl (?m * 10 ^ nat ?e) (1 * 10 ^ nat (- ?e)), length ?s)"
    by (simp add: scale_dbl_def g(1))
  moreover have v: "real (?m * 10 ^ nat ?e) / real (1 * 10 ^ nat (- ?e)) = real D * 10 powi (X - 5)"
    unfolding scaled_frac [OF zero_less_numeral] using strip_value [of ip fp e] g(6,7) by simp
  moreover have "0 < ?m * 10 ^ nat ?e"
  proof (rule ccontr)
    assume "\<not> 0 < ?m * 10 ^ nat ?e"
    then have "real D * 10 powi (X - 5) = 0" unfolding v [symmetric] by simp
    with D(1) show False by simp
  qed
  moreover have "0 < 1 * (10::nat) ^ nat (- ?e)" by simp
  ultimately show ?thesis using s c by (intro exI [of _ c] exI [of _ ?r] exI [of _ "?m * 10 ^ nat ?e"] exI [of _ "1 * 10 ^ nat (- ?e)"] conjI)
qed

text \<open>
  The round trip: a number of at most six significant digits, written as \<open>%g\<close> writes it, is stored as
  the nearest double and printed as it was written.
\<close>

lemma fmt_g_str2dbl:
  fixes neg :: bool
  assumes D: "10 ^ 5 \<le> D" "D < 10 ^ 6" and X: "- 300 \<le> X" "X \<le> 300"
  defines "s \<equiv> (if neg then [45] else []) @ g_text D X"
  shows "\<exists>d. str2dbl s = Some d \<and> fmt_g d = s"
proof -
  from strtod_g_text [OF D, of X] obtain c r p q where
    g: "g_text D X = c # r" "isdigit c" "strtod_mag (g_text D X) = (round_dbl p q, length (g_text D X))"
      "0 < p" "0 < q" "real p / real q = real D * 10 powi (X - 5)" by blast
  define d :: u64 where "d = (if neg then 0x8000000000000000 else 0) OR of_nat (round_dbl p q)"
  note f = fmt_g_decimal [OF D X g(4-6) d_def]
  have ns: "\<not> isspace c" "c \<noteq> 45" "c \<noteq> 43" "\<not> isspace 45" using digit_not_space [OF g(2)] by (simp_all add: isspace_def)
  have "strtod s = (d, length s)"
    using ns g(1,3) by (cases neg) (simp_all add: s_def strtod_def take_sign_def d_def)
  with f show ?thesis by (simp add: str2dbl_def s_def)
qed

text \<open>The exponent with which \<open>%g\<close> prints a double, and the stability of what it prints.\<close>

definition g_exp :: "u64 \<Rightarrow> int" where
  "g_exp d = snd (six_digits (fst (dbl_frac d)) (snd (dbl_frac d)))"

declare g_exp_def [eval_simps]

lemma dbl_frac_pos: "dbl_mag d \<noteq> 0 \<Longrightarrow> 0 < fst (dbl_frac d) \<and> 0 < snd (dbl_frac d)"
  using unat_eq_0 [of "dbl_mag d"] by (auto simp: dbl_frac_def Let_def simp del: unat_eq_0)

lemma fmt_g_shape:
  assumes "\<not> isnan d" "dbl_mag d \<noteq> 0x7FF0000000000000" "dbl_mag d \<noteq> 0"
  shows "\<exists>D. 10 ^ 5 \<le> D \<and> D < 10 ^ 6 \<and> fmt_g d = (if bit d 63 then [45] else []) @ g_text D (g_exp d)"
  using assms six_digits_bounds dbl_frac_pos [OF assms(3)]
  by (intro exI [of _ "fst (six_digits (fst (dbl_frac d)) (snd (dbl_frac d)))"]) (simp add: fmt_g_def g_exp_def split_def Let_def)

lemma fmt_g_zero:
  assumes "dbl_mag d = 0"
  shows "fmt_g d = (if bit d 63 then lit ''-0'' else lit ''0'')"
  using assms by (simp add: fmt_g_def isnan_def lit_def)

lemma str2dbl_zero: "str2dbl (lit ''0'') = Some 0" "str2dbl (lit ''-0'') = Some 0x8000000000000000"
  by (simp_all add: eval_simps lit_def)

lemma fmt_g_again:
  assumes "\<not> isnan d" "dbl_mag d \<noteq> 0x7FF0000000000000" "\<bar>g_exp d\<bar> \<le> 300"
  shows "\<exists>e. str2dbl (fmt_g d) = Some e \<and> fmt_g e = fmt_g d"
proof (cases "dbl_mag d = 0")
  case True
  have "fmt_g 0 = lit ''0''" "fmt_g 0x8000000000000000 = lit ''-0''" by (simp_all add: eval_simps lit_def)
  with True show ?thesis using str2dbl_zero by (simp add: fmt_g_zero)
next
  case False
  from fmt_g_shape [OF assms(1,2) False] obtain D where
    "10 ^ 5 \<le> D" "D < 10 ^ 6" "fmt_g d = (if bit d 63 then [45] else []) @ g_text D (g_exp d)" by blast
  with fmt_g_str2dbl [of D "g_exp d" "bit d 63"] assms(3) show ?thesis by simp
qed

text \<open>The same for a number without sign in fixed notation, as a rule for evaluating literals.\<close>

lemma str2dbl_fixed:
  assumes "s = c # r" "isdigit c" "r = [] \<or> lower (hd r) \<noteq> 120" "mantissa isdigit s = (ip, fp, length s, [])"
    and "scale_dbl (digits_val (ip @ fp)) 10 (- int (length fp)) = n" "n < 2047 * 2 ^ 52"
  shows "str2dbl s = Some (of_nat n)"
proof -
  have ns: "\<not> isspace c" "c \<noteq> 45" "c \<noteq> 43" using digit_not_space [OF assms(2)] by simp_all
  have "strtod_mag s = (n, length s)"
    using strtod_mag_decimal [OF assms(1-4)] assms(5) by (simp add: exponent_def)
  then have "strtod s = (of_nat n, length s)" using ns by (simp add: assms(1) strtod_def take_sign_def)
  moreover have "unat (dbl_mag (of_nat n)) = n" using dbl_bits(2) [of n "of_nat n" False] assms(6) by simp
  then have "\<not> isnan (of_nat n)" using assms(6) by (simp add: isnan_def word_less_nat_alt)
  ultimately show ?thesis by (simp add: str2dbl_def)
qed

lemma round_dbl_eval:
  assumes "0 < p" "bin_exp p q = e" "- 1022 \<le> e"
    and "round_half_even (p * 2 ^ nat (52 - e)) (q * 2 ^ nat (e - 52)) = m" "nat (e + 1022) * 2 ^ 52 + m \<le> 2047 * 2 ^ 52"
  shows "round_dbl p q = nat (e + 1022) * 2 ^ 52 + m"
  using round_dbl_exp [of p q] assms by simp

end
