(* ===== verification/Scripts.thy ===== *)
theory Scripts
  imports Dialogue Decimal
begin

text \<open>
  The regression scripts \<open>tests/test_cmds.py\<close>, \<open>tests/test_ttl.py\<close> and \<open>tests/test_ttl_expiration.py\<close>,
  run on the models of both programs. A script is a list of moves: a line typed at the prompt of the
  client at some time, or a run of the timers of the server. Each line goes the whole way: it is
  split, encoded and framed by the client, read, parsed, executed and answered by the server, and what
  the server wrote is read and printed by the client. The output of a script is the text on the
  standard output of the client.

  A script is computed on the abstract database (\<open>spec_play\<close>); \<open>script_runs\<close> carries the result over
  to the programs.
\<close>

section \<open>Running a script\<close>

datatype move = Type u64 bytes | Timers u64

type_synonym exchanged = "bytes \<times> int list \<times> read_result list"

definition serve_line :: "server \<Rightarrow> Connection \<Rightarrow> u64 \<Rightarrow> bytes \<Rightarrow> (server \<times> Connection \<times> exchanged) option" where
  "serve_line sv c now line = do {
     frame \<leftarrow> request_frame (tokenize line);
     (sv, c) \<leftarrow> handle_read sv (\<lambda>_. now) (Read_data frame) Write_again c;
     (let out = outgoing c in do {
        c \<leftarrow> handle_write (Wrote (length out)) c;
        Some (sv, c, line, [int (length frame)], map Read_data [take 4 out, drop 4 out])
      })
   }"

fun play :: "server \<Rightarrow> Connection \<Rightarrow> move list \<Rightarrow> (server \<times> exchanged list) option" where
  "play sv c [] = Some (sv, [])"
| "play sv c (Type now line # ms) = do {
     (sv, c, x) \<leftarrow> serve_line sv c now line;
     (sv, xs) \<leftarrow> play sv c ms;
     Some (sv, x # xs)
   }"
| "play sv c (Timers now # ms) = do { sv \<leftarrow> expire_loop sv now 0; play sv c ms }"

definition script_output :: "move list \<Rightarrow> bytes option" where
  "script_output ms = do {
     (sv, xs) \<leftarrow> play server0 (fresh_conn 5 0) ms;
     (frames, evs) \<leftarrow> repl (xs @ [(lit ''exit'', [], [])]);
     Some (stdout_text evs)
   }"

section \<open>The same on the abstract database\<close>

definition line_ok :: "bytes list \<Rightarrow> bool" where
  "line_ok cmd \<longleftrightarrow> cmd \<noteq> [] \<and> \<not> leaves cmd \<and> \<not> is_cmd cmd 1 ''keys'' \<and> argv_ok cmd
     \<and> length (request_payload cmd) \<le> 60000"

fun spec_play :: "adb \<Rightarrow> move list \<Rightarrow> resp list option" where
  "spec_play A [] = Some []"
| "spec_play A (Type now line # ms) = do {
     assertion (line_ok (tokenize line));
     (A, r) \<leftarrow> run_spec now [] (tokenize line) A;
     rs \<leftarrow> spec_play A ms;
     Some (r # rs)
   }"
| "spec_play A (Timers now # ms) = spec_play (expire now A) ms"

definition resting :: "Connection \<Rightarrow> bool" where
  "resting c \<longleftrightarrow> conn_ok c \<and> incoming c = [] \<and> outgoing c = [] \<and> want_read c \<and> \<not> want_close c"

lemma run_spec_order: "\<not> is_cmd cmd 1 ''keys'' \<Longrightarrow> run_spec now ks cmd A = run_spec now ks' cmd A"
  by (simp add: run_spec_def)

lemma frame_whole:
  "length (request_payload cmd) \<le> k_max_msg \<Longrightarrow> request_frame cmd = Some (frame_of (request_payload cmd))"
  by (simp add: request_frame_def Let_def frame_of_def append_buffer_def k_max_msg_def)

lemma send_whole:
  assumes "length (request_payload cmd) \<le> k_max_msg"
  shows "send_request [int (length (frame_of (request_payload cmd)))] cmd = Some (0, frame_of (request_payload cmd))"
proof -
  have "frame_of p \<noteq> []" for p using u32c.length_enc by (auto simp: frame_of_def simp flip: length_greater_0_conv)
  then obtain b bs where "frame_of (request_payload cmd) = b # bs" by (cases "frame_of (request_payload cmd)") blast+
  then show ?thesis using frame_whole [OF assms] by (simp add: send_request_def assertion_def nat_add_distrib)
qed

lemma serve_line_ok:
  assumes ok: "db_ok sv A" and c: "resting c" and l: "line_ok (tokenize line)"
    and s: "run_spec now [] (tokenize line) A = Some (A', r)"
  shows "\<exists>sv' c'. serve_line sv c now line = Some (sv', c', line, [int (length (frame_of (request_payload (tokenize line))))],
      map Read_data ([take 4 (reply r)] @ [drop 4 (reply r)])) \<and> db_ok sv' A' \<and> resting c'"
proof -
  let ?cmd = "tokenize line" and ?p = "request_payload (tokenize line)"
  have p: "length ?p \<le> k_max_msg" "length (frame_of ?p) \<le> 65536" using l by (simp_all add: line_ok_def k_max_msg_def frame_of_def)
  note f = frame_whole [OF p(1)]
  have pr: "parse_request ?p = (0, ?cmd)" using l by (intro parse_request_payload) (simp add: line_ok_def)
  have sp: "split_frames (incoming c @ frame_of ?p) = ([?p], [], False)"
    using split_frames_frames [of "[?p]"] p c by (simp add: resting_def)
  have one: "serve_one now ks ?p A = Some (A', r)" for ks
    using s run_spec_order [of ?cmd now ks A "[]"] l by (simp add: serve_one_def pr line_ok_def)
  from c have c': "conn_ok c" "want_read c" "\<not> want_close c" by (simp_all add: resting_def)
  from handle_read_ok [OF ok c' p(2) sp, of "\<lambda>_. now" Write_again] obtain res where
    sv: "serves (\<lambda>_. now) [?p] A res" and
    rel: "rel_option (\<lambda>(A', rs) (sv', c'). db_ok sv' A' \<and> length rs = length [?p] \<and> conn_ok c'
        \<and> incoming c' = [] \<and> socket_fd c' = socket_fd c \<and> last_activity_ms c' = last_activity_ms c
        \<and> outgoing c' = unsent Write_again (concat (map reply rs)) \<and> want_close c' = (False \<or> rs \<noteq> [] \<and> Write_again = Write_error)
        \<and> sent_by_read sv (\<lambda>_. now) (Read_data (frame_of ?p)) Write_again c = Netio.taken Write_again (concat (map reply rs)))
      res (handle_read sv (\<lambda>_. now) (Read_data (frame_of ?p)) Write_again c)" by blast
  from sv have "res = Some (A', [r])" by (elim serves_ConsE serves_NilE) (simp_all add: one)
  with rel obtain sv1 c1 where
    r1: "handle_read sv (\<lambda>_. now) (Read_data (frame_of ?p)) Write_again c = Some (sv1, c1)" "db_ok sv1 A'"
      "conn_ok c1" "incoming c1 = []" "outgoing c1 = reply r" "\<not> want_close c1"
    by (auto simp: option_rel_Some1 unsent_def)
  have "want_write c1" using r1(3,5) reply_nonempty [of "[r]"] by (auto simp: conn_ok_def flags_ok_def)
  from handle_write_ok [OF r1(3) this, of "Wrote (length (reply r))"] r1 obtain c2 where
    c2: "handle_write (Wrote (length (reply r))) c1 = Some c2" "conn_ok c2" "incoming c2 = []" "outgoing c2 = []" "\<not> want_close c2"
    by (auto simp: unsent_def)
  then have "resting c2" by (simp add: resting_def conn_ok_def flags_ok_def)
  with f r1 c2 show ?thesis by (simp add: serve_line_def Let_def)
qed

lemma reply_parts: "[] \<noteq> take 4 (reply r)" "[] \<noteq> drop 4 (reply r)"
proof -
  let ?n = "u32_bytes (of_nat (length (ser (fit r))))"
  have "length ?n = 4" by (rule u32c.length_enc)
  moreover have "reply r = ?n @ ser (fit r)" by (simp add: frame_of_def)
  ultimately have "take 4 (reply r) = ?n" "drop 4 (reply r) = ser (fit r)" by simp_all
  with \<open>length ?n = 4\<close> ser_nonempty [of "fit r"] show "[] \<noteq> take 4 (reply r)" "[] \<noteq> drop 4 (reply r)"
    by auto
qed

definition typed :: "move list \<Rightarrow> bytes list list" where
  "typed ms = concat (map (\<lambda>m. case m of Type now line \<Rightarrow> [tokenize line] | Timers now \<Rightarrow> []) ms)"

lemma exit_leaves: "leaves (tokenize (lit ''exit''))"
  by (simp add: leaves_def tokenize.simps lit_def isspace_def)

lemma play_ok:
  assumes "db_ok sv A" "resting c" "spec_play A ms = Some rs"
  shows "\<exists>sv' xs. play sv c ms = Some (sv', xs) \<and> dialogue (xs @ [(lit ''exit'', [], [])]) (typed ms) rs"
  using assms
proof (induction A ms arbitrary: sv c rs rule: spec_play.induct)
  case (1 A)
  then show ?case using dialogue.left [OF exit_leaves] by (simp add: typed_def)
next
  case (2 A now line ms)
  from "2.prems"(3) obtain A' r rs' where l: "line_ok (tokenize line)"
    and r: "run_spec now [] (tokenize line) A = Some (A', r)" "spec_play A' ms = Some rs'" "rs = r # rs'"
    by (auto simp: assertion_def split: bind_splits if_splits)
  from serve_line_ok [OF "2.prems"(1,2) l r(1)] obtain sv1 c1 where
    s: "serve_line sv c now line = Some (sv1, c1, line, [int (length (frame_of (request_payload (tokenize line))))],
      map Read_data ([take 4 (reply r)] @ [drop 4 (reply r)]))" "db_ok sv1 A'" "resting c1"
    by blast
  from "2.IH" [OF _ r(1) refl s(2,3) r(2)] l obtain sv' xs where
    x: "play sv1 c1 ms = Some (sv', xs)" "dialogue (xs @ [(lit ''exit'', [], [])]) (typed ms) rs'" by auto
  let ?p = "request_payload (tokenize line)"
  have p: "length ?p \<le> k_max_msg" using l by (simp add: line_ok_def k_max_msg_def)
  have "send_request [int (length (frame_of ?p))] (tokenize line) = Some (0, frame_of ?p)"
    by (rule send_whole [OF p])
  then have "dialogue ((line, [int (length (frame_of ?p))], map Read_data ([take 4 (reply r)] @ [drop 4 (reply r)]))
      # xs @ [(lit ''exit'', [], [])]) (tokenize line # typed ms) (r # rs')"
    using l p x(2) reply_parts [of r] by (intro dialogue.exchange) (auto simp: line_ok_def)
  with s(1) x(1) r(3) show ?case by (simp add: typed_def)
next
  case (3 A now ms)
  from "3.prems"(1) expire_loop_ok [of sv A 0 now] adb_ok_expire [of A now] obtain sv1 where
    "expire_loop sv now 0 = Some sv1" "db_ok sv1 (expire now A)"
    by (auto simp: db_ok_def adb_ok_def)
  with "3.IH" [of sv1 c rs] "3.prems"(2,3) show ?case by (simp add: typed_def)
qed

text \<open>What a script prints is what the abstract database answers.\<close>

theorem script_runs:
  assumes "spec_play Map.empty ms = Some rs"
  shows "script_output ms = Some (concat (map (\<lambda>r. stdout_text (events_of (fit r))) rs))"
proof -
  have "resting (fresh_conn 5 0)" using drained_Nil by (simp add: resting_def conn_ok_def flags_ok_def fresh_conn_def)
  from play_ok [OF db_ok_init this assms] obtain sv xs where
    x: "play server0 (fresh_conn 5 0) ms = Some (sv, xs)" "dialogue (xs @ [(lit ''exit'', [], [])]) (typed ms) rs" by blast
  from dialogue_repl [OF x(2)] obtain frames evs where
    "repl (xs @ [(lit ''exit'', [], [])]) = Some (frames, evs)" "answers_in evs = concat (map (\<lambda>r. events_of (fit r)) rs)"
    by blast
  with x(1) stdout_answers [of evs] stdout_concat [of "\<lambda>r. events_of (fit r)" rs] show ?thesis
    by (simp add: script_output_def)
qed

section \<open>tests/test\_cmds.py\<close>

definition cmds_lines :: "string list" where
  "cmds_lines = [''zscore asdf n1'', ''zquery xxx 1 asdf 1 10'', ''zadd zset 1 n1'', ''zadd zset 2 n2'',
     ''zadd zset 1.1 n1'', ''zscore zset n1'', ''zquery zset 1 \"\" 0 10'', ''zquery zset 1.1 \"\" 1 10'',
     ''zquery zset 1.1 \"\" 2 10'', ''zrem zset adsf'', ''zrem zset n1'', ''zquery zset 1 \"\" 0 10'']"

definition cmds_expected :: "string list" where
  "cmds_expected = [''nil'', ''array length: 0'', ''array end'', ''1'', ''1'', ''0'', ''1.1'',
     ''array length: 4'', ''n1'', ''1.1'', ''n2'', ''2'', ''array end'',
     ''array length: 2'', ''n2'', ''2'', ''array end'', ''array length: 0'', ''array end'', ''0'', ''1'',
     ''array length: 2'', ''n2'', ''2'', ''array end'']"

definition as_lines :: "string list \<Rightarrow> bytes" where
  "as_lines ls = concat (map (\<lambda>l. lit l @ [10]) ls)"

text \<open>Literals are compared as strings; a typed line is its words joined by spaces.\<close>

lemma inj_of_char_u8: "inj (of_char :: char \<Rightarrow> u8)"
proof (rule injI)
  fix c d :: char
  assume e: "(of_char c :: u8) = of_char d"
  have "unat (of_char x :: u8) = of_char x" for x
    by (cases x) simp
  then have "(of_char c :: nat) = of_char d" using e by metis
  then show "c = d" by simp
qed

lemma lit_inject [simp]: "lit a = lit b \<longleftrightarrow> a = b"
  unfolding lit_def by (rule inj_map_eq_map) (rule inj_of_char_u8)

fun unwords :: "string list \<Rightarrow> string" where
  "unwords [] = []"
| "unwords [w] = w"
| "unwords (w # ws) = w @ CHR 0x20 # unwords ws"

definition blank :: "char \<Rightarrow> bool" where
  "blank c \<longleftrightarrow> c \<in> {CHR 0x20, CHR 0x09, CHR 0x0A, CHR 0x0B, CHR 0x0C, CHR 0x0D}"

definition words_ok :: "string list \<Rightarrow> bool" where
  "words_ok ws \<longleftrightarrow> list_all (\<lambda>w. w \<noteq> [] \<and> list_all (\<lambda>c. \<not> blank c) w) ws"

lemma lit_unwords: "lit (unwords ws) = join (map lit ws)"
  by (induction ws rule: unwords.induct) (simp_all add: lit_def)

lemma isspace_cases: "isspace b \<longleftrightarrow> b \<in> {32, 9, 10, 11, 12, 13}"
proof -
  have "unat b \<in> {9, 10, 11, 12, 13}" if "9 \<le> b" "b \<le> 13"
    using that by (auto simp: word_le_nat_alt)
  moreover have "b = of_nat (unat b)" by simp
  ultimately have "9 \<le> b \<and> b \<le> 13 \<Longrightarrow> b \<in> {9, 10, 11, 12, 13}"
    by (metis insert_iff empty_iff of_nat_numeral)
  then show ?thesis by (auto simp: isspace_def)
qed

lemma isspace_char: "isspace (of_char c) \<longleftrightarrow> blank c"
proof -
  have "(of_char c :: u8) = of_char d \<longleftrightarrow> c = d" for d by (rule inj_eq [OF inj_of_char_u8])
  from this [of "CHR 0x20"] this [of "CHR 0x09"] this [of "CHR 0x0A"] this [of "CHR 0x0B"] this [of "CHR 0x0C"]
    this [of "CHR 0x0D"] show ?thesis
    by (simp add: isspace_cases blank_def)
qed

lemma tokenize_unwords: "words_ok ws \<Longrightarrow> tokenize (lit (unwords ws)) = map lit ws"
  unfolding lit_unwords by (intro tokenize_join) (auto simp: words_ok_def is_token_def lit_def list_all_iff isspace_char)

definition cmds_words :: "string list list" where
  "cmds_words =
  [[''zscore'', ''asdf'', ''n1''], [''zquery'', ''xxx'', ''1'', ''asdf'', ''1'', ''10''], [''zadd'', ''zset'', ''1'', ''n1''],
   [''zadd'', ''zset'', ''2'', ''n2''], [''zadd'', ''zset'', ''1.1'', ''n1''], [''zscore'', ''zset'', ''n1''],
   [''zquery'', ''zset'', ''1'', ''\"\"'', ''0'', ''10''], [''zquery'', ''zset'', ''1.1'', ''\"\"'', ''1'', ''10''],
   [''zquery'', ''zset'', ''1.1'', ''\"\"'', ''2'', ''10''], [''zrem'', ''zset'', ''adsf''], [''zrem'', ''zset'', ''n1''],
   [''zquery'', ''zset'', ''1'', ''\"\"'', ''0'', ''10'']]"

lemma rounded:
  "scale_dbl (Suc 0) 10 0 = 0x3FF0000000000000" "scale_dbl 2 10 0 = 0x4000000000000000"
  "scale_dbl 11 10 (- 1) = 0x3FF199999999999A"
proof -
  note eval = bin_exp_def nbits_eval round_half_even_def
  have "round_dbl 1 1 = nat (0 + 1022) * 2 ^ 52 + 2 ^ 52" by (rule round_dbl_eval) (simp_all add: eval)
  then show "scale_dbl (Suc 0) 10 0 = 0x3FF0000000000000" by (simp add: scale_dbl_def)
  have "round_dbl 2 1 = nat (1 + 1022) * 2 ^ 52 + 2 ^ 52" by (rule round_dbl_eval) (simp_all add: eval)
  then show "scale_dbl 2 10 0 = 0x4000000000000000" by (simp add: scale_dbl_def)
  have "round_dbl 11 10 = nat (0 + 1022) * 2 ^ 52 + 0x1199999999999A" by (rule round_dbl_eval) (simp_all add: eval)
  then show "scale_dbl 11 10 (- 1) = 0x3FF199999999999A" by (simp add: scale_dbl_def)
qed

lemma doubles:
  "str2dbl (lit ''1'') = Some 0x3FF0000000000000" "str2dbl (lit ''2'') = Some 0x4000000000000000"
  "str2dbl (lit ''1.1'') = Some 0x3FF199999999999A"
proof -
  note eval = lit_def isdigit_def lower_def mantissa_def let_list digits_val_def rounded
  show "str2dbl (lit ''1'') = Some 0x3FF0000000000000"
    using str2dbl_fixed [of "lit ''1''" 49 "[]" "[49]" "[]" "0x3FF0000000000000"] by (simp add: eval)
  show "str2dbl (lit ''2'') = Some 0x4000000000000000"
    using str2dbl_fixed [of "lit ''2''" 50 "[]" "[50]" "[]" "0x4000000000000000"] by (simp add: eval)
  show "str2dbl (lit ''1.1'') = Some 0x3FF199999999999A"
    using str2dbl_fixed [of "lit ''1.1''" 49 "[46, 49]" "[49]" "[49]" "0x3FF199999999999A"] by (simp add: eval)
qed

lemma doubles_text: "fmt_g 0x4000000000000000 = lit ''2''" "fmt_g 0x3FF199999999999A = lit ''1.1''"
  by (simp_all add: eval_simps)

lemma cmds_joined: "cmds_lines = map unwords cmds_words"
  by (simp add: cmds_lines_def cmds_words_def)

lemma cmds_words_ok: "list_all words_ok cmds_words"
  by (simp add: cmds_words_def words_ok_def blank_def)

lemma length_lit [simp]: "length (lit s) = length s"
  by (simp add: lit_def)

lemma line_ok_bytes:
  assumes "cmd \<noteq> []" "hd cmd \<notin> {lit ''exit'', lit ''quit'', lit ''keys''}" "length cmd \<le> 10"
    and w: "\<forall>w \<in> set cmd. length w \<le> 100"
  shows "line_ok cmd"
proof -
  have a: "argv_ok cmd" using assms(3) w by (fastforce simp: argv_ok_def k_max_args_def)
  have "length (concat (map arg_bytes xs)) \<le> 104 * length xs" if "set xs \<subseteq> set cmd" for xs
    using that w by (induction xs) (auto simp: arg_bytes_def add_mono)
  from this [of cmd] have "length (request_payload cmd) \<le> 60000"
    using assms(3) by (simp add: request_payload_eq [OF a])
  with a assms(1,2) show ?thesis by (cases cmd) (auto simp: line_ok_def leaves_def is_cmd_def)
qed

lemma line_ok_words:
  assumes "ws \<noteq> []" "hd ws \<notin> {''exit'', ''quit'', ''keys''}" "length ws \<le> 10" "list_all (\<lambda>w. length w \<le> 100) ws"
  shows "line_ok (map lit ws)"
proof (rule line_ok_bytes)
  show "hd (map lit ws) \<notin> {lit ''exit'', lit ''quit'', lit ''keys''}"
    using assms(1,2) by (simp only: hd_map lit_inject insert_iff empty_iff simp_thms)
qed (use assms(1,3,4) in \<open>simp_all add: list_all_iff\<close>)

definition small_line :: "string list \<Rightarrow> bool" where
  "small_line ws \<longleftrightarrow> ws \<noteq> [] \<and> hd ws \<notin> {''exit'', ''quit'', ''keys''} \<and> length ws \<le> 10
     \<and> list_all (\<lambda>w. length w \<le> 100) ws \<and> words_ok ws"

lemma small_line_ok: "small_line ws \<Longrightarrow> line_ok (map lit ws)"
  and small_tokens: "small_line ws \<Longrightarrow> tokenize (lit (unwords ws)) = map lit ws"
  by (simp_all add: small_line_def line_ok_words tokenize_unwords)

text \<open>A script given by the words of its lines.\<close>

fun spec_words :: "adb \<Rightarrow> (u64 \<times> string list) list \<Rightarrow> resp list option" where
  "spec_words A [] = Some []"
| "spec_words A ((now, ws) # ms) = do { (A, r) \<leftarrow> run_spec now [] (map lit ws) A; rs \<leftarrow> spec_words A ms; Some (r # rs) }"

lemma spec_play_words:
  assumes "list_all (\<lambda>(now, ws). small_line ws) ms"
  shows "spec_play A (map (\<lambda>(now, ws). Type now (lit (unwords ws))) ms) = spec_words A ms"
  using assms
proof (induction ms arbitrary: A)
  case (Cons m ms)
  obtain now ws where m: "m = (now, ws)" by fastforce
  with Cons show ?case by (simp add: small_line_ok small_tokens)
qed simp

lemma ints: "str2int (lit ''0'') = Some 0" "str2int (lit ''1'') = Some 1" "str2int (lit ''2'') = Some 2" "str2int (lit ''10'') = Some 10"
  by (simp_all add: eval_simps)

lemmas spec_simps = run_spec_def is_cmd_def spec_zadd_def spec_zrem_def spec_zscore_def spec_zquery_def
  spec_get_def spec_set_def spec_del_def spec_pexpire_def spec_pttl_def new_entry_def full_def

lemma order_facts:
  "dbl_eq 0x3FF0000000000000 0x3FF199999999999A = False"
  "zkey (0x3FF0000000000000, n) < zkey (0x4000000000000000, m)"
  "zkey (0x3FF199999999999A, n) < zkey (0x4000000000000000, m)"
  "\<not> zkey (0x4000000000000000, n) < zkey (0x3FF0000000000000, m)"
  "\<not> zkey (0x4000000000000000, n) < zkey (0x3FF199999999999A, m)"
  "\<not> zkey (0x3FF199999999999A, n) < zkey (0x3FF0000000000000, m)"
  "\<not> zkey (0x3FF199999999999A, lit ''n1'') < zkey (0x3FF199999999999A, lit ''\"\"'')"
  by (simp_all add: zkey_def common_defs lit_def)

lemma cmds_answers:
  "spec_words Map.empty (map (\<lambda>ws. (now, ws)) cmds_words) = Some
    [RNil, RArr [], RInt 1, RInt 1, RInt 0, RDbl 0x3FF199999999999A,
     RArr [RStr (lit ''n1''), RDbl 0x3FF199999999999A, RStr (lit ''n2''), RDbl 0x4000000000000000],
     RArr [RStr (lit ''n2''), RDbl 0x4000000000000000], RArr [], RInt 0, RInt 1,
     RArr [RStr (lit ''n2''), RDbl 0x4000000000000000]]"
  by (simp add: cmds_words_def spec_simps doubles ints order_facts zs_score_def zs_add_def zs_put_def zs_rem_def
      zs_query_def zs_rank_def int32_of_def)

definition cmds_script :: "u64 \<Rightarrow> move list" where
  "cmds_script now = map (\<lambda>l. Type now (lit l)) cmds_lines"

lemma cmds_small: "list_all small_line cmds_words"
  using cmds_words_ok by (simp add: cmds_words_def small_line_def)

lemma fit_small: "length (ser r) \<le> k_max_msg \<Longrightarrow> fit r = r"
  by (simp add: fit_def)

lemma test_cmds_runs: "script_output (cmds_script now) = Some (as_lines cmds_expected)"
proof -
  have "cmds_script now = map (\<lambda>(now, ws). Type now (lit (unwords ws))) (map (\<lambda>ws. (now, ws)) cmds_words)"
    by (simp add: cmds_script_def cmds_joined)
  then have "spec_play Map.empty (cmds_script now) = spec_words Map.empty (map (\<lambda>ws. (now, ws)) cmds_words)"
    using spec_play_words [of "map (\<lambda>ws. (now, ws)) cmds_words"] cmds_small by (simp add: list_all_iff)
  from script_runs [OF this [unfolded cmds_answers]] show ?thesis
    by (simp add: fit_small k_max_msg_def stdout_text_def as_lines_def cmds_expected_def doubles_text int64_of_def
        int32_of_def dec_int_def dec_nat_eval lit_def c_text_def)
qed

section \<open>Scores in and out\<close>

text \<open>A score typed in the notation of \<open>%g\<close> is one token, is stored, and is printed back as typed.\<close>

lemma g_text_token:
  assumes D: "10 ^ 5 \<le> D" "D < 10 ^ 6" and X: "- 300 \<le> X" "X \<le> 300"
  shows "is_token (g_text D X)" "length (g_text D X) \<le> 20"
proof -
  have sub: "set (strip_zeros ds) \<subseteq> set ds" for ds
    by (auto simp: strip_zeros_def dest: set_dropWhileD)
  have ln: "length (strip_zeros ds) \<le> length ds" for ds
    using length_dropWhile_le [of _ "rev ds"] by (simp add: strip_zeros_def)
  have l: "length (dec_nat D) = 6" using dec_nat_length [of 5 D] D by simp
  have l2: "length (two_digits (nat \<bar>X\<bar>)) \<le> 3"
  proof -
    consider "nat \<bar>X\<bar> < 10" | "10 \<le> nat \<bar>X\<bar>" "nat \<bar>X\<bar> < 100" | "100 \<le> nat \<bar>X\<bar>" "nat \<bar>X\<bar> < 1000" using X by linarith
    then show ?thesis
      by cases (use dec_nat_length [of 1 "nat \<bar>X\<bar>"] dec_nat_length [of 2 "nat \<bar>X\<bar>"] in \<open>auto simp: two_digits_def dec_nat.simps [of "nat \<bar>X\<bar>"]\<close>)
  qed
  have p: "length (with_point ip fp) \<le> length ip + 1 + length fp" for ip fp
    using ln [of fp] by (auto simp: with_point_def Let_def)
  show "length (g_text D X) \<le> 20"
    using l l2 p [of "take 1 (dec_nat D)" "drop 1 (dec_nat D)"] p [of "[48]" "replicate (nat (- X - 1)) 48 @ dec_nat D"]
      p [of "take (nat X + 1) (dec_nat D)" "drop (nat X + 1) (dec_nat D)"] by (auto simp: g_text_def Let_def)
  have dig: "\<forall>b \<in> set (dec_nat n). \<not> isspace b" for n using dec_nat_digits [of n] digit_not_space by blast
  have w: "\<forall>b \<in> set (with_point ip fp). \<not> isspace b" if "\<forall>b \<in> set ip. \<not> isspace b" "\<forall>b \<in> set fp. \<not> isspace b" for ip fp
    using that sub [of fp] by (auto simp: with_point_def Let_def isspace_def)
  have tw: "\<forall>b \<in> set (two_digits n). \<not> isspace b" for n using dig [of n] by (auto simp: two_digits_def isspace_def)
  from strtod_g_text [OF D, of X] have "g_text D X \<noteq> []" by auto
  moreover have "\<forall>b \<in> set (g_text D X). \<not> isspace b"
  proof -
    have ws: "\<forall>b \<in> set (take i (dec_nat D)). \<not> isspace b" "\<forall>b \<in> set (drop i (dec_nat D)). \<not> isspace b" for i
      using dig [of D] by (auto dest: in_set_takeD in_set_dropD)
    have "\<forall>b \<in> set (with_point (take i (dec_nat D)) (drop i (dec_nat D))). \<not> isspace b" for i using w ws by blast
    moreover have "\<forall>b \<in> set (with_point [48] (replicate i 48 @ dec_nat D)). \<not> isspace b" for i
      using dig [of D] by (intro w) (auto simp: isspace_def)
    moreover have "\<not> isspace 101" "\<not> isspace 45" "\<not> isspace 43" by (simp_all add: isspace_def)
    ultimately show ?thesis using tw by (simp add: g_text_def Let_def ball_Un)
  qed
  ultimately show "is_token (g_text D X)" by (simp add: is_token_def)
qed

lemma score_echo:
  fixes neg :: bool
  assumes "10 ^ 5 \<le> D" "D < 10 ^ 6" "- 300 \<le> X" "X \<le> 300"
    and k: "is_token k" "is_token n" "length k \<le> 100" "length n \<le> 100"
  defines "s \<equiv> (if neg then [45] else []) @ g_text D X"
  shows "script_output [Type t1 (join [lit ''zadd'', k, s, n]), Type t2 (join [lit ''zscore'', k, n])] = Some (lit ''1'' @ [10] @ s @ [10])"
proof -
  have s: "is_token s" "length s \<le> 100" using g_text_token [OF assms(1-4)] by (auto simp: s_def is_token_def isspace_def)
  obtain d where d: "str2dbl s = Some d" "fmt_g d = s" using fmt_g_str2dbl [OF assms(1-4), of neg] by (auto simp: s_def)
  have z: "is_token (lit ''zadd'')" "is_token (lit ''zscore'')" by (simp_all add: is_token_def lit_def isspace_def)
  have tk: "tokenize (join [lit ''zadd'', k, s, n]) = [lit ''zadd'', k, s, n]" "tokenize (join [lit ''zscore'', k, n]) = [lit ''zscore'', k, n]"
    by (rule tokenize_join, use s k z in simp)+
  have ok: "line_ok [lit ''zadd'', k, s, n]" "line_ok [lit ''zscore'', k, n]"
    by (rule line_ok_bytes, use s k in simp_all)+
  have "spec_play Map.empty [Type t1 (join [lit ''zadd'', k, s, n]), Type t2 (join [lit ''zscore'', k, n])] = Some [RInt 1, RDbl d]"
    unfolding spec_play.simps tk using ok by (simp add: spec_simps d zs_score_def)
  from script_runs [OF this] show ?thesis
    by (simp add: fit_small k_max_msg_def stdout_text_def d int64_of_def dec_int_def dec_nat_eval lit_def)
qed

text \<open>What is printed is a text that is read and printed again.\<close>

lemma fmt_g_token:
  assumes "\<not> isnan d" "dbl_mag d \<noteq> 0x7FF0000000000000" "\<bar>g_exp d\<bar> \<le> 300"
  shows "is_token (fmt_g d) \<and> length (fmt_g d) \<le> 100"
proof (cases "dbl_mag d = 0")
  case True
  then show ?thesis by (simp add: fmt_g_zero is_token_def lit_def isspace_def)
next
  case False
  from fmt_g_shape [OF assms(1,2) False] obtain D where
    "10 ^ 5 \<le> D" "D < 10 ^ 6" "fmt_g d = (if bit d 63 then [45] else []) @ g_text D (g_exp d)" by blast
  moreover from this(1,2) g_text_token [of D "g_exp d"] assms(3) have "is_token (g_text D (g_exp d))" "length (g_text D (g_exp d)) \<le> 20"
    by simp_all
  ultimately show ?thesis by (auto simp: is_token_def isspace_def)
qed

lemma score_twice:
  assumes d: "str2dbl s = Some d" "dbl_mag d \<noteq> 0x7FF0000000000000" "\<bar>g_exp d\<bar> \<le> 300"
    and k: "is_token k" "is_token n" "is_token s" "length k \<le> 100" "length n \<le> 100" "length s \<le> 100"
  shows "script_output [Type t1 (join [lit ''zadd'', k, s, n]), Type t2 (join [lit ''zscore'', k, n]),
      Type t3 (join [lit ''zadd'', k, fmt_g d, n]), Type t4 (join [lit ''zscore'', k, n])]
    = Some (lit ''1'' @ [10] @ fmt_g d @ [10] @ lit ''0'' @ [10] @ fmt_g d @ [10])"
proof -
  have "\<not> isnan d" using d(1) by (auto simp: str2dbl_def split: prod.splits if_splits)
  from fmt_g_again [OF this d(2,3)] fmt_g_token [OF this d(2,3)] obtain e where
    e: "str2dbl (fmt_g d) = Some e" "fmt_g e = fmt_g d" "is_token (fmt_g d)" "length (fmt_g d) \<le> 100" by blast
  have z: "is_token (lit ''zadd'')" "is_token (lit ''zscore'')" by (simp_all add: is_token_def lit_def isspace_def)
  have tk: "tokenize (join [lit ''zadd'', k, s, n]) = [lit ''zadd'', k, s, n]" "tokenize (join [lit ''zscore'', k, n]) = [lit ''zscore'', k, n]"
    "tokenize (join [lit ''zadd'', k, fmt_g d, n]) = [lit ''zadd'', k, fmt_g d, n]"
    by (rule tokenize_join, use e k z in simp)+
  have ok: "line_ok [lit ''zadd'', k, s, n]" "line_ok [lit ''zscore'', k, n]" "line_ok [lit ''zadd'', k, fmt_g d, n]"
    by (rule line_ok_bytes, use e k in simp_all)+
  obtain x where x: "zs_score n (zs_add n e [(d, n)]) = Some x" "x = d \<or> x = e"
    by (cases "dbl_eq d e") (auto simp: zs_add_def zs_put_def zs_rem_def zs_score_def)
  have "spec_play Map.empty [Type t1 (join [lit ''zadd'', k, s, n]), Type t2 (join [lit ''zscore'', k, n]),
      Type t3 (join [lit ''zadd'', k, fmt_g d, n]), Type t4 (join [lit ''zscore'', k, n])] = Some [RInt 1, RDbl d, RInt 0, RDbl x]"
    unfolding spec_play.simps tk using ok x(1) by (simp add: spec_simps d e zs_score_def) (auto split: option.splits)
  moreover have "fmt_g x = fmt_g d" using x(2) e(2) by blast
  ultimately show ?thesis
    using script_runs by (simp add: fit_small k_max_msg_def stdout_text_def e int64_of_def dec_int_def dec_nat_eval lit_def)
qed

section \<open>tests/test\_ttl\_expiration.py\<close>

definition ttl_script :: "u64 \<Rightarrow> u64 \<Rightarrow> u64 \<Rightarrow> move list" where
  "ttl_script t1 t2 t3 = [Type t1 (lit ''set test_key test_value''), Type t1 (lit ''pexpire test_key 10''), Timers t2,
     Type t3 (lit ''get test_key''), Type t3 (lit ''ping'')]"

lemma ttl_runs:
  "script_output (ttl_script t1 t2 t3) =
     Some (as_lines [''nil'', ''1'', if t1 + 10 \<le> t2 then ''nil'' else ''test_value'', ''pong''])"
proof -
  have ok: "small_line [''set'', ''test_key'', ''test_value'']" "small_line [''pexpire'', ''test_key'', ''10'']"
    "small_line [''get'', ''test_key'']" "small_line [''ping'']"
    by (simp_all add: small_line_def words_ok_def blank_def)
  have tk: "tokenize (lit ''set test_key test_value'') = map lit [''set'', ''test_key'', ''test_value'']"
    "tokenize (lit ''pexpire test_key 10'') = map lit [''pexpire'', ''test_key'', ''10'']"
    "tokenize (lit ''get test_key'') = map lit [''get'', ''test_key'']" "tokenize (lit ''ping'') = map lit [''ping'']"
    using ok [THEN small_tokens] by simp_all
  have "spec_play Map.empty (ttl_script t1 t2 t3) =
      Some [RNil, RInt 1, if t1 + 10 \<le> t2 then RNil else RStr (lit ''test_value''), RStr (lit ''pong'')]"
    unfolding ttl_script_def spec_play.simps tk using ok [THEN small_line_ok]
    by (simp add: spec_simps ints expire_def expired_def)
  from script_runs [OF this] show ?thesis
    by (auto simp: fit_small k_max_msg_def stdout_text_def as_lines_def int64_of_def dec_int_def dec_nat_eval lit_def c_text_def)
qed

section \<open>tests/test\_ttl.py\<close>

text \<open>
  The script deletes the key, sets it, gives it a second to live and looks again after the timers have
  run; the printed remaining time is that of the clock.
\<close>

definition ttl_demo :: "u64 \<Rightarrow> u64 \<Rightarrow> u64 \<Rightarrow> move list" where
  "ttl_demo t1 t2 t3 = [Type t1 (lit ''del ttl_demo_key''), Type t1 (lit ''set ttl_demo_key v''),
     Type t1 (lit ''pttl ttl_demo_key''), Type t1 (lit ''pexpire ttl_demo_key 1000''),
     Type t2 (lit ''pttl ttl_demo_key''), Timers t3, Type t3 (lit ''pttl ttl_demo_key''), Type t3 (lit ''get ttl_demo_key'')]"

lemma thousand: "str2int (lit ''1000'') = Some 1000"
  by (simp add: eval_simps)

lemma ttl_demo_runs:
  assumes "unat t1 + 1000 < 2 ^ 63" "t1 \<le> t2" "t2 < t1 + 1000" "t1 + 1000 \<le> t3"
  shows "script_output (ttl_demo t1 t2 t3) = Some (as_lines [''0'', ''nil'', ''-1'', ''1'']
    @ fmt_d (uint (t1 + 1000 - t2)) @ [10] @ as_lines [''-2'', ''nil''])" and "0 < uint (t1 + 1000 - t2)"
proof -
  have ok: "small_line [''del'', ''ttl_demo_key'']" "small_line [''set'', ''ttl_demo_key'', ''v'']"
    "small_line [''pttl'', ''ttl_demo_key'']" "small_line [''pexpire'', ''ttl_demo_key'', ''1000'']"
    "small_line [''get'', ''ttl_demo_key'']"
    by (simp_all add: small_line_def words_ok_def blank_def)
  have tk: "tokenize (lit ''del ttl_demo_key'') = map lit [''del'', ''ttl_demo_key'']"
    "tokenize (lit ''set ttl_demo_key v'') = map lit [''set'', ''ttl_demo_key'', ''v'']"
    "tokenize (lit ''pttl ttl_demo_key'') = map lit [''pttl'', ''ttl_demo_key'']"
    "tokenize (lit ''pexpire ttl_demo_key 1000'') = map lit [''pexpire'', ''ttl_demo_key'', ''1000'']"
    "tokenize (lit ''get ttl_demo_key'') = map lit [''get'', ''ttl_demo_key'']"
    using ok [THEN small_tokens] by simp_all
  have n: "unat (t1 + 1000) = unat t1 + 1000" using assms(1) unat_add_lem [of t1 1000] by simp
  have d: "unat (t1 + 1000 - t2) = unat t1 + 1000 - unat t2" unfolding unat_sub [OF less_imp_le [OF assms(3)]] n ..
  have lt: "unat t2 < unat t1 + 1000" using assms(3) unfolding word_less_nat_alt n .
  have u: "0 < uint (t1 + 1000 - t2)" "uint (t1 + 1000 - t2) < 2 ^ 63"
    using assms(1) lt unfolding uint_nat d by (linarith, simp only: of_nat_less_numeral_power_cancel_iff)
  then show "0 < uint (t1 + 1000 - t2)" by blast
  have "spec_play Map.empty (ttl_demo t1 t2 t3) =
      Some [RInt 0, RNil, RInt (-1), RInt 1, RInt (uint (t1 + 1000 - t2)), RInt (-2), RNil]"
    unfolding ttl_demo_def spec_play.simps tk using ok [THEN small_line_ok] assms(3,4)
    by (simp add: spec_simps thousand expire_def expired_def)
  from script_runs [OF this] u show "script_output (ttl_demo t1 t2 t3) = Some (as_lines [''0'', ''nil'', ''-1'', ''1'']
    @ fmt_d (uint (t1 + 1000 - t2)) @ [10] @ as_lines [''-2'', ''nil''])"
    by (simp add: fit_small k_max_msg_def stdout_text_def as_lines_def int64_of_id dec_int_def [of 0] dec_int_def [of 1]
        dec_int_def [of "- 1"] dec_int_def [of "- 2"] dec_nat_eval lit_def c_text_def)
qed

end
