(* ===== verification/Server_Log.thy ===== *)
theory Server_Log
  imports Startup
begin

text \<open>
  What the server prints on its standard error output while it runs: the messages of \<open>net/netio.cpp\<close>,
  \<open>core/sys_server.cpp\<close> and of \<open>handle_accept\<close>. Each handler is given again with the list of its
  messages; the function of the source is what remains when the messages are dropped (the lemmas
  \<open>..._erase\<close>).

  The messages tell the truth about the connections: an event on a connection closes it exactly when a
  message says so or \<open>POLLERR\<close> is set, the timers print one line for each connection they
  close, in the order of the idle list, and the warnings about a heap that does not agree with the map are
  never printed.
\<close>

section \<open>Messages\<close>

datatype log_line =
    Too_long
  | Write_failed
  | Read_failed
  | Client_closed
  | Unexpected_eof
  | Accept_failed
  | Accepted_from sockaddr_in
  | Idle_closed nat
  | Stale_entry bytes
  | Node_mismatch bytes ptr addr

definition stderr_of :: "'a proc \<Rightarrow> bytes" where
  "stderr_of p = concat (map (\<lambda>c. case c of Stderr t \<Rightarrow> t | _ \<Rightarrow> []) (fst p))"

text \<open>The text of a message; \<open>fmt_p\<close> is the format \<open>%p\<close>, which each implementation defines.\<close>

fun log_text :: "(ptr \<Rightarrow> bytes) \<Rightarrow> log_line \<Rightarrow> bytes" where
  "log_text fmt_p Too_long = stderr_of (msg_error (lit ''too long''))"
| "log_text fmt_p Write_failed = stderr_of (msg_error (lit ''write() error''))"
| "log_text fmt_p Read_failed = stderr_of (msg_error (lit ''read() error''))"
| "log_text fmt_p Client_closed = stderr_of (msg (lit ''[server] client closed connection''))"
| "log_text fmt_p Unexpected_eof = stderr_of (msg (lit ''unexpected EOF''))"
| "log_text fmt_p Accept_failed = stderr_of (msg_error (lit ''accept() error''))"
| "log_text fmt_p (Accepted_from a) = stderr_of (accept_message a)"
| "log_text fmt_p (Idle_closed fd) = lit ''[server] closing idle connection fd='' @ fmt_d (int32_of (int fd)) @ [10]"
| "log_text fmt_p (Stale_entry key) =
     lit ''[server] warning: heap referred to an entry already removed from db for key '' @ [39] @ c_text key @ [39] @ [10]"
| "log_text fmt_p (Node_mismatch key node entry) =
     lit ''[server] warning: hash node mismatch for key '' @ [39] @ c_text key @ [39] @ lit '' (node='' @ fmt_p node
       @ lit '', expected='' @ fmt_p (Some entry) @ lit '')'' @ [10]"

section \<open>Connections\<close>

definition logged_one_request ::
    "server \<Rightarrow> u64 \<Rightarrow> Connection \<Rightarrow> (server \<times> Connection \<times> bool \<times> log_line list) option" where
  "logged_one_request sv now conn =
     (if length (incoming conn) < 4 then Some (sv, conn, False, [])
      else
        (let frame_len = u32_of_bytes (take 4 (incoming conn)) in
         if unat frame_len > k_max_msg then Some (sv, conn\<lparr>want_close := True\<rparr>, False, [Too_long])
         else do {
           (sv, conn, go_on) \<leftarrow> handle_one_request sv now conn;
           Some (sv, conn, go_on, [])
         }))"

partial_function (option) logged_requests ::
    "server \<Rightarrow> (nat \<Rightarrow> u64) \<Rightarrow> Connection \<Rightarrow> (server \<times> Connection \<times> log_line list) option" where
  "logged_requests sv clock conn = do {
     (sv, conn, go_on, log1) \<leftarrow> logged_one_request sv (clock 0) conn;
     if go_on then do {
       (sv, conn, log2) \<leftarrow> logged_requests sv (\<lambda>i. clock (Suc i)) conn;
       Some (sv, conn, log1 @ log2)
     }
     else Some (sv, conn, log1)
   }"

declare logged_requests.simps [code]

definition logged_write :: "write_result \<Rightarrow> Connection \<Rightarrow> (Connection \<times> log_line list) option" where
  "logged_write w conn = do {
     c \<leftarrow> handle_write w conn;
     Some (c, if w = Write_error then [Write_failed] else [])
   }"

definition logged_read ::
    "server \<Rightarrow> (nat \<Rightarrow> u64) \<Rightarrow> read_result \<Rightarrow> write_result \<Rightarrow> Connection \<Rightarrow> (server \<times> Connection \<times> log_line list) option" where
  "logged_read sv clock r w conn =
     (case r of
        Read_again \<Rightarrow> Some (sv, conn, [])
      | Read_error \<Rightarrow> Some (sv, conn\<lparr>want_close := True\<rparr>, [Read_failed])
      | Read_eof \<Rightarrow> Some (sv, conn\<lparr>want_close := True\<rparr>, [if incoming conn = [] then Client_closed else Unexpected_eof])
      | Read_data buf \<Rightarrow> do {
          (sv, conn, log1) \<leftarrow> logged_requests sv clock (conn\<lparr>incoming := append_buffer (incoming conn) buf\<rparr>);
          if outgoing conn \<noteq> [] then do {
            (conn, log2) \<leftarrow> logged_write w (conn\<lparr>want_read := False, want_write := True\<rparr>);
            Some (sv, conn, log1 @ log2)
          }
          else Some (sv, conn, log1)
        })"

definition logged_event :: "world \<Rightarrow> nat \<Rightarrow> io \<Rightarrow> (world \<times> log_line list) option" where
  "logged_event w fd ev =
     (if \<not> (pollin ev \<or> pollout ev \<or> pollerr ev \<or> pollother ev) then Some (w, [])
      else do {
        p \<leftarrow> vec_get (fd2conn w) fd;
        a \<leftarrow> p;
        cs \<leftarrow> wr (conns w) a (\<lambda>c. c\<lparr>last_activity_ms := io_now ev\<rparr>);
        h \<leftarrow> dlist_detach (dls w) a;
        h \<leftarrow> dlist_insert_before h idle_conn_list a;
        c \<leftarrow> cs a;
        (sv, c, log1) \<leftarrow> (if pollin ev \<and> want_read c
                    then logged_read (srv w) (io_clock ev) (io_read ev) (io_write1 ev) c
                    else Some (srv w, c, []));
        (c, log2) \<leftarrow> (if pollout ev \<and> want_write c then logged_write (io_write2 ev) c else Some (c, []));
        (let w = w\<lparr>srv := sv, conns := cs(a \<mapsto> c), dls := h\<rparr> in do {
           w \<leftarrow> (if pollerr ev \<or> want_close c then handle_destroy w a else Some w);
           Some (w, log1 @ log2)
         })
      })"

fun logged_events :: "world \<Rightarrow> (nat \<times> io) list \<Rightarrow> (world \<times> log_line list) option" where
  "logged_events w [] = Some (w, [])"
| "logged_events w ((fd, ev) # evs) = do {
     (w, log1) \<leftarrow> logged_event w fd ev;
     (w, log2) \<leftarrow> logged_events w evs;
     Some (w, log1 @ log2)
   }"

definition logged_accept :: "world \<Rightarrow> u64 \<Rightarrow> accept_result \<Rightarrow> sockaddr_in \<Rightarrow> (world \<times> int \<times> log_line list) option" where
  "logged_accept w now acc from_addr = do {
     (w, rv) \<leftarrow> handle_accept w now acc;
     Some (w, rv, [case acc of Accept_error \<Rightarrow> Accept_failed | Accepted _ _ \<Rightarrow> Accepted_from from_addr])
   }"

section \<open>Timers\<close>

partial_function (option) logged_close_idle :: "world \<Rightarrow> u64 \<Rightarrow> (world \<times> log_line list) option" where
  "logged_close_idle w now_ms = do {
     none \<leftarrow> dlist_empty (dls w) idle_conn_list;
     if none then Some (w, [])
     else do {
       (a, c) \<leftarrow> idle_head w;
       if last_activity_ms c + k_idle_timeout_ms \<ge> now_ms then Some (w, [])
       else do {
         w \<leftarrow> handle_destroy w a;
         (w, log) \<leftarrow> logged_close_idle w now_ms;
         Some (w, Idle_closed (socket_fd c) # log)
       }
     }
   }"

declare logged_close_idle.simps [code]

definition logged_expire_head :: "server \<Rightarrow> u64 \<Rightarrow> HeapItem \<Rightarrow> (server \<times> log_line list) option" where
  "logged_expire_head sv now_ms item = do {
     (sv1, entry, node) \<leftarrow> expire_unlink sv item;
     (let log = (if node = Some entry then []
                 else if node = None then [Stale_entry (key_of sv entry)]
                 else [Node_mismatch (key_of sv entry) node entry]) in do {
        sv2 \<leftarrow> entry_del sv1 now_ms entry;
        Some (sv2, log)
      })
   }"

partial_function (option) logged_expire :: "server \<Rightarrow> u64 \<Rightarrow> nat \<Rightarrow> (server \<times> log_line list) option" where
  "logged_expire sv now_ms num_works =
     (case ttls sv of
        [] \<Rightarrow> Some (sv, [])
      | item # _ \<Rightarrow>
          if val item \<le> now_ms then do {
            (sv, log1) \<leftarrow> logged_expire_head sv now_ms item;
            if wrap64 (num_works + 1) \<ge> k_max_works then Some (sv, log1)
            else do {
              (sv, log2) \<leftarrow> logged_expire sv now_ms (wrap64 (num_works + 1));
              Some (sv, log1 @ log2)
            }
          }
          else Some (sv, []))"

declare logged_expire.simps [code]

definition logged_timers :: "world \<Rightarrow> u64 \<Rightarrow> (world \<times> log_line list) option" where
  "logged_timers w now_ms = do {
     (w, log1) \<leftarrow> logged_close_idle w now_ms;
     (sv, log2) \<leftarrow> logged_expire (srv w) now_ms 0;
     Some (w\<lparr>srv := sv\<rparr>, log1 @ log2)
   }"

definition logged_iteration ::
    "world \<Rightarrow> u64 \<Rightarrow> (accept_result \<times> sockaddr_in) option \<Rightarrow> (nat \<times> io) list \<Rightarrow> u64 \<Rightarrow> (world \<times> log_line list) option" where
  "logged_iteration w now acc evs timer_now = do {
     (w, log1) \<leftarrow> (case acc of
                     None \<Rightarrow> Some (w, [])
                   | Some (fd, peer_addr) \<Rightarrow> do { (w, _, log) \<leftarrow> logged_accept w now fd peer_addr; Some (w, log) });
     (w, log2) \<leftarrow> logged_events w evs;
     (w, log3) \<leftarrow> logged_timers w timer_now;
     Some (w, log1 @ log2 @ log3)
   }"

section \<open>The functions of the source\<close>

text \<open>A run with messages against the run without them: the same result, or both fail.\<close>

definition erases :: "('a \<Rightarrow> 'b) \<Rightarrow> 'a option \<Rightarrow> 'b option \<Rightarrow> bool" where
  "erases f x y \<longleftrightarrow> map_option f x = y"

lemma erases_bind:
  assumes "erases f x y" "\<And>a. x = Some a \<Longrightarrow> erases g (k a) (k' (f a))"
  shows "erases g (Option.bind x k) (Option.bind y k')"
  using assms by (cases x) (auto simp: erases_def)

lemma erases_same: "(\<And>a. erases g (k a) (k' a)) \<Longrightarrow> erases g (Option.bind x k) (Option.bind x k')"
  by (cases x) (auto simp: erases_def)

lemma erases_Some [simp]: "erases f (Some a) (Some b) \<longleftrightarrow> f a = b"
  by (simp add: erases_def)

lemma erases_iff: "erases f x y \<longleftrightarrow> (\<forall>a. x = Some a \<longrightarrow> y = Some (f a)) \<and> (\<forall>b. y = Some b \<longrightarrow> (\<exists>a. x = Some a \<and> f a = b))"
  by (cases x; cases y) (auto simp: erases_def)

lemma logged_one_request_eq:
  "logged_one_request sv now conn = do {
     (sv, c, go_on) \<leftarrow> handle_one_request sv now conn;
     Some (sv, c, go_on,
       if length (incoming conn) \<ge> 4 \<and> unat (u32_of_bytes (take 4 (incoming conn))) > k_max_msg then [Too_long] else [])
   }"
proof (cases "length (incoming conn) < 4 \<or> unat (u32_of_bytes (take 4 (incoming conn))) > k_max_msg")
  case True
  then show ?thesis by (auto simp: logged_one_request_def handle_one_request_def Let_def)
next
  case False
  then show ?thesis by (simp add: logged_one_request_def Let_def)
qed

lemma logged_one_request_erase:
  "erases (\<lambda>(sv, c, more, log). (sv, c, more)) (logged_one_request sv now c) (handle_one_request sv now c)"
  by (cases "handle_one_request sv now c") (auto simp: logged_one_request_eq erases_def)

lemma logged_requests_erase:
  "erases (\<lambda>(sv, c, log). (sv, c)) (logged_requests sv clock c) (handle_requests sv clock c)"
  unfolding erases_iff
proof (intro conjI allI impI)
  fix r assume r: "logged_requests sv clock c = Some r"
  show "handle_requests sv clock c = Some (case r of (sv, c, log) \<Rightarrow> (sv, c))"
  proof (rule logged_requests.raw_induct [OF _ r], goal_cases)
    case (1 f sv clock c r)
    then obtain sv1 c1 go where one: "handle_one_request sv (clock 0) c = Some (sv1, c1, go)"
      by (auto simp: logged_one_request_eq split: bind_splits)
    show ?case
    proof (cases go)
      case True
      with one 1(2) obtain sv2 c2 log2 log where rec: "f sv1 (\<lambda>i. clock (Suc i)) c1 = Some (sv2, c2, log2)" "r = (sv2, c2, log)"
        by (auto simp: logged_one_request_eq split: bind_splits)
      from 1(1) [OF rec(1)] one True rec(2) show ?thesis by (subst handle_requests.simps) simp
    qed (use one 1(2) in \<open>auto simp: handle_requests.simps logged_one_request_eq\<close>)
  qed
next
  fix r assume r: "handle_requests sv clock c = Some r"
  show "\<exists>a. logged_requests sv clock c = Some a \<and> (case a of (sv, c, log) \<Rightarrow> (sv, c)) = r"
  proof (rule handle_requests.raw_induct [OF _ r], goal_cases)
    case (1 f sv clock c r)
    then obtain sv1 c1 go where one: "handle_one_request sv (clock 0) c = Some (sv1, c1, go)"
      by (auto split: bind_splits)
    show ?case
    proof (cases go)
      case True
      with one 1(2) have "f sv1 (\<lambda>i. clock (Suc i)) c1 = Some r" by simp
      from 1(1) [OF this] obtain log where "logged_requests sv1 (\<lambda>i. clock (Suc i)) c1 = Some (fst r, snd r, log)" by auto
      with one True show ?thesis by (subst logged_requests.simps) (simp add: logged_one_request_eq)
    qed (use one 1(2) in \<open>subst logged_requests.simps, auto simp: logged_one_request_eq\<close>)
  qed
qed

lemma logged_write_erase: "erases fst (logged_write w c) (handle_write w c)"
  by (cases "handle_write w c") (auto simp: logged_write_def erases_def)

lemma erases_tail:
  "erases fst x y \<Longrightarrow> erases (\<lambda>(sv, c, log). (sv, c)) (do { (c, log2) \<leftarrow> x; Some (sv', c, log1 @ log2) }) (do { c \<leftarrow> y; Some (sv', c) })"
  by (cases x) (auto simp: erases_def)

lemma logged_read_erase:
  "erases (\<lambda>(sv, c, log). (sv, c)) (logged_read sv clock r w c) (handle_read sv clock r w c)"
proof (cases r)
  case (Read_data buf)
  show ?thesis
    unfolding logged_read_def handle_read_def Read_data read_result.case
  proof (rule erases_bind [OF logged_requests_erase], goal_cases)
    case (1 x)
    obtain sv' c' log where x: "x = (sv', c', log)" by (cases x)
    show ?case unfolding x prod.case
      by (cases "outgoing c' \<noteq> []") (simp_all add: erases_tail [OF logged_write_erase] erases_def [of _ "Some _"])
  qed
qed (simp_all add: logged_read_def handle_read_def erases_def)

lemma logged_event_erase: "erases fst (logged_event w fd ev) (handle_event w fd ev)"
proof -
  have rd: "erases (\<lambda>(sv, c, log). (sv, c))
      (if b then logged_read sv clock r w1 c else Some (sv, c, [])) (if b then handle_read sv clock r w1 c else Some (sv, c))"
    for b sv clock r w1 c by (simp add: logged_read_erase erases_def [of _ "Some _"])
  have wr: "erases fst (if b then logged_write w2 c else Some (c, [])) (if b then handle_write w2 c else Some c)"
    for b w2 c by (simp add: logged_write_erase erases_def [of _ "Some _"])
  show ?thesis
  proof (cases "pollin ev \<or> pollout ev \<or> pollerr ev \<or> pollother ev")
    case True
    have fin: "erases fst (do { w \<leftarrow> x; Some (w, log) }) x" for x :: "world option" and log :: "log_line list"
      by (cases x) (simp_all add: erases_def)
    have tail: "erases fst (do {
        (sv, c, log1) \<leftarrow> (if P c then logged_read sv clock r w1 c else Some (sv, c, []));
        (c, log2) \<leftarrow> (if Q c then logged_write w2 c else Some (c, []));
        (let w = W sv c in do { w \<leftarrow> (if R c then handle_destroy w a else Some w); Some (w, log1 @ log2) })
      }) (do {
        (sv, c) \<leftarrow> (if P c then handle_read sv clock r w1 c else Some (sv, c));
        c \<leftarrow> (if Q c then handle_write w2 c else Some c);
        (let w = W sv c in if R c then handle_destroy w a else Some w)
      })" for P Q R sv clock r w1 w2 c W a
    proof (rule erases_bind [OF rd], goal_cases)
      case (1 x)
      obtain sv1 c1 log1 where x: "x = (sv1, c1, log1)" by (cases x)
      show ?case unfolding x prod.case
      proof (rule erases_bind [OF wr], goal_cases)
        case (1 y)
        show ?case by (cases y) (simp add: Let_def fin)
      qed
    qed
    from True have "\<not> \<not> (pollin ev \<or> pollout ev \<or> pollerr ev \<or> pollother ev)" by simp
    then show ?thesis
      unfolding logged_event_def handle_event_def by (simp only: if_False) (intro erases_same tail)
  qed (simp add: logged_event_def handle_event_def erases_def)
qed

lemma logged_events_erase: "erases fst (logged_events w evs) (handle_events w evs)"
proof (induction w evs rule: handle_events.induct)
  case (2 w fd ev evs)
  show ?case
    unfolding logged_events.simps handle_events.simps
  proof (rule erases_bind [OF logged_event_erase], goal_cases)
    case (1 x)
    obtain w1 log where x: "x = (w1, log)" by (cases x)
    from 1 [unfolded x] logged_event_erase [of w fd ev] have "handle_event w fd ev = Some w1" by (simp add: erases_def)
    with "2.IH" have "erases fst (logged_events w1 evs) (handle_events w1 evs)" by blast
    then show ?case unfolding x by (cases "logged_events w1 evs") (auto simp: erases_def)
  qed
qed simp

lemma logged_accept_erase: "erases (\<lambda>(w, rv, log). (w, rv)) (logged_accept w now acc peer_addr) (handle_accept w now acc)"
  by (cases "handle_accept w now acc") (auto simp: logged_accept_def erases_def)

lemma logged_close_idle_erase: "erases fst (logged_close_idle w now) (close_idle w now)"
  unfolding erases_iff
proof (intro conjI allI impI)
  fix r assume r: "logged_close_idle w now = Some r"
  show "close_idle w now = Some (fst r)"
  proof (rule logged_close_idle.raw_induct [OF _ r], goal_cases)
    case (1 f w now r)
    then show ?case by (subst close_idle.simps) (fastforce split: bind_splits if_splits)
  qed
next
  fix r assume r: "close_idle w now = Some r"
  show "\<exists>a. logged_close_idle w now = Some a \<and> fst a = r"
  proof (rule close_idle.raw_induct [OF _ r], goal_cases)
    case (1 f w now r)
    then show ?case by (subst logged_close_idle.simps) (fastforce split: bind_splits if_splits)
  qed
qed

lemma erases_log: "erases fst (do { x \<leftarrow> y; Some (x, log) }) y"
  by (cases y) (simp_all add: erases_def)

lemma logged_expire_head_erase: "erases fst (logged_expire_head sv now x) (expire_head sv now x)"
  unfolding logged_expire_head_def expire_head_def
  by (rule erases_same) (simp add: Let_def erases_log split: prod.split)

lemma logged_expire_erase: "erases fst (logged_expire sv now n) (expire_loop sv now n)"
  unfolding erases_iff
proof (intro conjI allI impI)
  fix r assume r: "logged_expire sv now n = Some r"
  show "expire_loop sv now n = Some (fst r)"
  proof (rule logged_expire.raw_induct [OF _ r], goal_cases)
    case (1 f sv now n r)
    have h: "expire_head sv now x = Some (fst y)" if "logged_expire_head sv now x = Some y" for x y
      using logged_expire_head_erase [of sv now x] that by (simp add: erases_def)
    show ?case
    proof (cases "ttls sv")
      case (Cons x xs)
      with 1 h show ?thesis by (subst expire_loop.simps) (fastforce split: bind_splits if_splits)
    qed (use 1(2) in \<open>auto simp: expire_loop.simps\<close>)
  qed
next
  fix r assume r: "expire_loop sv now n = Some r"
  show "\<exists>a. logged_expire sv now n = Some a \<and> fst a = r"
  proof (rule expire_loop.raw_induct [OF _ r], goal_cases)
    case (1 f sv now n r)
    have h: "\<exists>log. logged_expire_head sv now x = Some (y, log)" if "expire_head sv now x = Some y" for x y
      using logged_expire_head_erase [of sv now x] that by (auto simp: erases_def)
    show ?case
    proof (cases "ttls sv")
      case (Cons x xs)
      show ?thesis
      proof (cases "val x \<le> now")
        case True
        with 1(2) Cons obtain sv1 where s: "expire_head sv now x = Some sv1" by (auto split: bind_splits)
        from h [OF this] obtain log where l: "logged_expire_head sv now x = Some (sv1, log)" by blast
        with 1 s Cons True show ?thesis by (subst logged_expire.simps) (fastforce split: if_splits)
      qed (use 1(2) Cons in \<open>auto simp: logged_expire.simps\<close>)
    qed (use 1(2) in \<open>auto simp: logged_expire.simps\<close>)
  qed
qed

lemma logged_timers_erase: "erases fst (logged_timers w now) (process_timers w now)"
  unfolding logged_timers_def process_timers_def
proof (rule erases_bind [OF logged_close_idle_erase], goal_cases)
  case (1 x)
  obtain w1 log1 where x: "x = (w1, log1)" by (cases x)
  show ?case unfolding x prod.case fst_conv
    by (rule erases_bind [OF logged_expire_erase]) (auto simp: erases_def split: prod.split)
qed

text \<open>One pass after \<open>poll\<close>, with the addresses that \<open>accept\<close> reports.\<close>

lemma logged_iteration_erase:
  "erases fst (logged_iteration w now acc evs timer_now) (loop_iteration w now (map_option fst acc) evs timer_now)"
proof -
  have acc: "erases fst (case acc of None \<Rightarrow> Some (w, [])
        | Some (fd, peer_addr) \<Rightarrow> do { (w, _, log) \<leftarrow> logged_accept w now fd peer_addr; Some (w, log) })
      (case map_option fst acc of None \<Rightarrow> Some w | Some fd \<Rightarrow> do { (w, _) \<leftarrow> handle_accept w now fd; Some w })"
  proof (cases acc)
    case (Some a)
    obtain fd peer_addr where "a = (fd, peer_addr)" by (cases a)
    with Some logged_accept_erase [of w now fd peer_addr, unfolded erases_def, symmetric] show ?thesis
      by (cases "logged_accept w now fd peer_addr") (auto simp: erases_def)
  qed simp
  show ?thesis
    unfolding logged_iteration_def loop_iteration_def
  proof (rule erases_bind [OF acc], goal_cases)
    case (1 x)
    obtain w1 log1 where x: "x = (w1, log1)" by (cases x)
    show ?case unfolding x prod.case fst_conv
    proof (rule erases_bind [OF logged_events_erase], goal_cases)
      case (1 y)
      obtain w2 log2 where y: "y = (w2, log2)" by (cases y)
      show ?case unfolding y prod.case fst_conv
        using logged_timers_erase [of w2 timer_now] by (cases "logged_timers w2 timer_now") (auto simp: erases_def)
    qed
  qed
qed

section \<open>The messages are true\<close>

text \<open>A request makes the server give up the connection exactly when it prints that the frame is too long.\<close>

lemma one_request_close:
  assumes "logged_one_request sv now c = Some (sv', c', go_on, log)" "\<not> want_close c"
  shows "(want_close c' \<longleftrightarrow> log \<noteq> []) \<and> (go_on \<longrightarrow> \<not> want_close c')"
  using assms
  by (auto simp: logged_one_request_eq handle_one_request_def Let_def split: bind_splits if_splits prod.splits)

lemma requests_close:
  assumes r: "logged_requests sv clock c = Some (sv', c', log)" and c: "\<not> want_close c"
  shows "want_close c' \<longleftrightarrow> log \<noteq> []"
proof -
  have "\<not> want_close c \<longrightarrow> (want_close (fst (snd y)) \<longleftrightarrow> snd (snd y) \<noteq> [])" if "logged_requests sv clock c = Some y" for y
  proof (rule logged_requests.raw_induct [OF _ that], goal_cases)
    case (1 f sv clock c y)
    show ?case
    proof
      assume c: "\<not> want_close c"
      from 1(2) obtain sv1 c1 go log1 where one: "logged_one_request sv (clock 0) c = Some (sv1, c1, go, log1)"
        by (auto split: bind_splits)
      note cl = one_request_close [OF one c]
      show "want_close (fst (snd y)) \<longleftrightarrow> snd (snd y) \<noteq> []"
      proof (cases go)
        case True
        with one 1(2) obtain z where z: "f sv1 (\<lambda>i. clock (Suc i)) c1 = Some z" "y = (fst z, fst (snd z), log1 @ snd (snd z))"
          by (auto split: bind_splits)
        from 1(1) [OF z(1)] z(2) cl True show ?thesis by auto
      qed (use one 1(2) cl in auto)
    qed
  qed
  from this [OF r] c show ?thesis by simp
qed

lemma write_close:
  assumes "logged_write w c = Some (c', log)"
  shows "want_close c' \<longleftrightarrow> want_close c \<or> log \<noteq> []"
  using assms by (auto simp: logged_write_def handle_write_def Let_def split: bind_splits write_result.splits if_splits)

lemma read_close:
  assumes "logged_read sv clock r w c = Some (sv', c', log)" "\<not> want_close c"
  shows "want_close c' \<longleftrightarrow> log \<noteq> []"
proof (cases r)
  case (Read_data buf)
  from assms(1) [unfolded logged_read_def Read_data, simplified] obtain sv1 c1 log1 where
    one: "logged_requests sv clock (c\<lparr>incoming := append_buffer (incoming c) buf\<rparr>) = Some (sv1, c1, log1)"
    by (auto split: bind_splits)
  have cl: "want_close c1 \<longleftrightarrow> log1 \<noteq> []" using requests_close [OF one] assms(2) by simp
  show ?thesis
  proof (cases "outgoing c1 = []")
    case False
    with one assms(1) Read_data obtain log2 where
      "logged_write w (c1\<lparr>want_read := False, want_write := True\<rparr>) = Some (c', log2)" "log = log1 @ log2"
      by (auto simp: logged_read_def split: bind_splits)
    with write_close [OF this(1)] cl show ?thesis by auto
  qed (use one cl assms(1) Read_data in \<open>auto simp: logged_read_def\<close>)
qed (use assms in \<open>auto simp: logged_read_def\<close>)

text \<open>
  An event on a connection closes it exactly when a message has been printed about it or \<open>POLLERR\<close> was
  reported: no connection is given up in silence, and no message is about a connection that stays.
\<close>

lemma event_close:
  assumes inv: "net_inv w xs" and fd: "fd < length (fd2conn w)" "fd2conn w ! fd = Some a"
    and ev: "logged_event w fd ev = Some (w', log)"
  shows "conns w' a = None \<longleftrightarrow> pollerr ev \<or> log \<noteq> []"
proof -
  from inv fd obtain c where c: "conns w a = Some c" "\<not> want_close c"
    using net_linksD(6) [of w xs fd a] net_linksD(2) [of w xs] by (fastforce simp: net_inv_def conns_ok_def)
  show ?thesis
  proof (cases "pollin ev \<or> pollout ev \<or> pollerr ev \<or> pollother ev")
    case True
    let ?c = "c\<lparr>last_activity_ms := io_now ev\<rparr>"
    from ev True fd c obtain h sv1 c1 log1 c2 log2 where
      r: "(if pollin ev \<and> want_read ?c then logged_read (srv w) (io_clock ev) (io_read ev) (io_write1 ev) ?c else Some (srv w, ?c, [])) = Some (sv1, c1, log1)"
      and wr: "(if pollout ev \<and> want_write c1 then logged_write (io_write2 ev) c1 else Some (c1, [])) = Some (c2, log2)"
      and f: "(if pollerr ev \<or> want_close c2 then handle_destroy (w\<lparr>srv := sv1, conns := (conns w)(a \<mapsto> ?c, a \<mapsto> c2), dls := h\<rparr>) a
         else Some (w\<lparr>srv := sv1, conns := (conns w)(a \<mapsto> ?c, a \<mapsto> c2), dls := h\<rparr>)) = Some w'" and l: "log = log1 @ log2"
      by (auto simp: logged_event_def Let_def split: bind_splits)
    have "want_close c1 \<longleftrightarrow> log1 \<noteq> []" using read_close [of "srv w" "io_clock ev"] r c(2) by (fastforce split: if_splits)
    moreover have "want_close c2 \<longleftrightarrow> want_close c1 \<or> log2 \<noteq> []" using write_close wr by (fastforce split: if_splits)
    ultimately have "want_close c2 \<longleftrightarrow> log \<noteq> []" using l by auto
    moreover have "conns w' a = None \<longleftrightarrow> pollerr ev \<or> want_close c2"
      using f by (auto simp: handle_destroy_def split: if_splits bind_splits)
    ultimately show ?thesis by simp
  qed (use ev c in \<open>auto simp: logged_event_def\<close>)
qed

text \<open>The timers print the descriptor of each connection they close, in the order of the idle list.\<close>

definition fd_of :: "world \<Rightarrow> addr \<Rightarrow> nat" where
  "fd_of w a = socket_fd (the (conns w a))"

lemma close_idle_log:
  assumes "net_links w xs"
  shows "\<exists>w'. logged_close_idle w now =
    Some (w', map (\<lambda>a. Idle_closed (fd_of w a)) (takeWhile (\<lambda>a. stamp w a + k_idle_timeout_ms < now) xs))"
  using assms
proof (induction xs arbitrary: w)
  case Nil
  then have "dlist_empty (dls w) idle_conn_list = Some True"
    using ring_empty [OF net_linksD(1) [OF Nil]] by simp
  with Nil show ?case by (subst logged_close_idle.simps) simp
next
  case (Cons a xs)
  have ne: "dlist_empty (dls w) idle_conn_list = Some False"
    using ring_empty [OF net_linksD(1) [OF Cons.prems]] by simp
  from idle_head_ok [OF Cons.prems] obtain c where c: "conns w a = Some c" "idle_head w = Some (a, c)" by blast
  have st: "stamp w a = last_activity_ms c" "fd_of w a = socket_fd c" using c(1) by (simp_all add: stamp_def fd_of_def)
  show ?case
  proof (cases "stamp w a + k_idle_timeout_ms < now")
    case False
    with ne c(2) st show ?thesis by (subst logged_close_idle.simps) (auto simp: not_less dest: leD)
  next
    case True
    from handle_destroy_ok [OF Cons.prems, of a] obtain w1 where
      w1: "handle_destroy w a = Some w1" "net_links w1 xs" "conns w1 = (conns w)(a := None)" by auto
    have "a \<notin> set xs" using net_linksD(8) [OF Cons.prems] by simp
    then have same: "fd_of w1 b = fd_of w b" "stamp w1 b = stamp w b" if "b \<in> set xs" for b
      using w1(3) that by (auto simp: stamp_def fd_of_def)
    have "takeWhile (\<lambda>a. stamp w1 a + k_idle_timeout_ms < now) xs = takeWhile (\<lambda>a. stamp w a + k_idle_timeout_ms < now) xs"
      using same(2) by (intro takeWhile_cong) auto
    moreover have "map (\<lambda>a. Idle_closed (fd_of w1 a)) (takeWhile P xs) = map (\<lambda>a. Idle_closed (fd_of w a)) (takeWhile P xs)" for P
      using same(1) by (auto dest: set_takeWhileD)
    ultimately obtain w' where "logged_close_idle w1 now =
        Some (w', map (\<lambda>a. Idle_closed (fd_of w a)) (takeWhile (\<lambda>a. stamp w a + k_idle_timeout_ms < now) xs))"
      using Cons.IH [OF w1(2)] by auto
    with True ne c(2) st w1(1) show ?thesis by (subst logged_close_idle.simps) (auto dest: leD)
  qed
qed

text \<open>Expiry prints nothing: the heap and the map always agree.\<close>

lemma expire_quiet:
  assumes "server_ok sv A" "finite (dom A)" "n + card (dom A) \<le> full"
  shows "\<exists>sv'. logged_expire sv now n = Some (sv', [])"
  using assms
proof (induction "card (dom A)" arbitrary: sv A n rule: less_induct)
  case less
  from less.prems(1) obtain N T where inv: "sv_inv sv N T" "abs_ok sv N T A" and pl: "pool sv = []"
    by (rule server_okE)
  show ?case
  proof (cases "case ttls sv of [] \<Rightarrow> True | x # _ \<Rightarrow> now < val x")
    case True
    then show ?thesis by (subst logged_expire.simps) (auto split: list.splits)
  next
    case False
    then obtain x h where x: "ttls sv = x # h" "val x \<le> now" by (auto split: list.splits)
    from expire_head_ok [OF inv pl x] obtain sv1 k e sv0 a where
      s: "expire_head sv now x = Some sv1" "server_ok sv1 (A(k := None))" "A k = Some e" "expire_unlink sv x = Some (sv0, a, Some a)"
      by blast
    then have l: "logged_expire_head sv now x = Some (sv1, [])" by (simp add: expire_head_def logged_expire_head_def)
    have c: "card (dom (A(k := None))) < card (dom A)" by (rule card_del_less [OF less.prems(2) s(3)])
    then have n: "n + 1 + card (dom (A(k := None))) \<le> full" using less.prems(3) by simp
    then have w: "wrap64 (n + 1) = n + 1" by (simp add: full_def)
    from less.hyps [OF c s(2) _ n] less.prems(2) obtain sv' where "logged_expire sv1 now (n + 1) = Some (sv', [])" by auto
    with l x w show ?thesis by (subst logged_expire.simps) simp
  qed
qed

lemma takeWhile_filter:
  assumes "dropWhile P xs = filter (\<lambda>x. \<not> P x) xs"
  shows "takeWhile P xs = filter P xs"
proof -
  have "filter P xs = filter P (takeWhile P xs) @ filter P (dropWhile P xs)"
    by (simp only: takeWhile_dropWhile_id flip: filter_append)
  also have "filter P (takeWhile P xs) = takeWhile P xs" by (auto simp: filter_id_conv dest: set_takeWhileD)
  finally show ?thesis unfolding assms by simp
qed

lemma timers_log:
  assumes ok: "db_ok (srv w) A" and inv: "net_inv w xs" and t: "seen w xs now" and o: "no_overflow now"
  shows "\<exists>w'. logged_timers w now = Some (w', map (\<lambda>a. Idle_closed (fd_of w a)) (filter (\<lambda>a. stamp w a + k_idle_timeout_ms < now) xs))"
proof -
  note links = inv [unfolded net_inv_def, THEN conjunct1]
  from close_idle_log [OF links, of now] obtain w1 where
    w1: "logged_close_idle w now = Some (w1, map (\<lambda>a. Idle_closed (fd_of w a)) (takeWhile (\<lambda>a. stamp w a + k_idle_timeout_ms < now) xs))"
    by blast
  from close_idle_ok [OF links, of now] logged_close_idle_erase [of w now] w1 have "srv w1 = srv w" by (auto simp: erases_def)
  with expire_quiet [of "srv w1" A 0 now] ok obtain sv where "logged_expire (srv w1) now 0 = Some (sv, [])"
    by (auto simp: db_ok_def adb_ok_def)
  moreover have "takeWhile (\<lambda>a. stamp w a + k_idle_timeout_ms < now) xs = filter (\<lambda>a. stamp w a + k_idle_timeout_ms < now) xs"
    using idle_mono t o net_linksD(3) [OF links] unfolding seen_def no_overflow_def
    by (intro takeWhile_filter dropWhile_sorted [where f = "stamp w"]) blast+
  ultimately show ?thesis using w1 by (simp add: logged_timers_def)
qed

end
