(* ===== verification/Test_Heap.thy ===== *)
theory Test_Heap
  imports Min_Heap
begin

text \<open>
  The unit test of the heap, \<open>tests/test_heap.cpp\<close>. The test keeps the items of a heap also in a
  multimap from their values to the objects with the back references, inserts and removes items with
  its own code around \<open>heap_update\<close>, and checks the heap after each step. A \<open>size_t\<close> with the index of
  an item is a cell of the store \<open>c_data\<close>; \<open>new\<close> takes the next address, \<open>delete\<close> of an object that is
  not allocated fails. Each round of the test returns the memory that its container has left behind.

  The checks of the test are exactly the invariant of the heap; the operations of the test keep it,
  and the whole program runs to its end without a failed assertion and without a leak.
\<close>

section \<open>Model\<close>

text \<open>
  \<open>std::multimap\<close>: sorted by the key; a new pair goes behind the pairs of the same key, and \<open>find\<close>
  returns the first of them.
\<close>

type_synonym 'v mmap = "(u64 \<times> 'v) list"

definition mm_insert :: "'v mmap \<Rightarrow> u64 \<Rightarrow> 'v \<Rightarrow> 'v mmap" where
  "mm_insert m k v = takeWhile (\<lambda>p. fst p \<le> k) m @ (k, v) # dropWhile (\<lambda>p. fst p \<le> k) m"

definition mm_find :: "'v mmap \<Rightarrow> u64 \<Rightarrow> 'v option" where
  "mm_find m k = map_of m k"

record heap_container =
  c_heap :: "HeapItem list"
  c_map :: "addr mmap"
  c_data :: refs
  c_brk :: nat

text \<open>The memory, with the next address, and the declaration of an empty container in it.\<close>

type_synonym cells_mem = "refs \<times> nat"

definition container0 :: "cells_mem \<Rightarrow> heap_container" where
  "container0 m = \<lparr>c_heap = [], c_map = [], c_data = fst m, c_brk = snd m\<rparr>"

definition delete_cell :: "refs \<Rightarrow> addr \<Rightarrow> refs option" where
  "delete_cell data d = do { _ \<leftarrow> data d; Some (data(d := None)) }"

definition dispose_heap :: "heap_container \<Rightarrow> refs option" where
  "dispose_heap c = for_each (\<lambda>p data. delete_cell data (snd p)) (c_map c) (c_data c)"

definition add_item :: "u64 \<Rightarrow> heap_container \<Rightarrow> heap_container option" where
  "add_item v c =
     (let d = c_brk c;
          data = (c_data c)(d \<mapsto> npos);
          heap = c_heap c @ [\<lparr>val = v, ref = Some d\<rparr>]
      in do {
        (heap, data) \<leftarrow> heap_update heap data (length heap - 1) (length heap);
        Some \<lparr>c_heap = heap, c_map = mm_insert (c_map c) v d, c_data = data, c_brk = d + 1\<rparr>
      })"

definition del_item :: "u64 \<Rightarrow> heap_container \<Rightarrow> heap_container option" where
  "del_item v c = do {
     d \<leftarrow> mm_find (c_map c) v;
     i \<leftarrow> c_data c d;
     item \<leftarrow> vec_get (c_heap c) i;
     assertion (val item = v);
     assertion (ref item = Some d);
     heap \<leftarrow> vec_set (c_heap c) i (last (c_heap c));
     (let heap = butlast heap in do {
       (heap, data) \<leftarrow>
         (if i < length heap then heap_update heap (c_data c) i (length heap) else Some (heap, c_data c));
       data \<leftarrow> delete_cell data d;
       Some (c\<lparr>c_heap := heap, c_map := remove1 (v, d) (c_map c), c_data := data\<rparr>)
     })
   }"

definition verify_child :: "HeapItem list \<Rightarrow> nat \<Rightarrow> nat \<Rightarrow> unit option" where
  "verify_child heap i j =
     (if j \<ge> length heap then Some ()
      else do { x \<leftarrow> vec_get heap i; y \<leftarrow> vec_get heap j; assertion (val y \<ge> val x) })"

definition verify_heap :: "heap_container \<Rightarrow> unit option" where
  "verify_heap c = do {
     assertion (length (c_heap c) = length (c_map c));
     for_each (\<lambda>i _. do {
         _ \<leftarrow> verify_child (c_heap c) i (left_child i);
         _ \<leftarrow> verify_child (c_heap c) i (right_child i);
         x \<leftarrow> vec_get (c_heap c) i;
         d \<leftarrow> ref x;
         j \<leftarrow> c_data c d;
         assertion (j = i)
       }) [0..<length (c_heap c)] ()
   }"

text \<open>The bodies of the two loops of \<open>test_case\<close>.\<close>

definition insert_round :: "nat \<Rightarrow> nat \<Rightarrow> cells_mem \<Rightarrow> cells_mem option" where
  "insert_round sz j m = do {
     c \<leftarrow> for_each (\<lambda>i. add_item (ucast (1 + of_nat i * 2 :: u32))) [0..<sz] (container0 m);
     _ \<leftarrow> verify_heap c;
     c \<leftarrow> add_item (ucast (of_nat j :: u32)) c;
     _ \<leftarrow> verify_heap c;
     data \<leftarrow> dispose_heap c;
     Some (data, c_brk c)
   }"

definition delete_round :: "nat \<Rightarrow> nat \<Rightarrow> cells_mem \<Rightarrow> cells_mem option" where
  "delete_round sz j m = do {
     c \<leftarrow> for_each (\<lambda>i. add_item (ucast (of_nat i :: u32))) [0..<sz] (container0 m);
     _ \<leftarrow> verify_heap c;
     c \<leftarrow> del_item (ucast (of_nat j :: u32)) c;
     _ \<leftarrow> verify_heap c;
     data \<leftarrow> dispose_heap c;
     Some (data, c_brk c)
   }"

definition test_case_heap :: "nat \<Rightarrow> cells_mem \<Rightarrow> cells_mem option" where
  "test_case_heap sz m = do {
     m \<leftarrow> for_each (insert_round sz) [0..<2 + sz * 2] m;
     for_each (delete_round sz) [0..<sz] m
   }"

definition main_test_heap :: "cells_mem option" where
  "main_test_heap = for_each test_case_heap [0..<200] (Map.empty, 0)"

section \<open>What the checks say\<close>

lemma heap_ok_children:
  "heap_ok h \<longleftrightarrow> (\<forall>i < length h. (2 * i + 1 < length h \<longrightarrow> val (h ! i) \<le> val (h ! (2 * i + 1)))
     \<and> (2 * i + 2 < length h \<longrightarrow> val (h ! i) \<le> val (h ! (2 * i + 2))))" (is "_ = ?R")
proof
  assume ok: "heap_ok h"
  have "par (2 * i + 1) = i" "par (2 * i + 2) = i" for i by (simp_all add: par_def)
  with heap_okD [OF ok, of "2 * i + 1" for i] heap_okD [OF ok, of "2 * i + 2" for i] show ?R by auto
next
  assume r: ?R
  show "heap_ok h"
    unfolding heap_ok_def
  proof (intro allI impI)
    fix i assume i: "i < length h" "0 < i"
    with par_children [of i "par i"] have "i = 2 * par i + 1 \<or> i = 2 * par i + 2" by simp
    moreover have "par i < length h" using par_less [OF i(2)] i(1) by simp
    ultimately show "val (h ! par i) \<le> val (h ! i)" using r i(1) by metis
  qed
qed

lemma verify_child_iff:
  assumes "i < length h"
  shows "verify_child h i j = Some () \<longleftrightarrow> (j < length h \<longrightarrow> val (h ! i) \<le> val (h ! j))"
  using assms by (simp add: verify_child_def assertion_def)

lemma verify_heap_iff:
  assumes "small_heap (c_heap c)"
  shows "verify_heap c = Some () \<longleftrightarrow>
    length (c_heap c) = length (c_map c) \<and> heap_ok (c_heap c) \<and> refs_ok (c_heap c) (c_data c)"
proof -
  let ?h = "c_heap c"
  have one: "(do {
         _ \<leftarrow> verify_child ?h i (left_child i);
         _ \<leftarrow> verify_child ?h i (right_child i);
         x \<leftarrow> vec_get ?h i;
         d \<leftarrow> ref x;
         j \<leftarrow> c_data c d;
         assertion (j = i)
       }) = Some () \<longleftrightarrow> ((2 * i + 1 < length ?h \<longrightarrow> val (?h ! i) \<le> val (?h ! (2 * i + 1)))
         \<and> (2 * i + 2 < length ?h \<longrightarrow> val (?h ! i) \<le> val (?h ! (2 * i + 2))))
         \<and> (\<exists>a. ref (?h ! i) = Some a \<and> c_data c a = Some i)" if i: "i < length ?h" for i
  proof -
    have "i < 2 ^ 62" using i assms by (simp add: small_heap_def)
    then have lr: "left_child i = 2 * i + 1" "right_child i = 2 * i + 2" by (simp_all add: left_child_eq right_child_eq)
    show ?thesis
      using verify_child_iff [OF i, of "2 * i + 1"] verify_child_iff [OF i, of "2 * i + 2"] i
      by (auto simp: lr assertion_def bind_eq_Some_conv)
  qed
  have "verify_heap c = Some () \<longleftrightarrow> length ?h = length (c_map c) \<and> (\<forall>i \<in> set [0..<length ?h]. (do {
         _ \<leftarrow> verify_child ?h i (left_child i);
         _ \<leftarrow> verify_child ?h i (right_child i);
         x \<leftarrow> vec_get ?h i;
         d \<leftarrow> ref x;
         j \<leftarrow> c_data c d;
         assertion (j = i)
       }) = Some ())"
    unfolding verify_heap_def by (subst for_each_unit [symmetric]) (auto simp: assertion_def)
  also have "\<dots> \<longleftrightarrow> length ?h = length (c_map c) \<and> heap_ok ?h \<and> refs_ok ?h (c_data c)"
    unfolding heap_ok_children refs_ok_def using one by auto
  finally show ?thesis .
qed

section \<open>The operations of the test\<close>

definition item_key :: "HeapItem \<Rightarrow> u64 \<times> ptr" where
  "item_key x = (val x, ref x)"

definition container_ok :: "heap_container \<Rightarrow> bool" where
  "container_ok c \<longleftrightarrow> heap_ok (c_heap c) \<and> refs_ok (c_heap c) (c_data c) \<and> distinct (map snd (c_map c))
     \<and> image_mset item_key (mset (c_heap c)) = image_mset (apsnd Some) (mset (c_map c))
     \<and> dom (c_data c) = snd ` set (c_map c) \<and> (\<forall>d \<in> dom (c_data c). d < c_brk c)"

abbreviation vals :: "heap_container \<Rightarrow> u64 multiset" where
  "vals c \<equiv> image_mset fst (mset (c_map c))"

lemma container_ok_length: "container_ok c \<Longrightarrow> length (c_heap c) = length (c_map c)"
  unfolding container_ok_def by (metis size_image_mset size_mset)

lemma verify_container: "container_ok c \<Longrightarrow> small_heap (c_heap c) \<Longrightarrow> verify_heap c = Some ()"
  by (simp add: verify_heap_iff container_ok_length) (simp add: container_ok_def)

lemma container0_ok: "container_ok (container0 (Map.empty, b))" "vals (container0 m) = {#}"
  by (simp_all add: container_ok_def container0_def heap_ok_def refs_ok_def)

lemma mset_mm_insert: "mset (mm_insert m k v) = add_mset (k, v) (mset m)"
  unfolding mm_insert_def by (metis mset.simps(2) mset_append takeWhile_dropWhile_id union_mset_add_mset_right)

lemma cells_keys:
  assumes "image_mset item_key (mset h) = image_mset (apsnd Some) (mset m)"
  shows "cells h = snd ` set m"
proof -
  have "set_mset (image_mset item_key (mset h)) = set_mset (image_mset (apsnd Some) (mset m))" using assms by simp
  then have "item_key ` set h = apsnd Some ` set m" by simp
  then have "snd ` item_key ` set h = snd ` apsnd Some ` set m" by simp
  then have "ref ` set h = Some ` snd ` set m" by (simp add: item_key_def image_image)
  moreover have "a \<in> cells h \<longleftrightarrow> Some a \<in> ref ` set h" for a by (force simp: cells_def)
  ultimately have "a \<in> cells h \<longleftrightarrow> a \<in> snd ` set m" for a by (simp add: inj_image_mem_iff)
  then show ?thesis by blast
qed

lemma cells_container: "container_ok c \<Longrightarrow> cells (c_heap c) = snd ` set (c_map c)"
  by (rule cells_keys) (simp add: container_ok_def)

lemma cells_dom: "refs_ok h refs \<Longrightarrow> cells h \<subseteq> dom refs"
  unfolding refs_ok_def cells_def by (fastforce simp: in_set_conv_nth)

lemma hole_refs_push:
  assumes "refs_ok h refs" "a \<notin> cells h" "ref x = Some a"
  shows "hole_refs (h @ [x]) (refs(a \<mapsto> j)) (length h)"
proof -
  have "\<exists>b. ref (h ! i) = Some b \<and> refs b = Some i \<and> b \<noteq> a" if "i < length h" for i
    using refs_okD [OF assms(1) that] in_cells [OF that] assms(2) by blast
  then show ?thesis using assms(3) by (fastforce simp: hole_refs_def nth_append less_Suc_eq)
qed

lemma add_item_ok:
  assumes ok: "container_ok c" and small: "length (c_heap c) < 2 ^ 61"
  shows "\<exists>c'. add_item v c = Some c' \<and> container_ok c' \<and> vals c' = add_mset v (vals c)"
proof -
  let ?d = "c_brk c" let ?x = "\<lparr>val = v, ref = Some ?d\<rparr>" let ?h = "c_heap c @ [?x]" and ?r = "(c_data c)(?d \<mapsto> npos)"
  have new: "?d \<notin> dom (c_data c)" using ok unfolding container_ok_def by blast
  then have nc: "?d \<notin> cells (c_heap c)" using ok cells_container [OF ok] by (simp add: container_ok_def)
  have "repaired ?h ?r (heap_update ?h ?r (length (c_heap c)) (length ?h))"
    using ok nc small by (intro heap_update_correct changed_at_append hole_refs_push) (auto simp: container_ok_def small_heap_def)
  then obtain h r where hr: "heap_update ?h ?r (length ?h - 1) (length ?h) = Some (h, r)" "heap_ok h" "refs_ok h r"
      "mset h = mset ?h" "\<forall>a. a \<notin> cells ?h \<longrightarrow> r a = ?r a"
    unfolding repaired_def by auto
  have c: "cells ?h = insert ?d (snd ` set (c_map c))" using cells_container [OF ok] by (auto simp: cells_def)
  have "a \<in> dom r" if "a \<in> cells ?h" for a
    using that cells_mset [OF hr(4)] cells_dom [OF hr(3)] by blast
  moreover have "a \<notin> dom r" if "a \<notin> cells ?h" for a
    using that hr(5) ok c by (auto simp: container_ok_def domIff)
  ultimately have dom: "dom r = insert ?d (snd ` set (c_map c))" using c by blast
  let ?c = "\<lparr>c_heap = h, c_map = mm_insert (c_map c) v ?d, c_data = r, c_brk = ?d + 1\<rparr>"
  have ms: "mset (mm_insert (c_map c) v ?d) = add_mset (v, ?d) (mset (c_map c))" by (rule mset_mm_insert)
  then have st: "set (mm_insert (c_map c) v ?d) = insert (v, ?d) (set (c_map c))"
    by (metis set_mset_mset set_mset_add_mset_insert)
  have "distinct (map snd (mm_insert (c_map c) v ?d)) \<longleftrightarrow> distinct (map snd ((v, ?d) # c_map c))"
    using ms by (intro mset_eq_imp_distinct_iff) simp
  then have "container_ok ?c"
    using ok hr(2-4) dom new ms st by (auto simp: container_ok_def item_key_def less_Suc_eq)
  moreover have "vals ?c = add_mset v (vals c)" using ms by simp
  moreover have "add_item v c = Some ?c" using hr(1) by (simp add: add_item_def Let_def)
  ultimately show ?thesis by blast
qed

lemma found_item:
  assumes ok: "container_ok c" and v: "v \<in># vals c"
  shows "\<exists>d i. mm_find (c_map c) v = Some d \<and> (v, d) \<in> set (c_map c) \<and> c_data c d = Some i \<and> i < length (c_heap c)
    \<and> val (c_heap c ! i) = v \<and> ref (c_heap c ! i) = Some d"
proof -
  from v obtain d where d: "mm_find (c_map c) v = Some d" "(v, d) \<in> set (c_map c)"
    unfolding mm_find_def by (metis (no_types, lifting) image_iff in_image_mset map_of_SomeD map_of_eq_None_iff not_None_eq
        set_mset_mset)
  then have "(v, Some d) \<in># image_mset (apsnd Some) (mset (c_map c))" by force
  then have "(v, Some d) \<in># image_mset item_key (mset (c_heap c))" using ok by (simp add: container_ok_def)
  then obtain x where "x \<in> set (c_heap c)" "val x = v" "ref x = Some d" by (auto simp: item_key_def)
  then obtain i where i: "i < length (c_heap c)" "val (c_heap c ! i) = v" "ref (c_heap c ! i) = Some d"
    by (auto simp: in_set_conv_nth)
  moreover have "c_data c d = Some i" using ok i by (auto simp: container_ok_def intro: refs_ok_at)
  ultimately show ?thesis using d by blast
qed

lemma hole_refs_moved:
  assumes r: "refs_ok h refs" and i: "i < length h - 1"
  shows "hole_refs (butlast (h[i := last h])) refs i"
proof -
  let ?h = "butlast (h[i := last h])" and ?n = "length h - 1"
  have ne: "h \<noteq> []" using i by auto
  have nth: "?h ! k = (if k = i then h ! ?n else h ! k)" if "k < ?n" for k
    using that ne by (simp add: nth_butlast nth_list_update last_conv_nth)
  obtain b where b: "ref (h ! ?n) = Some b" "refs b = Some ?n" using refs_okD [OF r, of ?n] ne by auto
  have "\<exists>a. ref (?h ! k) = Some a \<and> refs a = Some k \<and> ref (?h ! i) \<noteq> Some a" if "k < ?n" "k \<noteq> i" for k
  proof -
    from that(1) have "k < length h" by simp
    from refs_okD [OF r this] obtain a where "ref (h ! k) = Some a" "refs a = Some k" by blast
    with that nth [OF that(1)] nth [OF i] b show ?thesis by auto
  qed
  then show ?thesis using nth [OF i] b by (simp add: hole_refs_def)
qed

lemma del_item_ok:
  assumes ok: "container_ok c" and v: "v \<in># vals c" and small: "small_heap (c_heap c)"
  shows "\<exists>c'. del_item v c = Some c' \<and> container_ok c' \<and> vals c = add_mset v (vals c')"
proof -
  from found_item [OF ok v] obtain d i where f: "mm_find (c_map c) v = Some d" "(v, d) \<in> set (c_map c)" "c_data c d = Some i"
    "i < length (c_heap c)" "val (c_heap c ! i) = v" "ref (c_heap c ! i) = Some d" by blast
  let ?h = "butlast ((c_heap c)[i := last (c_heap c)])"
  note inv = ok [unfolded container_ok_def]
  have ms: "mset (c_heap c) = add_mset (c_heap c ! i) (mset ?h)" using mset_delete_last [OF f(4)] by simp
  have "repaired ?h (c_data c)
      (if i < length ?h then heap_update ?h (c_data c) i (length ?h) else Some (?h, c_data c))"
  proof (cases "i < length ?h")
    case True
    then have "repaired ?h (c_data c) (heap_update ?h (c_data c) i (length ?h))"
      using inv f(4) small
      by (intro heap_update_correct changed_at_butlast changed_at_update hole_refs_moved) (auto simp: small_heap_def)
    with True show ?thesis by simp
  next
    case False
    with f(4) have "i = length (c_heap c) - 1" "c_heap c \<noteq> []" by auto
    then have "?h = butlast (c_heap c)" by (simp add: last_conv_nth)
    moreover have "heap_ok (butlast (c_heap c))" "refs_ok (butlast (c_heap c)) (c_data c)"
      using inv by (simp_all add: heap_ok_butlast refs_ok_butlast)
    ultimately show ?thesis using False by (simp add: repaired_def)
  qed
  then obtain h r where hr: "(if i < length ?h then heap_update ?h (c_data c) i (length ?h) else Some (?h, c_data c)) = Some (h, r)"
      "heap_ok h" "refs_ok h r" "mset h = mset ?h" "\<forall>a. a \<notin> cells ?h \<longrightarrow> r a = c_data c a"
    unfolding repaired_def by blast
  define m where "m = remove1 (v, d) (c_map c)"
  let ?c = "c\<lparr>c_heap := h, c_map := m, c_data := r(d := None)\<rparr>"
  have mm: "mset (c_map c) = add_mset (v, d) (mset m)" using f(2) by (simp add: m_def)
  have km: "image_mset item_key (mset h) = image_mset (apsnd Some) (mset m)"
    using inv ms mm f(5,6) hr(4) by (simp add: item_key_def)
  have dm: "distinct (map snd ((v, d) # m))"
    using inv mm mset_eq_imp_distinct_iff [of "map snd (c_map c)" "map snd ((v, d) # m)"] by simp
  have "set (c_map c) = insert (v, d) (set m)" using mm by (metis set_mset_add_mset_insert set_mset_mset)
  then have st: "snd ` set (c_map c) = insert d (snd ` set m)" by simp
  note ch = cells_keys [OF km]
  have nd: "d \<notin> cells h" using ch dm by simp
  have "refs_ok h (r(d := None))"
    using hr(3) in_cells [of _ h d] nd by (fastforce simp: refs_ok_def)
  moreover have "dom (r(d := None)) = snd ` set m"
  proof -
    have "a \<in> dom r \<longleftrightarrow> a \<in> insert d (cells h)" for a
      using cells_dom [OF hr(3)] hr(5) cells_mset [OF hr(4)] st ch inv f(3) by (cases "a \<in> cells h") (auto simp: domIff)
    then show ?thesis using nd ch by auto
  qed
  moreover have "\<forall>d \<in> snd ` set m. d < c_brk c" using inv st by simp
  ultimately have "container_ok ?c"
    using hr(2) km dm by (simp add: container_ok_def)
  moreover have "r d \<noteq> None" using hr(5) nd cells_mset [OF hr(4)] f(3) by auto
  then have "del_item v c = Some ?c"
    using f hr(1) by (auto simp: del_item_def Let_def delete_cell_def m_def)
  ultimately show ?thesis using mm by auto
qed

lemma delete_all:
  assumes "distinct (map snd m)" "dom data = snd ` set m"
  shows "for_each (\<lambda>p data. delete_cell data (snd p)) m data = Some Map.empty"
  using assms
proof (induction m arbitrary: data)
  case (Cons p m)
  from Cons.prems(2) have "snd p \<in> dom data" by simp
  then obtain i where "data (snd p) = Some i" by blast
  moreover have "dom (data(snd p := None)) = snd ` set m" using Cons.prems by auto
  ultimately show ?case using Cons by (simp add: delete_cell_def)
qed simp

lemma dispose_heap_ok: "container_ok c \<Longrightarrow> dispose_heap c = Some Map.empty"
  by (simp add: container_ok_def dispose_heap_def delete_all)

lemma size_vals: "container_ok c \<Longrightarrow> length (c_heap c) = size (vals c)"
  by (simp add: container_ok_length)

lemma fill_ok:
  assumes "length xs < 2 ^ 61"
  shows "\<exists>c. for_each (\<lambda>i. add_item (f i)) xs (container0 (Map.empty, b)) = Some c \<and> container_ok c \<and> vals c = mset (map f xs)"
proof (rule for_each_inv)
  show "container_ok (container0 (Map.empty, b)) \<and> vals (container0 (Map.empty, b)) = mset (map f [])" using container0_ok by simp
next
  fix ys x c
  assume l: "length ys < length xs" and c: "container_ok c \<and> vals c = mset (map f ys)"
  then have "length (c_heap c) = length ys"
    by (metis size_vals size_mset length_map)
  with add_item_ok [of c "f x"] l c assms show "\<exists>c'. add_item (f x) c = Some c' \<and> container_ok c' \<and> vals c' = mset (map f (ys @ [x]))"
    by auto
qed

lemma small_vals: "container_ok c \<Longrightarrow> size (vals c) < 2 ^ 61 \<Longrightarrow> small_heap (c_heap c) \<and> length (c_heap c) < 2 ^ 61"
  by (simp add: container_ok_length small_heap_def)

lemma insert_round_ok:
  assumes "sz < 2 ^ 60"
  shows "\<exists>b'. insert_round sz j (Map.empty, b) = Some (Map.empty, b')"
proof -
  from fill_ok [of "[0..<sz]" "\<lambda>i. ucast (1 + of_nat i * 2 :: u32)"] assms obtain c where
    c: "for_each (\<lambda>i. add_item (ucast (1 + of_nat i * 2 :: u32))) [0..<sz] (container0 (Map.empty, b)) = Some c" "container_ok c"
      "vals c = mset (map (\<lambda>i. ucast (1 + of_nat i * 2 :: u32)) [0..<sz])"
    by auto
  then have n: "size (vals c) = sz" by (simp only: c(3)) simp
  from small_vals [OF c(2)] n assms have "length (c_heap c) < 2 ^ 61" "small_heap (c_heap c)" by simp_all
  with add_item_ok [OF c(2), of "ucast (of_nat j :: u32)"] obtain c' where
    c': "add_item (ucast (of_nat j :: u32)) c = Some c'" "container_ok c'" "vals c' = add_mset (ucast (of_nat j :: u32)) (vals c)"
    by blast
  then have "size (vals c') < 2 ^ 61" using n assms arg_cong [OF c'(3), of size] by simp
  from small_vals [OF c'(2) this] have "small_heap (c_heap c')" by simp
  with c c' \<open>small_heap (c_heap c)\<close> show ?thesis by (simp add: insert_round_def verify_container dispose_heap_ok)
qed

lemma delete_round_ok:
  assumes "sz < 2 ^ 60" "j < sz"
  shows "\<exists>b'. delete_round sz j (Map.empty, b) = Some (Map.empty, b')"
proof -
  from fill_ok [of "[0..<sz]" "\<lambda>i. ucast (of_nat i :: u32)"] assms(1) obtain c where
    c: "for_each (\<lambda>i. add_item (ucast (of_nat i :: u32))) [0..<sz] (container0 (Map.empty, b)) = Some c" "container_ok c"
      "vals c = mset (map (\<lambda>i. ucast (of_nat i :: u32)) [0..<sz])"
    by auto
  then have n: "size (vals c) = sz" and j: "ucast (of_nat j :: u32) \<in># vals c" using assms(2) by (simp_all only: c(3)) auto
  from small_vals [OF c(2)] n assms(1) have "small_heap (c_heap c)" by simp
  with del_item_ok [OF c(2) j] obtain c' where
    c': "del_item (ucast (of_nat j :: u32)) c = Some c'" "container_ok c'" "vals c = add_mset (ucast (of_nat j :: u32)) (vals c')"
    by blast
  then have "size (vals c') < 2 ^ 61" using n assms(1) arg_cong [OF c'(3), of size] by simp
  from small_vals [OF c'(2) this] have "small_heap (c_heap c')" by simp
  with c c' \<open>small_heap (c_heap c)\<close> show ?thesis by (simp add: delete_round_def verify_container dispose_heap_ok)
qed

text \<open>
  The counters of the loops have 32 bits, so for larger sizes the loops of the test would not end. Below, every
  check of the test succeeds.
\<close>

lemma rounds_ok:
  assumes "\<And>x b. x \<in> set xs \<Longrightarrow> \<exists>b'. f x (Map.empty, b) = Some (Map.empty, b')"
  shows "\<exists>b'. for_each f xs (Map.empty, b) = Some (Map.empty, b')"
proof -
  have "\<exists>m. for_each f xs (Map.empty, b) = Some m \<and> fst m = Map.empty"
    by (rule for_each_inv [where P = "\<lambda>_ m. fst m = Map.empty"]) (use assms in auto)
  then show ?thesis by auto
qed

lemma test_case_heap_ok:
  assumes "sz < 2 ^ 31 - 1"
  shows "\<exists>b'. test_case_heap sz (Map.empty, b) = Some (Map.empty, b')"
proof -
  have s: "sz < 2 ^ 60" using assms by simp
  from rounds_ok [of "[0..<2 + sz * 2]" "insert_round sz"] insert_round_ok [OF s] obtain b1 where
    "for_each (insert_round sz) [0..<2 + sz * 2] (Map.empty, b) = Some (Map.empty, b1)" by blast
  moreover from rounds_ok [of "[0..<sz]" "delete_round sz" b1] delete_round_ok [OF s] obtain b2 where
    "for_each (delete_round sz) [0..<sz] (Map.empty, b1) = Some (Map.empty, b2)" by auto
  ultimately show ?thesis unfolding test_case_heap_def by simp
qed

theorem main_test_heap_passes: "\<exists>b. main_test_heap = Some (Map.empty, b)"
  unfolding main_test_heap_def by (rule rounds_ok) (auto intro!: test_case_heap_ok)

end
