(* ===== verification/Test_AVL.thy ===== *)
theory Test_AVL
  imports AVL_Ops
begin

text \<open>
  The unit test of the tree, \<open>tests/test_avl.cpp\<close>. A \<open>Data\<close> object is a
  tree node with a number; the node and the number are two stores under the same address. \<open>new\<close> takes the
  next address, and \<open>delete\<close> of an object that is not allocated fails. A \<open>std::multiset\<close> is a multiset.
  The numbers that \<open>rand\<close> returns are a parameter. All containers of a program share one memory: the
  state carries the memory with the root of the container in use, and a new container starts with the
  root \<open>NULL\<close> in the memory it finds.

  The operations of the test keep the tree ordered, balanced and consistently linked, for every
  sequence of numbers; with that the program runs to its end without a failed assertion, whatever
  \<open>rand\<close> returns, and frees every object: each test returns the memory it was given, with the objects of
  the other containers untouched. The checks are weaker than the invariant: they compare
  each number only with those of the children.
\<close>

section \<open>Model\<close>

record avl_container =
  t_root :: ptr
  t_nodes :: avl_heap
  t_vals :: "u32 store"
  t_brk :: nat

definition tree0 :: avl_container where
  "tree0 = \<lparr>t_root = None, t_nodes = Map.empty, t_vals = Map.empty, t_brk = 0\<rparr>"

text \<open>The declaration of an empty container.\<close>

definition new_container :: "avl_container \<Rightarrow> avl_container" where
  "new_container m = m\<lparr>t_root := None\<rparr>"

definition new_data :: "u32 \<Rightarrow> avl_container \<Rightarrow> (avl_container \<times> addr) option" where
  "new_data v c =
     (let a = t_brk c;
          h = (t_nodes c)(a \<mapsto> \<lparr>parent_p = None, left_p = None, right_p = None, height_u = 0, cnt_u = 0\<rparr>)
      in do {
        h \<leftarrow> avl_init h a;
        Some (c\<lparr>t_nodes := h, t_vals := (t_vals c)(a \<mapsto> v), t_brk := a + 1\<rparr>, a)
      })"

definition delete_data :: "avl_container \<Rightarrow> addr \<Rightarrow> avl_container option" where
  "delete_data c a = do {
     _ \<leftarrow> t_vals c a;
     Some (c\<lparr>t_nodes := (t_nodes c)(a := None), t_vals := (t_vals c)(a := None)\<rparr>)
   }"

text \<open>The search loop of \<open>add\<close>: \<open>node\<close> is \<open>*from\<close>, \<open>cur\<close> the node visited last.\<close>

partial_function (option) add_slot ::
  "avl_container \<Rightarrow> u32 \<Rightarrow> ptr \<Rightarrow> ptr \<Rightarrow> slot \<Rightarrow> (ptr \<times> slot) option" where
  "add_slot c v node cur from =
     (case node of
        None \<Rightarrow> Some (cur, from)
      | Some a \<Rightarrow> do {
          node_val \<leftarrow> t_vals c a;
          if v < node_val then do { l \<leftarrow> rd (t_nodes c) left_p a; add_slot c v l (Some a) (LeftOf a) }
          else do { r \<leftarrow> rd (t_nodes c) right_p a; add_slot c v r (Some a) (RightOf a) }
        })"

declare add_slot.simps [code]

definition avl_add :: "u32 \<Rightarrow> avl_container \<Rightarrow> avl_container option" where
  "avl_add v c = do {
     (c, a) \<leftarrow> new_data v c;
     (cur, from) \<leftarrow> add_slot c v (t_root c) None Var;
     (h, root) \<leftarrow> put_slot (t_nodes c) (t_root c) from (Some a);
     h \<leftarrow> wr h a (\<lambda>n. n\<lparr>parent_p := cur\<rparr>);
     (h, root) \<leftarrow> avl_fix_tree h a;
     Some (c\<lparr>t_nodes := h, t_root := root\<rparr>)
   }"

partial_function (option) del_search :: "avl_container \<Rightarrow> u32 \<Rightarrow> ptr \<Rightarrow> ptr option" where
  "del_search c v cur =
     (case cur of
        None \<Rightarrow> Some None
      | Some a \<Rightarrow> do {
          node_val \<leftarrow> t_vals c a;
          if v = node_val then Some (Some a)
          else if v < node_val then do { l \<leftarrow> rd (t_nodes c) left_p a; del_search c v l }
          else do { r \<leftarrow> rd (t_nodes c) right_p a; del_search c v r }
        })"

declare del_search.simps [code]

definition avl_del :: "u32 \<Rightarrow> avl_container \<Rightarrow> (avl_container \<times> bool) option" where
  "avl_del v c = do {
     cur \<leftarrow> del_search c v (t_root c);
     (case cur of
        None \<Rightarrow> Some (c, False)
      | Some a \<Rightarrow> do {
          (h, root) \<leftarrow> avl_delete (t_nodes c) a;
          c \<leftarrow> delete_data (c\<lparr>t_nodes := h, t_root := root\<rparr>) a;
          Some (c, True)
        })
   }"

text \<open>The check of one child: its link back to the node, and its number against that of the node.\<close>

definition verify_link :: "avl_container \<Rightarrow> addr \<Rightarrow> ptr \<Rightarrow> (u32 \<Rightarrow> bool) \<Rightarrow> unit option" where
  "verify_link c node child P =
     (case child of
        None \<Rightarrow> Some ()
      | Some b \<Rightarrow> do {
          p \<leftarrow> rd (t_nodes c) parent_p b;
          assertion (p = Some node);
          v \<leftarrow> t_vals c b;
          assertion (P v)
        })"

partial_function (option) avl_verify :: "avl_container \<Rightarrow> ptr \<Rightarrow> ptr \<Rightarrow> unit option" where
  "avl_verify c parent node =
     (case node of
        None \<Rightarrow> Some ()
      | Some a \<Rightarrow> do {
          n \<leftarrow> t_nodes c a;
          assertion (parent_p n = parent);
          _ \<leftarrow> avl_verify c (Some a) (left_p n);
          _ \<leftarrow> avl_verify c (Some a) (right_p n);
          cl \<leftarrow> avl_cnt (t_nodes c) (left_p n);
          cr \<leftarrow> avl_cnt (t_nodes c) (right_p n);
          assertion (cnt_u n = 1 + cl + cr);
          l \<leftarrow> avl_height (t_nodes c) (left_p n);
          r \<leftarrow> avl_height (t_nodes c) (right_p n);
          assertion (l = r \<or> l + 1 = r \<or> l = r + 1);
          assertion (height_u n = 1 + max l r);
          v \<leftarrow> t_vals c a;
          _ \<leftarrow> verify_link c a (left_p n) (\<lambda>w. w \<le> v);
          verify_link c a (right_p n) (\<lambda>w. w \<ge> v)
        })"

declare avl_verify.simps [code]

partial_function (option) extract_vals :: "avl_container \<Rightarrow> ptr \<Rightarrow> u32 multiset \<Rightarrow> u32 multiset option" where
  "extract_vals c node extracted =
     (case node of
        None \<Rightarrow> Some extracted
      | Some a \<Rightarrow> do {
          n \<leftarrow> t_nodes c a;
          extracted \<leftarrow> extract_vals c (left_p n) extracted;
          v \<leftarrow> t_vals c a;
          extract_vals c (right_p n) (add_mset v extracted)
        })"

declare extract_vals.simps [code]

definition container_verify :: "avl_container \<Rightarrow> u32 multiset \<Rightarrow> unit option" where
  "container_verify c rf = do {
     _ \<leftarrow> avl_verify c None (t_root c);
     n \<leftarrow> avl_cnt (t_nodes c) (t_root c);
     assertion (unat n = size rf);
     extracted \<leftarrow> extract_vals c (t_root c) {#};
     assertion (extracted = rf)
   }"

partial_function (option) dispose_avl :: "avl_container \<Rightarrow> avl_container option" where
  "dispose_avl c =
     (case t_root c of
        None \<Rightarrow> Some c
      | Some a \<Rightarrow> do {
          (h, root) \<leftarrow> avl_delete (t_nodes c) a;
          c \<leftarrow> delete_data (c\<lparr>t_nodes := h, t_root := root\<rparr>) a;
          dispose_avl c
        })"

declare dispose_avl.simps [code]

type_synonym avl_state = "avl_container \<times> u32 multiset"

text \<open>An insertion into the container and the reference multiset.\<close>

definition insert_both :: "u32 \<Rightarrow> avl_state \<Rightarrow> avl_state option" where
  "insert_both v s = (case s of (c, rf) \<Rightarrow> do { c \<leftarrow> avl_add v c; Some (c, add_mset v rf) })"

definition insert_checked :: "u32 \<Rightarrow> avl_state \<Rightarrow> avl_state option" where
  "insert_checked v s = do { (c, rf) \<leftarrow> insert_both v s; _ \<leftarrow> container_verify c rf; Some (c, rf) }"

text \<open>The bodies of the loops over \<open>val\<close> in the three tests.\<close>

definition test_insert_at :: "nat \<Rightarrow> nat \<Rightarrow> avl_container \<Rightarrow> avl_container option" where
  "test_insert_at sz v m = do {
     (c, rf) \<leftarrow> for_each (\<lambda>i s. if i = v then Some s else insert_both (of_nat i) s) [0..<sz] (new_container m, {#});
     _ \<leftarrow> container_verify c rf;
     (c, rf) \<leftarrow> insert_checked (of_nat v) (c, rf);
     dispose_avl c
   }"

definition test_insert_dup_at :: "nat \<Rightarrow> nat \<Rightarrow> avl_container \<Rightarrow> avl_container option" where
  "test_insert_dup_at sz v m = do {
     (c, rf) \<leftarrow> for_each (\<lambda>i. insert_both (of_nat i)) [0..<sz] (new_container m, {#});
     _ \<leftarrow> container_verify c rf;
     (c, rf) \<leftarrow> insert_checked (of_nat v) (c, rf);
     dispose_avl c
   }"

definition test_remove_at :: "nat \<Rightarrow> nat \<Rightarrow> avl_container \<Rightarrow> avl_container option" where
  "test_remove_at sz v m = do {
     (c, rf) \<leftarrow> for_each (\<lambda>i. insert_both (of_nat i)) [0..<sz] (new_container m, {#});
     _ \<leftarrow> container_verify c rf;
     (c, found) \<leftarrow> avl_del (of_nat v) c;
     assertion found;
     _ \<leftarrow> container_verify c (filter_mset (\<lambda>x. x \<noteq> of_nat v) rf);
     dispose_avl c
   }"

definition test_insert :: "nat \<Rightarrow> avl_container \<Rightarrow> avl_container option" where
  "test_insert sz = for_each (test_insert_at sz) [0..<sz]"

definition test_insert_dup :: "nat \<Rightarrow> avl_container \<Rightarrow> avl_container option" where
  "test_insert_dup sz = for_each (test_insert_dup_at sz) [0..<sz]"

definition test_remove :: "nat \<Rightarrow> avl_container \<Rightarrow> avl_container option" where
  "test_remove sz = for_each (test_remove_at sz) [0..<sz]"

text \<open>A random deletion of \<open>main\<close>.\<close>

definition delete_random :: "u32 \<Rightarrow> avl_state \<Rightarrow> avl_state option" where
  "delete_random v s = (case s of (c, rf) \<Rightarrow> do {
     (c, found) \<leftarrow> avl_del v c;
     assertion (found = (v \<in># rf));
     (let rf = (if v \<in># rf then rf - {#v#} else rf) in do {
       _ \<leftarrow> container_verify c rf;
       Some (c, rf)
     })
   })"

text \<open>\<open>rand k\<close> is the result of the \<open>k\<close>-th call of \<open>rand\<close>.\<close>

definition main_test_avl :: "(nat \<Rightarrow> u32) \<Rightarrow> avl_container option" where
  "main_test_avl rand = do {
     _ \<leftarrow> container_verify tree0 {#};
     c \<leftarrow> avl_add 123 tree0;
     _ \<leftarrow> container_verify c {#123#};
     (c, found) \<leftarrow> avl_del 124 c;
     assertion (\<not> found);
     (c, found) \<leftarrow> avl_del 123 c;
     assertion found;
     _ \<leftarrow> container_verify c {#};
     s \<leftarrow> for_each (\<lambda>k. insert_checked (3 * of_nat k)) [0..<334] (c, {#});
     s \<leftarrow> for_each (\<lambda>i. insert_checked (rand i mod 1000)) [0..<100] s;
     (c, rf) \<leftarrow> for_each (\<lambda>i. delete_random (rand (100 + i) mod 1000)) [0..<200] s;
     m \<leftarrow> for_each (\<lambda>i m. do { m \<leftarrow> test_insert i m; m \<leftarrow> test_insert_dup i m; test_remove i m }) [0..<200] c;
     dispose_avl (m\<lparr>t_root := t_root c\<rparr>)
   }"

section \<open>The invariant\<close>

definition num :: "avl_container \<Rightarrow> addr \<Rightarrow> u32" where
  "num c a = the (t_vals c a)"

text \<open>\<open>F\<close> are the objects of the memory that are not in the tree of the container.\<close>

type_synonym frame_mem = "avl_heap \<times> u32 store"

definition holds_tree :: "frame_mem \<Rightarrow> avl_container \<Rightarrow> addr tree \<Rightarrow> bool" where
  "holds_tree F c t \<longleftrightarrow> t_root c = root_ptr t \<and> tree_at (t_nodes c) None t \<and> fits t \<and> bal t
     \<and> sorted (map (num c) (inorder t)) \<and> set_tree t \<subseteq> dom (t_vals c)
     \<and> F = (t_nodes c |` (- set_tree t), t_vals c |` (- set_tree t))
     \<and> (\<forall>a \<in> dom (t_nodes c) \<union> dom (t_vals c). a < t_brk c)"

definition holds :: "frame_mem \<Rightarrow> avl_container \<Rightarrow> u32 multiset \<Rightarrow> bool" where
  "holds F c M \<longleftrightarrow> (\<exists>t. holds_tree F c t \<and> mset (map (num c) (inorder t)) = M)"

abbreviation no_mem :: frame_mem where
  "no_mem \<equiv> (Map.empty, Map.empty)"

lemma tree0_holds: "holds no_mem tree0 {#}"
  unfolding holds_def by (rule exI [of _ "\<langle>\<rangle>"]) (simp add: holds_tree_def tree0_def fits_def)

lemma holds_none: "holds F c {#} \<longleftrightarrow> t_root c = None \<and> F = (t_nodes c, t_vals c) \<and> (\<forall>a \<in> dom (t_nodes c) \<union> dom (t_vals c). a < t_brk c)"
proof -
  have e: "mset (map (num c) (inorder t)) = {#} \<longleftrightarrow> t = \<langle>\<rangle>" for t :: "addr tree" by (cases t) auto
  show ?thesis unfolding holds_def e by (auto simp: holds_tree_def fits_def)
qed

text \<open>
  The memory between two containers, with whatever root: a container declared in it leaves the
  objects of the others as they are.
\<close>

abbreviation memory :: "frame_mem \<Rightarrow> avl_container \<Rightarrow> bool" where
  "memory F m \<equiv> holds F (new_container m) {#}"

lemma memory_iff: "memory F m \<longleftrightarrow> F = (t_nodes m, t_vals m) \<and> (\<forall>a \<in> dom (t_nodes m) \<union> dom (t_vals m). a < t_brk m)"
  unfolding holds_none by (simp add: new_container_def)

lemma memory_empty: "holds F c {#} \<Longrightarrow> memory F c"
  unfolding memory_iff by (simp add: holds_none)

lemma memory_holds: "holds F c M \<Longrightarrow> memory (t_nodes c, t_vals c) c"
  unfolding memory_iff by (auto simp: holds_def holds_tree_def)

lemma back_to:
  assumes "holds F c M" "memory (t_nodes c, t_vals c) m"
  shows "holds F (m\<lparr>t_root := t_root c\<rparr>) M"
proof -
  from assms(2) have m: "t_nodes m = t_nodes c" "t_vals m = t_vals c" "\<forall>a \<in> dom (t_nodes c) \<union> dom (t_vals c). a < t_brk m"
    unfolding memory_iff by auto
  have "num (m\<lparr>t_root := t_root c\<rparr>) = num c" by (simp add: num_def fun_eq_iff m)
  with assms(1) m(3) show ?thesis unfolding holds_def holds_tree_def by (simp add: m(1,2)) blast
qed

lemma holds_size: "holds_tree F c t \<Longrightarrow> mset (map (num c) (inorder t)) = M \<Longrightarrow> size t = size M"
  by (metis length_inorder length_map size_mset)

lemma vals_num: "holds_tree F c t \<Longrightarrow> a \<in> set_tree t \<Longrightarrow> t_vals c a = Some (num c a)"
  by (auto simp: holds_tree_def num_def)

lemma below: "holds_tree F c t \<Longrightarrow> a \<in> set_tree t \<Longrightarrow> a < t_brk c"
  by (auto simp: holds_tree_def)

lemma tree_at_dom: "tree_at h par t \<Longrightarrow> set_tree t \<subseteq> dom h"
  by (induction t arbitrary: par) (auto, blast+)

lemma add_slot_at:
  assumes "tree_at (t_nodes c) par t" "set_tree t \<subseteq> dom (t_vals c)"
  shows "add_slot c v (root_ptr t) cur from = search_slot (t_nodes c) (\<lambda>a. v < num c a) (root_ptr t) cur from"
  using assms
proof (induction t arbitrary: par cur "from")
  case Leaf
  then show ?case by (simp add: add_slot.simps search_slot.simps)
next
  case (Node l a r)
  then obtain w where "t_vals c a = Some w" by auto
  with Node show ?case by (subst add_slot.simps, subst search_slot.simps) (auto simp: num_def)
qed

lemma sorted_insert:
  assumes "sorted (map f xs)" "f a = v"
  shows "sorted (map f (takeWhile (\<lambda>x. \<not> v < f x) xs @ a # dropWhile (\<lambda>x. \<not> v < (f x :: 'b::linorder)) xs))"
proof -
  have 1: "sorted (map f (takeWhile (\<lambda>x. \<not> v < f x) xs))" "sorted (map f (dropWhile (\<lambda>x. \<not> v < f x) xs))"
    using assms(1) by (metis map_append sorted_append takeWhile_dropWhile_id)+
  have 2: "\<forall>x \<in> set (takeWhile (\<lambda>x. \<not> v < f x) xs). f x \<le> v" by (auto dest: set_takeWhileD)
  have "\<forall>x \<in> set (dropWhile (\<lambda>x. \<not> v < f x) xs). v \<le> f x"
  proof (cases "dropWhile (\<lambda>x. \<not> v < f x) xs")
    case (Cons y ys)
    then have "v < f y" using hd_dropWhile [of "\<lambda>x. \<not> v < f x" xs] by simp
    with 1(2) Cons show ?thesis by auto
  qed (simp only: list.set ball_empty)
  with 1 2 assms(2) show ?thesis by (auto simp: sorted_append intro: order.trans)
qed

lemma avl_add_ok:
  assumes M: "holds F c M" and small: "size M + 3 < 2 ^ 32"
  shows "\<exists>c'. avl_add v c = Some c' \<and> holds F c' (add_mset v M)"
proof -
  from M obtain t where t: "holds_tree F c t" "mset (map (num c) (inorder t)) = M" by (auto simp: holds_def)
  note i = t(1) [unfolded holds_tree_def]
  let ?a = "t_brk c" and ?n = "\<lparr>parent_p = None, left_p = None, right_p = None, height_u = 1, cnt_u = 1\<rparr>"
  let ?c = "c\<lparr>t_nodes := (t_nodes c)(?a \<mapsto> ?n), t_vals := (t_vals c)(?a \<mapsto> v), t_brk := ?a + 1\<rparr>"
  have fr: "?a \<notin> set_tree t" using i by blast
  have new: "new_data v c = Some (?c, ?a)" by (simp add: new_data_def avl_init_def Let_def)
  have num: "num ?c x = num c x" if "x \<in> set_tree t" for x using that fr by (auto simp: num_def)
  have at: "tree_at (t_nodes ?c) None t" using i fr by simp
  define g where "g = (\<lambda>a. v < num ?c a)"
  define t' where "t' = fix_up (descend g t []) \<langle>\<langle>\<rangle>, ?a, \<langle>\<rangle>\<rangle>"
  have sl: "add_slot ?c v (root_ptr t) cur from = search_slot (t_nodes ?c) g (root_ptr t) cur from" for cur "from"
    unfolding g_def using at i by (intro add_slot_at) auto
  from attach_at [OF at _ _ fr, of ?n _ g] i small holds_size [OF t] obtain h1 h2 h3 where
    s: "search_slot (t_nodes ?c) g (root_ptr t) None Var = Some (ctx_par (descend g t []), slot_ctx (descend g t []))"
    "put_slot (t_nodes ?c) (root_ptr t) (slot_ctx (descend g t [])) (Some ?a) = Some (h1, if t = \<langle>\<rangle> then Some ?a else root_ptr t)"
    "wr h1 ?a (\<lambda>n. n\<lparr>parent_p := ctx_par (descend g t [])\<rparr>) = Some h2"
    "avl_fix_tree h2 ?a = Some (h3, root_ptr t')" "tree_at h3 None t'" "\<forall>x. x \<noteq> ?a \<longrightarrow> x \<notin> set_tree t \<longrightarrow> h3 x = t_nodes ?c x"
    unfolding t'_def by auto
  let ?d = "?c\<lparr>t_nodes := h3, t_root := root_ptr t'\<rparr>"
  have add: "avl_add v c = Some ?d" using new sl s(1-4) i by (simp add: avl_add_def)
  have so: "sorted (map (num ?c) (inorder t))" using i num by (simp cong: map_cong flip: set_inorder)
  then have "sorted_wrt (\<lambda>x y. g x \<longrightarrow> g y) (inorder t)"
    unfolding sorted_map g_def by (rule sorted_wrt_mono_rel [rotated]) auto
  from attach_tree [of t g ?a] this i have b: "bal t'"
    and io: "inorder t' = takeWhile (\<lambda>x. \<not> g x) (inorder t) @ ?a # dropWhile (\<lambda>x. \<not> g x) (inorder t)"
    by (simp_all add: t'_def)
  have ms: "mset (inorder t') = add_mset ?a (mset (inorder t))"
    unfolding io by (metis mset.simps(2) mset_append takeWhile_dropWhile_id union_mset_add_mset_right)
  note st = inserted_nodes(1) [OF io]
  have "distinct (inorder t')" using inserted_nodes(2) [OF io] i fr by (simp add: fits_def)
  moreover have "size t' = size t + 1" using ms by (metis length_inorder size_mset size_add_mset Suc_eq_plus1)
  ultimately have "fits t'" using small holds_size [OF t] by (simp add: fits_def)
  moreover have "sorted (map (num ?c) (inorder t'))" unfolding io g_def by (rule sorted_insert [OF so]) (simp add: num_def)
  moreover have "t_nodes c ?a = None" "t_vals c ?a = None" using i by blast+
  then have "h3 |` (- set_tree t') = t_nodes c |` (- set_tree t)" "t_vals ?d |` (- set_tree t') = t_vals c |` (- set_tree t)"
    using s(6) by (auto simp: st fun_eq_iff restrict_map_def)
  moreover have "x < Suc ?a" if "h3 x \<noteq> None" for x
    using that s(6) [rule_format, of x] below [OF t(1), of x] i
    by (cases "x = ?a"; cases "x \<in> set_tree t") (auto simp: less_Suc_eq)
  then have "\<forall>x \<in> dom h3 \<union> dom (t_vals ?d). x < t_brk ?d" using i by (auto simp: less_Suc_eq)
  moreover have "num ?d = num ?c" by (simp add: num_def fun_eq_iff)
  ultimately have "holds_tree F ?d t'" using b s(5) st i by (auto simp: holds_tree_def)
  moreover have "mset (map (num ?d) (inorder t')) = add_mset v M"
  proof -
    have "mset (map (num ?d) (inorder t')) = add_mset (num ?c ?a) (image_mset (num ?c) (mset (inorder t)))"
      unfolding \<open>num ?d = num ?c\<close> mset_map ms by simp
    also have "image_mset (num ?c) (mset (inorder t)) = image_mset (num c) (mset (inorder t))"
      by (rule image_mset_cong) (rule num, simp)
    also have "\<dots> = M" using t(2) by simp
    also have "num ?c ?a = v" by (simp add: num_def)
    finally show ?thesis .
  qed
  ultimately show ?thesis using add by (auto simp: holds_def)
qed

lemma del_search_at:
  assumes "tree_at (t_nodes c) par t" "set_tree t \<subseteq> dom (t_vals c)" "sorted (map (num c) (inorder t))"
  shows "\<exists>res. del_search c v (root_ptr t) = Some res
    \<and> (case res of None \<Rightarrow> v \<notin> num c ` set_tree t | Some a \<Rightarrow> a \<in> set_tree t \<and> num c a = v)"
  using assms
proof (induction t arbitrary: par)
  case (Node l a r)
  obtain w where w: "t_vals c a = Some w" using Node.prems(2) by auto
  then have n: "num c a = w" by (simp add: num_def)
  have s: "sorted (map (num c) (inorder l))" "sorted (map (num c) (inorder r))"
    and l: "\<forall>x \<in> set_tree l. num c x \<le> w" and r: "\<forall>x \<in> set_tree r. w \<le> num c x"
    using Node.prems(3) n by (auto simp: sorted_append)
  consider "v = w" | "v < w" | "w < v" by (metis linorder_less_linear)
  then show ?case
  proof cases
    case 1
    with w n show ?thesis by (subst del_search.simps) auto
  next
    case 2
    with r have "v \<notin> num c ` set_tree r" by force
    moreover from Node.IH(1) [of "Some a"] Node.prems(1,2) s(1) obtain res where "del_search c v (root_ptr l) = Some res"
      "case res of None \<Rightarrow> v \<notin> num c ` set_tree l | Some a \<Rightarrow> a \<in> set_tree l \<and> num c a = v" by auto
    ultimately show ?thesis using 2 w n Node.prems(1)
      by (subst del_search.simps) (cases res; simp add: image_Un)
  next
    case 3
    with l have "v \<notin> num c ` set_tree l" by force
    moreover from Node.IH(2) [of "Some a"] Node.prems(1,2) s(2) obtain res where "del_search c v (root_ptr r) = Some res"
      "case res of None \<Rightarrow> v \<notin> num c ` set_tree r | Some a \<Rightarrow> a \<in> set_tree r \<and> num c a = v" by auto
    moreover from 3 have "\<not> v < w" "v \<noteq> w" by auto
    ultimately show ?thesis using w n Node.prems(1)
      by (subst del_search.simps) (cases res; simp add: image_Un)
  qed
qed (simp add: del_search.simps)

text \<open>The deletion of a node and its object, as \<open>del\<close> and \<open>dispose\<close> do it.\<close>

lemma remove_node:
  assumes t: "holds_tree F c t" and a: "a \<in> set_tree t"
  shows "\<exists>h root c'. avl_delete (t_nodes c) a = Some (h, root) \<and> delete_data (c\<lparr>t_nodes := h, t_root := root\<rparr>) a = Some c'
    \<and> holds F c' (mset (map (num c) (inorder t)) - {#num c a#})"
proof -
  note i = t [unfolded holds_tree_def]
  from avl_delete_at [of "t_nodes c" t a] i a obtain h t' where
    d: "avl_delete (t_nodes c) a = Some (h, root_ptr t')" "tree_at h None t'" "bal t'" "inorder t' = remove1 a (inorder t)"
      "h a \<noteq> None" "\<forall>x. x \<notin> set_tree t \<longrightarrow> h x = t_nodes c x"
    by blast
  let ?c = "c\<lparr>t_nodes := h(a := None), t_root := root_ptr t', t_vals := (t_vals c)(a := None)\<rparr>"
  have di: "distinct (inorder t)" using i by (simp add: fits_def)
  then have "set (inorder t') = set (inorder t) - {a}" unfolding d(4) by (rule set_remove1_eq)
  then have st: "set_tree t' = set_tree t - {a}" by simp
  have num: "num ?c x = num c x" if "x \<in> set_tree t'" for x using that st by (simp add: num_def)
  have "length (inorder t') \<le> length (inorder t)" unfolding d(4) by (simp add: length_remove1)
  then have "size t' \<le> size t" by simp
  then have "fits t'" using i di d(4) by (simp add: fits_def)
  moreover have "tree_at (h(a := None)) None t'" using d(2) st by simp
  moreover have "sorted (map (num ?c) (inorder t'))"
  proof -
    have "sorted (map (num c) (remove1 a (inorder t)))"
      using i by (simp only: sorted_map_remove1)
    moreover have "map (num ?c) (inorder t') = map (num c) (inorder t')" by (rule map_cong [OF refl]) (rule num, simp)
    ultimately show ?thesis by (simp only: d(4))
  qed
  moreover have "(h(a := None)) |` (- set_tree t') = t_nodes c |` (- set_tree t)"
      "((t_vals c)(a := None)) |` (- set_tree t') = t_vals c |` (- set_tree t)"
    using d(6) a by (auto simp: st fun_eq_iff restrict_map_def)
  moreover have "x < t_brk c" if "h x \<noteq> None" for x
    using that d(6) [rule_format, of x] below [OF t, of x] i by (cases "x \<in> set_tree t") auto
  then have "\<forall>x \<in> dom (h(a := None)) \<union> dom ((t_vals c)(a := None)). x < t_brk c" using i by auto
  moreover have "set_tree t' \<subseteq> dom ((t_vals c)(a := None))" using i st by auto
  ultimately have "holds_tree F ?c t'" using d(3) i by (simp add: holds_tree_def)
  moreover have "mset (map (num ?c) (inorder t')) = mset (map (num c) (inorder t)) - {#num c a#}"
  proof -
    have "mset (map (num ?c) (inorder t')) = image_mset (num c) (mset (inorder t'))"
      unfolding mset_map by (rule image_mset_cong) (rule num, simp)
    also have "\<dots> = image_mset (num c) (mset (inorder t)) - {#num c a#}"
      using a d(4) by (simp add: image_mset_Diff)
    finally show ?thesis by simp
  qed
  moreover have "delete_data (c\<lparr>t_nodes := h, t_root := root_ptr t'\<rparr>) a = Some ?c"
    using vals_num [OF t a] by (simp add: delete_data_def)
  ultimately show ?thesis using d(1) by (auto simp: holds_def)
qed

lemma avl_del_ok:
  assumes M: "holds F c M"
  shows "\<exists>c'. avl_del v c = Some (c', v \<in># M) \<and> holds F c' (M - {#v#})"
proof -
  from M obtain t where t: "holds_tree F c t" "mset (map (num c) (inorder t)) = M" by (auto simp: holds_def)
  note i = t(1) [unfolded holds_tree_def]
  have sM: "v \<in># M \<longleftrightarrow> v \<in> num c ` set_tree t" for v using t(2) by (auto simp flip: set_inorder)
  from del_search_at [of c None t v] i obtain res where
    r: "del_search c v (t_root c) = Some res"
      "case res of None \<Rightarrow> v \<notin> num c ` set_tree t | Some a \<Rightarrow> a \<in> set_tree t \<and> num c a = v" by auto
  show ?thesis
  proof (cases res)
    case None
    with r sM [of v] M show ?thesis by (simp add: avl_del_def)
  next
    case (Some a)
    with r have a: "a \<in> set_tree t" "num c a = v" by simp_all
    from remove_node [OF t(1) a(1)] t(2) a(2) obtain h root c' where
      "avl_delete (t_nodes c) a = Some (h, root)" "delete_data (c\<lparr>t_nodes := h, t_root := root\<rparr>) a = Some c'"
      "holds F c' (M - {#v#})" by auto
    moreover have "v \<in># M" using sM a by blast
    ultimately show ?thesis using r Some by (simp add: avl_del_def)
  qed
qed

lemma dispose_avl_ok: "holds F c M \<Longrightarrow> \<exists>c'. dispose_avl c = Some c' \<and> holds F c' {#}"
proof (induction "size M" arbitrary: c M)
  case 0
  then have "holds F c {#}" by simp
  moreover from this have "t_root c = None" by (simp add: holds_none)
  ultimately show ?case by (subst dispose_avl.simps) simp
next
  case (Suc n)
  then obtain t where t: "holds_tree F c t" "mset (map (num c) (inorder t)) = M" by (auto simp: holds_def)
  then obtain l a r where n: "t = \<langle>l, a, r\<rangle>" using Suc.hyps(2) holds_size [OF t] by (cases t) auto
  then have a: "a \<in> set_tree t" "t_root c = Some a" using t(1) by (auto simp: holds_tree_def)
  from remove_node [OF t(1) a(1)] t(2) obtain h root c' where
    d: "avl_delete (t_nodes c) a = Some (h, root)" "delete_data (c\<lparr>t_nodes := h, t_root := root\<rparr>) a = Some c'"
      "holds F c' (M - {#num c a#})" by auto
  have "num c a \<in># M" using t(2) a(1) by (auto simp flip: set_inorder)
  then have "n = size (M - {#num c a#})" using Suc.hyps(2) by (simp add: size_Diff_singleton)
  from Suc.hyps(1) [OF this d(3)] d(1,2) a(2) show ?case by (subst dispose_avl.simps) simp
qed

section \<open>What the checks say\<close>

lemma verify_link_ok:
  assumes "tree_at (t_nodes c) (Some a) t" "\<forall>b. root_ptr t = Some b \<longrightarrow> (\<exists>w. t_vals c b = Some w \<and> P w)"
  shows "verify_link c a (root_ptr t) P = Some ()"
  using assms by (cases t) (auto simp: verify_link_def)

lemma height_words:
  assumes "m < 2 ^ 31" "n < 2 ^ 31"
  shows "(of_nat m :: u32) = of_nat n \<longleftrightarrow> m = n" "(of_nat m + 1 :: u32) = of_nat n \<longleftrightarrow> m + 1 = n"
    "(of_nat m :: u32) = of_nat n + 1 \<longleftrightarrow> m = n + 1" "max (of_nat m :: u32) (of_nat n) = of_nat (max m n)"
proof -
  have w: "(of_nat x :: u32) = of_nat y \<longleftrightarrow> x = y" if "x < 2 ^ 32" "y < 2 ^ 32" for x y
    using that by (intro of_nat_word_inj) simp_all
  show "(of_nat m :: u32) = of_nat n \<longleftrightarrow> m = n" using assms by (intro w) simp_all
  show "(of_nat m + 1 :: u32) = of_nat n \<longleftrightarrow> m + 1 = n" using w [of "m + 1" n] assms by (simp add: add.commute)
  show "(of_nat m :: u32) = of_nat n + 1 \<longleftrightarrow> m = n + 1" using w [of m "n + 1"] assms by (simp add: add.commute)
  show "max (of_nat m :: u32) (of_nat n) = of_nat (max m n)"
    using assms by (auto simp: max_def word_le_nat_alt of_nat_inverse)
qed

text \<open>The checks of the test hold of every tree that represents a set of numbers.\<close>

lemma avl_verify_at:
  assumes "tree_at (t_nodes c) par t" "size t < 2 ^ 31" "bal t" "set_tree t \<subseteq> dom (t_vals c)" "sorted (map (num c) (inorder t))"
  shows "avl_verify c par (root_ptr t) = Some ()"
  using assms
proof (induction t arbitrary: par)
  case (Node l a r)
  obtain w where w: "t_vals c a = Some w" "num c a = w" using Node.prems(4) by (auto simp: num_def)
  have s: "sorted (map (num c) (inorder l))" "sorted (map (num c) (inorder r))"
    and ord: "\<forall>x \<in> set_tree l. num c x \<le> w" "\<forall>x \<in> set_tree r. w \<le> num c x"
    using Node.prems(5) w(2) by (auto simp: sorted_append)
  have n: "t_nodes c a = Some (node_rec par l r)" and sub: "tree_at (t_nodes c) (Some a) l" "tree_at (t_nodes c) (Some a) r"
    using Node.prems(1) by simp_all
  have v: "t_vals c b = Some (num c b)" if "b \<in> set_tree l \<union> set_tree r" for b
    using that Node.prems(4) by (auto simp: num_def)
  have lk: "verify_link c a (root_ptr l) (\<lambda>x. x \<le> w) = Some ()" "verify_link c a (root_ptr r) (\<lambda>x. x \<ge> w) = Some ()"
    by (rule verify_link_ok [OF sub(1)], use v ord root_ptr_in [of l] in blast,
        rule verify_link_ok [OF sub(2)], use v ord root_ptr_in [of r] in blast)
  have h: "height l < 2 ^ 31" "height r < 2 ^ 31"
    using Node.prems(2) height_le_size_tree [of l] height_le_size_tree [of r] by simp_all
  have "avl_verify c (Some a) (root_ptr l) = Some ()" "avl_verify c (Some a) (root_ptr r) = Some ()"
    using Node s sub by simp_all
  moreover have "(of_nat (height l) :: u32) = of_nat (height r) \<or> (of_nat (height l) + 1 :: u32) = of_nat (height r)
      \<or> (of_nat (height l) :: u32) = of_nat (height r) + 1"
    using Node.prems(3) by (simp only: height_words [OF h]) auto
  moreover have "height_u (node_rec par l r) = 1 + max (of_nat (height l)) (of_nat (height r))"
    by (simp add: node_rec_def height_words(4) [OF h])
  moreover have "cnt_u (node_rec par l r) = 1 + of_nat (size l) + of_nat (size r)" by (simp add: node_rec_def)
  ultimately show ?case using n w(1) lk avl_cnt_at [OF sub(1)] avl_cnt_at [OF sub(2)] avl_height_at [OF sub(1)] avl_height_at [OF sub(2)]
    by (subst avl_verify.simps) simp
qed (simp add: avl_verify.simps)

lemma extract_at:
  assumes "tree_at (t_nodes c) par t" "set_tree t \<subseteq> dom (t_vals c)"
  shows "extract_vals c (root_ptr t) E = Some (E + mset (map (num c) (inorder t)))"
  using assms
proof (induction t arbitrary: par E)
  case (Node l a r)
  obtain w where w: "t_vals c a = Some w" "num c a = w" using Node.prems(2) by (auto simp: num_def)
  have "extract_vals c (root_ptr l) E = Some (E + mset (map (num c) (inorder l)))" for E
    using Node.IH(1) [of "Some a"] Node.prems by simp
  moreover have "extract_vals c (root_ptr r) E = Some (E + mset (map (num c) (inorder r)))" for E
    using Node.IH(2) [of "Some a"] Node.prems by simp
  ultimately show ?case using w Node.prems(1) by (subst extract_vals.simps) (simp add: ac_simps)
qed (simp add: extract_vals.simps)

lemma container_verify_ok:
  assumes M: "holds F c M" "size M < 2 ^ 31"
  shows "container_verify c M = Some ()"
proof -
  from M(1) obtain t where t: "holds_tree F c t" "mset (map (num c) (inorder t)) = M" by (auto simp: holds_def)
  note i = t(1) [unfolded holds_tree_def] and sz = holds_size [OF t]
  have "avl_verify c None (t_root c) = Some ()" using i avl_verify_at [of c None t] M(2) sz by simp
  moreover have "extract_vals c (t_root c) {#} = Some M" using i extract_at [of c None t "{#}"] t(2) by simp
  moreover have "avl_cnt (t_nodes c) (t_root c) = Some (of_nat (size M))" using i avl_cnt_at [of "t_nodes c" None t] sz by simp
  moreover have "unat (of_nat (size M) :: u32) = size M" using M(2) by (simp add: of_nat_inverse)
  ultimately show ?thesis by (simp add: container_verify_def)
qed

section \<open>The test passes\<close>

definition in_step :: "frame_mem \<Rightarrow> nat \<Rightarrow> avl_state \<Rightarrow> bool" where
  "in_step F n s \<longleftrightarrow> holds F (fst s) (snd s) \<and> size (snd s) \<le> n"

lemma insert_both_ok:
  assumes "in_step F n s" "n < 2 ^ 30"
  shows "\<exists>c. insert_both v s = Some (c, add_mset v (snd s)) \<and> in_step F (Suc n) (c, add_mset v (snd s))"
  using assms avl_add_ok [of F "fst s" "snd s" v] by (auto simp: in_step_def insert_both_def split: prod.split)

lemma verify_in_step: "in_step F n s \<Longrightarrow> n \<le> 2 ^ 30 \<Longrightarrow> container_verify (fst s) (snd s) = Some ()"
  by (rule container_verify_ok) (auto simp: in_step_def)

lemma insert_checked_ok:
  assumes "in_step F n s" "n < 2 ^ 30"
  shows "\<exists>s'. insert_checked v s = Some s' \<and> in_step F (Suc n) s'"
proof -
  from insert_both_ok [OF assms] obtain c where
    c: "insert_both v s = Some (c, add_mset v (snd s))" "in_step F (Suc n) (c, add_mset v (snd s))" by blast
  from verify_in_step [OF c(2)] assms(2) c show ?thesis by (auto simp: insert_checked_def)
qed

lemma inserts_ok:
  assumes "memory F m" "length xs < 2 ^ 30"
  shows "\<exists>c. for_each (\<lambda>i. insert_both (f i)) xs (new_container m, {#}) = Some (c, mset (map f xs))
    \<and> in_step F (length xs) (c, mset (map f xs))"
proof -
  have "\<exists>s. for_each (\<lambda>i. insert_both (f i)) xs (new_container m, {#}) = Some s \<and> in_step F (length xs) s \<and> snd s = mset (map f xs)"
  proof (rule for_each_inv)
    show "in_step F (length []) (new_container m, {#}) \<and> snd (new_container m, {#}) = mset (map f [])"
      using assms(1) by (simp add: in_step_def)
  next
    fix ys x s
    assume "length ys < length xs" "in_step F (length ys) s \<and> snd s = mset (map f ys)"
    with insert_both_ok [of F "length ys" s "f x"] assms(2)
    show "\<exists>s'. insert_both (f x) s = Some s' \<and> in_step F (length (ys @ [x])) s' \<and> snd s' = mset (map f (ys @ [x]))" by auto
  qed
  then show ?thesis by (metis prod.collapse)
qed

lemma skipping: "for_each (\<lambda>i s. if i = v then Some s else f i s) xs s = for_each f (filter (\<lambda>i. i \<noteq> v) xs) s"
  by (induction xs arbitrary: s) simp_all

lemma dispose_in_step: "in_step F n s \<Longrightarrow> \<exists>c. dispose_avl (fst s) = Some c \<and> memory F c"
  unfolding in_step_def using dispose_avl_ok memory_empty by blast

lemma test_insert_at_ok:
  assumes m: "memory F m" and sz: "sz < 2 ^ 29"
  shows "\<exists>m'. test_insert_at sz v m = Some m' \<and> memory F m'"
proof -
  let ?xs = "filter (\<lambda>i. i \<noteq> v) [0..<sz]"
  have l: "length ?xs < 2 ^ 30" using length_filter_le [of "\<lambda>i. i \<noteq> v" "[0..<sz]"] sz by simp
  from inserts_ok [OF m l, of of_nat] obtain s where
    s: "for_each (\<lambda>i s. if i = v then Some s else insert_both (of_nat i) s) [0..<sz] (new_container m, {#}) = Some s"
      "in_step F (length ?xs) s"
    unfolding skipping by blast
  from insert_checked_ok [OF s(2) l, of "of_nat v"] obtain s' where
    s': "insert_checked (of_nat v) s = Some s'" "in_step F (Suc (length ?xs)) s'" by blast
  show ?thesis using s s' verify_in_step [OF s(2)] l dispose_in_step [OF s'(2)]
    by (auto simp: test_insert_at_def split: prod.splits)
qed

lemma test_insert_dup_at_ok:
  assumes m: "memory F m" and sz: "sz < 2 ^ 29"
  shows "\<exists>m'. test_insert_dup_at sz v m = Some m' \<and> memory F m'"
proof -
  have l: "length [0..<sz] < 2 ^ 30" using sz by simp
  from inserts_ok [OF m l, of of_nat] obtain s where
    s: "for_each (\<lambda>i. insert_both (of_nat i)) [0..<sz] (new_container m, {#}) = Some s" "in_step F (length [0..<sz]) s" by blast
  from insert_checked_ok [OF s(2) l, of "of_nat v"] obtain s' where
    s': "insert_checked (of_nat v) s = Some s'" "in_step F (Suc (length [0..<sz])) s'" by blast
  show ?thesis using s s' verify_in_step [OF s(2)] l dispose_in_step [OF s'(2)]
    by (auto simp: test_insert_dup_at_def split: prod.splits)
qed

lemma erase_all:
  assumes "distinct xs"
  shows "filter_mset (\<lambda>x. x \<noteq> v) (mset xs) = mset xs - {#v#}"
proof -
  have "filter (\<lambda>x. x \<noteq> v) xs = remove1 v xs" using distinct_remove1_removeAll [OF assms, of v] by (simp add: removeAll_filter_not_eq neq_commute)
  then have "mset (filter (\<lambda>x. x \<noteq> v) xs) = mset (remove1 v xs)" by simp
  then show ?thesis by (simp only: mset_filter mset_remove1)
qed

lemma test_remove_at_ok:
  assumes m: "memory F m" and sz: "sz < 2 ^ 29" and v: "v < sz"
  shows "\<exists>m'. test_remove_at sz v m = Some m' \<and> memory F m'"
proof -
  let ?xs = "map of_nat [0..<sz] :: u32 list"
  have "length [0..<sz] < 2 ^ 30" using sz by simp
  from inserts_ok [OF m this, of "of_nat :: nat \<Rightarrow> u32"] obtain c where
    c: "for_each (\<lambda>i. insert_both (of_nat i)) [0..<sz] (new_container m, {#}) = Some (c, mset ?xs)" "in_step F sz (c, mset ?xs)" by auto
  have "inj_on (of_nat :: nat \<Rightarrow> u32) {0..<sz}"
    using sz by (intro inj_onI) (simp add: of_nat_word_inj)
  then have er: "filter_mset (\<lambda>x. x \<noteq> of_nat v) (mset ?xs) = mset ?xs - {#of_nat v#}"
    by (intro erase_all) (simp add: distinct_map)
  have "holds F c (mset ?xs)" using c(2) by (simp add: in_step_def)
  from avl_del_ok [OF this, of "of_nat v"] v obtain c' where
    c': "avl_del (of_nat v) c = Some (c', True)" "holds F c' (mset ?xs - {#of_nat v#})" by auto
  have "in_step F sz (c', mset ?xs - {#of_nat v#})"
    using c' c(2) size_Diff_submset [of "{#of_nat v#}" "mset ?xs"] v by (simp add: in_step_def size_Diff_singleton)
  from verify_in_step [OF this] verify_in_step [OF c(2)] dispose_in_step [OF this] sz c(1) c'(1) er show ?thesis
    by (auto simp: test_remove_at_def simp del: mset_map)
qed

text \<open>Each of the tests gives the memory back as it was.\<close>

lemma loop_ok:
  assumes "memory F m" "\<And>x m. x \<in> set xs \<Longrightarrow> memory F m \<Longrightarrow> \<exists>m'. f x m = Some m' \<and> memory F m'"
  shows "\<exists>m'. for_each f xs m = Some m' \<and> memory F m'"
  by (rule for_each_inv [where P = "\<lambda>_ m. memory F m"]) (use assms in auto)

lemma round_ok:
  assumes "memory F m" "i < 2 ^ 29"
  shows "\<exists>m'. test_insert i m = Some m' \<and> memory F m'" "\<exists>m'. test_insert_dup i m = Some m' \<and> memory F m'"
    "\<exists>m'. test_remove i m = Some m' \<and> memory F m'"
  unfolding test_insert_def test_insert_dup_def test_remove_def
  by (intro loop_ok assms(1) test_insert_at_ok test_insert_dup_at_ok test_remove_at_ok assms(2); simp)+

lemma checked_ok:
  assumes "in_step F n s" "n + length xs < 2 ^ 30"
  shows "\<exists>s'. for_each (\<lambda>i. insert_checked (f i)) xs s = Some s' \<and> in_step F (n + length xs) s'"
proof (rule for_each_inv)
  show "in_step F (n + length []) s" using assms(1) by simp
next
  fix ys :: "'a list" and x s
  assume "length ys < length xs" "in_step F (n + length ys) s"
  with insert_checked_ok [of F "n + length ys" s "f x"] assms(2)
  show "\<exists>s'. insert_checked (f x) s = Some s' \<and> in_step F (n + length (ys @ [x])) s'" by simp
qed

lemma delete_random_ok:
  assumes "in_step F n s" "n < 2 ^ 30"
  shows "\<exists>s'. delete_random v s = Some s' \<and> in_step F n s'"
proof -
  obtain c rf where s: "s = (c, rf)" by fastforce
  with assms have h: "holds F c rf" "size rf \<le> n" by (simp_all add: in_step_def)
  from avl_del_ok [OF h(1), of v] obtain c' where c': "avl_del v c = Some (c', v \<in># rf)" "holds F c' (rf - {#v#})" by blast
  have "(if v \<in># rf then rf - {#v#} else rf) = rf - {#v#}" by simp
  moreover have "in_step F n (c', rf - {#v#})" using c'(2) h(2) by (auto simp: in_step_def size_Diff_singleton_if)
  ultimately show ?thesis using c'(1) verify_in_step [of F n "(c', rf - {#v#})"] assms(2) by (simp add: delete_random_def s Let_def)
qed

lemma inner_tests_ok:
  assumes "holds F c rf"
  shows "\<exists>m. for_each (\<lambda>i m. do { m \<leftarrow> test_insert i m; m \<leftarrow> test_insert_dup i m; test_remove i m }) [0..<200] c = Some m
    \<and> holds F (m\<lparr>t_root := t_root c\<rparr>) rf"
proof -
  let ?F = "(t_nodes c, t_vals c)"
  have ok: "\<exists>m'. (do { m \<leftarrow> test_insert i m; m \<leftarrow> test_insert_dup i m; test_remove i m }) = Some m' \<and> memory ?F m'"
    if "i \<in> set [0..<200]" "memory ?F m" for i m
  proof -
    from that(1) have i: "i < 2 ^ 29" by simp
    from round_ok(1) [OF that(2) i] obtain m1 where m1: "test_insert i m = Some m1" "memory ?F m1" by blast
    from round_ok(2) [OF m1(2) i] obtain m2 where m2: "test_insert_dup i m1 = Some m2" "memory ?F m2" by blast
    from round_ok(3) [OF m2(2) i] m1(1) m2(1) show ?thesis by simp
  qed
  have "\<exists>m. for_each (\<lambda>i m. do { m \<leftarrow> test_insert i m; m \<leftarrow> test_insert_dup i m; test_remove i m }) [0..<200] c = Some m
      \<and> memory ?F m"
    by (rule loop_ok [OF memory_holds [OF assms] ok])
  then show ?thesis using back_to [OF assms] by blast
qed

theorem main_test_avl_passes: "\<exists>c. main_test_avl rand = Some c \<and> t_nodes c = Map.empty \<and> t_vals c = Map.empty"
proof -
  from avl_add_ok [OF tree0_holds, of 123] obtain c1 where c1: "avl_add 123 tree0 = Some c1" "holds no_mem c1 {#123#}" by auto
  from avl_del_ok [OF c1(2), of 124] obtain c2 where c2: "avl_del 124 c1 = Some (c2, False)" "holds no_mem c2 {#123#}" by auto
  from avl_del_ok [OF c2(2), of 123] obtain c3 where c3: "avl_del 123 c2 = Some (c3, True)" "holds no_mem c3 {#}" by auto
  have v: "container_verify tree0 {#} = Some ()" "container_verify c1 {#123#} = Some ()" "container_verify c3 {#} = Some ()"
    using container_verify_ok [OF tree0_holds] container_verify_ok [OF c1(2)] container_verify_ok [OF c3(2)] by simp_all
  have 3: "in_step no_mem 0 (c3, {#})" using c3(2) by (simp add: in_step_def)
  from checked_ok [OF 3, of "[0..<334]" "\<lambda>k. 3 * of_nat k"] obtain s1 where
    s1: "for_each (\<lambda>k. insert_checked (3 * of_nat k)) [0..<334] (c3, {#}) = Some s1" "in_step no_mem 334 s1" by auto
  from checked_ok [OF s1(2), of "[0..<100]" "\<lambda>i. rand i mod 1000"] obtain s2 where
    s2: "for_each (\<lambda>i. insert_checked (rand i mod 1000)) [0..<100] s1 = Some s2" "in_step no_mem 434 s2" by auto
  have "\<exists>s. for_each (\<lambda>i. delete_random (rand (100 + i) mod 1000)) [0..<200] s2 = Some s \<and> in_step no_mem 434 s"
    by (rule for_each_inv [where P = "\<lambda>_. in_step no_mem 434"]) (use s2(2) delete_random_ok in auto)
  then obtain c4 rf where s3: "for_each (\<lambda>i. delete_random (rand (100 + i) mod 1000)) [0..<200] s2 = Some (c4, rf)"
      "in_step no_mem 434 (c4, rf)"
    by (metis prod.collapse)
  then have "holds no_mem c4 rf" by (simp add: in_step_def)
  from inner_tests_ok [OF this] obtain m where
    m: "for_each (\<lambda>i m. do { m \<leftarrow> test_insert i m; m \<leftarrow> test_insert_dup i m; test_remove i m }) [0..<200] c4 = Some m"
      "holds no_mem (m\<lparr>t_root := t_root c4\<rparr>) rf" by blast
  from dispose_avl_ok [OF m(2)] obtain c where "dispose_avl (m\<lparr>t_root := t_root c4\<rparr>) = Some c" "holds no_mem c {#}" by blast
  moreover from this(2) have "t_nodes c = Map.empty" "t_vals c = Map.empty" by (simp_all add: holds_none)
  ultimately show ?thesis
    using c1(1) c2(1) c3(1) v s1(1) s2(1) s3(1) m(1)
    by (intro exI [of _ c]) (simp add: main_test_avl_def del: upt_conv_Cons_Cons)
qed

text \<open>
  What the checks miss: a tree in which each number agrees with those of the children and the contents are
  right, but the order of the whole tree is not, so that a number it contains is not found.
\<close>

definition misordered :: avl_container where
  "misordered = \<lparr>t_root = Some 1,
     t_nodes = [1 \<mapsto> node_rec None \<langle>\<langle>\<rangle>, 2, \<langle>\<langle>\<rangle>, 3, \<langle>\<rangle>\<rangle>\<rangle> \<langle>\<langle>\<rangle>, 4, \<langle>\<rangle>\<rangle>, 2 \<mapsto> node_rec (Some 1) \<langle>\<rangle> \<langle>\<langle>\<rangle>, 3, \<langle>\<rangle>\<rangle>,
       3 \<mapsto> node_rec (Some 2) \<langle>\<rangle> \<langle>\<rangle>, 4 \<mapsto> node_rec (Some 1) \<langle>\<rangle> \<langle>\<rangle>],
     t_vals = [1 \<mapsto> 5, 2 \<mapsto> 3, 3 \<mapsto> 9, 4 \<mapsto> 7], t_brk = 5\<rparr>"

lemma verify_misses_order:
  "container_verify misordered {#3, 9, 5, 7#} = Some ()" "avl_del 9 misordered = Some (misordered, False)"
  by (simp_all add: misordered_def container_verify_def avl_verify.simps verify_link_def extract_vals.simps avl_del_def
      del_search.simps node_rec_def eval_simps add_mset_commute)

end
