(* ===== verification/Test_Offset.thy ===== *)
theory Test_Offset
  imports Test_AVL
begin

text \<open>
  The unit test of \<open>avl_offset\<close>, \<open>tests/test_offset.cpp\<close>, on the objects of \<open>Test_AVL\<close>. The test fills a
  tree with the numbers below a size and walks from every node to every other and off both ends. Its own
  insertion is equal to that of \<open>test_avl.cpp\<close>; the program runs to its end without a failed assertion and
  frees every object.
\<close>

section \<open>Model\<close>

text \<open>The loop of \<open>add\<close> from a node down to a free child.\<close>

partial_function (option) off_slot :: "avl_container \<Rightarrow> u32 \<Rightarrow> addr \<Rightarrow> (addr \<times> slot) option" where
  "off_slot c v cur = do {
     cur_val \<leftarrow> t_vals c cur;
     child \<leftarrow> (if v < cur_val then rd (t_nodes c) left_p cur else rd (t_nodes c) right_p cur);
     (case child of
        None \<Rightarrow> Some (cur, if v < cur_val then LeftOf cur else RightOf cur)
      | Some b \<Rightarrow> off_slot c v b)
   }"

declare off_slot.simps [code]

definition off_add :: "u32 \<Rightarrow> avl_container \<Rightarrow> avl_container option" where
  "off_add v c = do {
     (c, a) \<leftarrow> new_data v c;
     (case t_root c of
        None \<Rightarrow> Some (c\<lparr>t_root := Some a\<rparr>)
      | Some cur \<Rightarrow> do {
          (cur, from) \<leftarrow> off_slot c v cur;
          (h, _) \<leftarrow> put_slot (t_nodes c) (t_root c) from (Some a);
          h \<leftarrow> wr h a (\<lambda>n. n\<lparr>parent_p := Some cur\<rparr>);
          (h, root) \<leftarrow> avl_fix_tree h a;
          Some (c\<lparr>t_nodes := h, t_root := root\<rparr>)
        })
   }"

partial_function (option) dispose_off :: "avl_container \<Rightarrow> ptr \<Rightarrow> avl_container option" where
  "dispose_off c node =
     (case node of
        None \<Rightarrow> Some c
      | Some a \<Rightarrow> do {
          l \<leftarrow> rd (t_nodes c) left_p a;
          c \<leftarrow> dispose_off c l;
          r \<leftarrow> rd (t_nodes c) right_p a;
          c \<leftarrow> dispose_off c r;
          delete_data c a
        })"

declare dispose_off.simps [code]

text \<open>
  A step of \<open>avl_offset\<close> that must reach the node with number \<open>j\<close>; the argument is converted to the
  \<open>int32_t\<close> of the parameter.
\<close>

definition walk_to :: "avl_container \<Rightarrow> addr \<Rightarrow> int \<Rightarrow> nat \<Rightarrow> addr option" where
  "walk_to c node offset j = do {
     res \<leftarrow> avl_offset (t_nodes c) (Some node) (int32_of offset);
     b \<leftarrow> res;
     v \<leftarrow> t_vals c b;
     assertion (v = of_nat j);
     Some b
   }"

definition walk_off :: "avl_container \<Rightarrow> addr \<Rightarrow> int \<Rightarrow> unit option" where
  "walk_off c node offset = do {
     res \<leftarrow> avl_offset (t_nodes c) (Some node) (int32_of offset);
     assertion (res = None)
   }"

definition test_case_offset :: "nat \<Rightarrow> avl_container \<Rightarrow> avl_container option" where
  "test_case_offset sz m = do {
     c \<leftarrow> for_each (\<lambda>i. off_add (of_nat i)) [0..<sz] (new_container m);
     root \<leftarrow> t_root c;
     mn \<leftarrow> leftmost (t_nodes c) root;
     _ \<leftarrow> for_each (\<lambda>i _. do {
         node \<leftarrow> walk_to c mn (int i) i;
         _ \<leftarrow> for_each (\<lambda>j _. do { _ \<leftarrow> walk_to c node (int j - int i) j; Some () }) [0..<sz] ();
         _ \<leftarrow> walk_off c node (- int i - 1);
         walk_off c node (uint (of_nat sz - of_nat i :: u32))
       }) [0..<sz] ();
     dispose_off c (t_root c)
   }"

definition main_test_offset :: "avl_container option" where
  "main_test_offset = for_each test_case_offset [1..<500] tree0"

section \<open>Insertion\<close>

lemma off_slot_at:
  assumes "tree_at (t_nodes c) par t" "t \<noteq> \<langle>\<rangle>" "set_tree t \<subseteq> dom (t_vals c)"
  shows "\<exists>q s. off_slot c v (the (root_ptr t)) = Some (q, s) \<and> add_slot c v (root_ptr t) cur from = Some (Some q, s)"
  using assms
proof (induction t arbitrary: par cur "from")
  case (Node l a r)
  obtain w where w: "t_vals c a = Some w" using Node.prems(3) by auto
  define u where "u = (if v < w then l else r)"
  let ?s = "if v < w then LeftOf a else RightOf a"
  have at: "tree_at (t_nodes c) (Some a) u" "set_tree u \<subseteq> dom (t_vals c)" using Node.prems by (auto simp: u_def)
  have off: "off_slot c v a = (case root_ptr u of None \<Rightarrow> Some (a, ?s) | Some b \<Rightarrow> off_slot c v b)"
    using Node.prems(1) w by (subst off_slot.simps) (simp add: u_def)
  have add: "add_slot c v (Some a) cur from = add_slot c v (root_ptr u) (Some a) ?s"
    using Node.prems(1) w by (subst add_slot.simps) (simp add: u_def)
  show ?case
  proof (cases "u = \<langle>\<rangle>")
    case True
    then show ?thesis using off add by (simp add: add_slot.simps)
  next
    case False
    have "\<exists>q s. off_slot c v (the (root_ptr u)) = Some (q, s) \<and> add_slot c v (root_ptr u) (Some a) ?s = Some (Some q, s)"
      using Node.IH at False by (auto simp: u_def split: if_splits)
    then show ?thesis using off add False by (cases u) auto
  qed
qed simp

lemma off_add_eq:
  assumes "holds F c M"
  shows "off_add v c = avl_add v c"
proof -
  from assms obtain t where "holds_tree F c t" by (auto simp: holds_def)
  note i = this [unfolded holds_tree_def]
  let ?a = "t_brk c" and ?n = "\<lparr>parent_p = None, left_p = None, right_p = None, height_u = 1, cnt_u = 1\<rparr>"
  let ?c = "c\<lparr>t_nodes := (t_nodes c)(?a \<mapsto> ?n), t_vals := (t_vals c)(?a \<mapsto> v), t_brk := ?a + 1\<rparr>"
  have new: "new_data v c = Some (?c, ?a)" by (simp add: new_data_def avl_init_def Let_def)
  show ?thesis
  proof (cases "t = \<langle>\<rangle>")
    case True
    then have "t_root c = None" using i by simp
    then show ?thesis using new
      by (simp add: off_add_def avl_add_def add_slot.simps avl_fix_tree.simps avl_update_stats_def avl_height_def avl_cnt_def max_u32_def)
  next
    case False
    then obtain a where a: "root_ptr t = Some a" by (cases t) auto
    have "?a \<notin> set_tree t" using i by blast
    then have "tree_at (t_nodes ?c) None t" "set_tree t \<subseteq> dom (t_vals ?c)" using i by auto
    from off_slot_at [OF this(1) False this(2), of v None Var] a obtain q s where
      "off_slot ?c v a = Some (q, s)" "add_slot ?c v (Some a) None Var = Some (Some q, s)" by auto
    then show ?thesis using new a i by (simp add: off_add_def avl_add_def)
  qed
qed

section \<open>Disposal\<close>

lemma dispose_off_at:
  assumes "tree_at (t_nodes c) par t" "distinct (inorder t)" "set_tree t \<subseteq> dom (t_vals c)"
  shows "\<exists>c'. dispose_off c (root_ptr t) = Some c' \<and> t_nodes c' = t_nodes c |` (- set_tree t) \<and> t_vals c' = t_vals c |` (- set_tree t)
    \<and> t_brk c' = t_brk c"
  using assms
proof (induction t arbitrary: c par)
  case Leaf
  then show ?case by (subst dispose_off.simps) (simp add: restrict_map_def)
next
  case (Node l a r)
  have dis: "set_tree l \<inter> set_tree r = {}" "a \<notin> set_tree l" "a \<notin> set_tree r" using Node.prems(2) by auto
  from Node.IH(1) [of c "Some a"] Node.prems obtain c1 where
    c1: "dispose_off c (root_ptr l) = Some c1" "t_nodes c1 = t_nodes c |` (- set_tree l)" "t_vals c1 = t_vals c |` (- set_tree l)"
      "t_brk c1 = t_brk c"
    by auto
  have "tree_at (t_nodes c1) (Some a) r"
    using Node.prems(1) c1(2) dis by (subst tree_at_cong [of r "t_nodes c1" "t_nodes c"]) (auto simp: restrict_map_def)
  moreover have "set_tree r \<subseteq> dom (t_vals c1)" using Node.prems(3) c1(3) dis by auto
  ultimately obtain c2 where
    c2: "dispose_off c1 (root_ptr r) = Some c2" "t_nodes c2 = t_nodes c1 |` (- set_tree r)" "t_vals c2 = t_vals c1 |` (- set_tree r)"
      "t_brk c2 = t_brk c1"
    using Node.IH(2) [of c1 "Some a"] Node.prems(2) by auto
  have n: "t_nodes c a = Some (node_rec par l r)" "t_nodes c1 a = Some (node_rec par l r)" using Node.prems(1) c1(2) dis by auto
  obtain w where "t_vals c2 a = Some w" using Node.prems(3) c1(3) c2(3) dis by auto
  then have d: "delete_data c2 a = Some (c2\<lparr>t_nodes := (t_nodes c2)(a := None), t_vals := (t_vals c2)(a := None)\<rparr>)"
    by (simp add: delete_data_def)
  have "dispose_off c (root_ptr \<langle>l, a, r\<rangle>) = Some (c2\<lparr>t_nodes := (t_nodes c2)(a := None), t_vals := (t_vals c2)(a := None)\<rparr>)"
    using n c1(1) c2(1) d by (subst dispose_off.simps) simp
  then show ?case using c1(2-4) c2(2-4) by (auto simp: restrict_map_def fun_eq_iff)
qed

section \<open>The test passes\<close>

lemma off_fill:
  assumes "memory F m" "length xs < 2 ^ 31"
  shows "\<exists>c. for_each (\<lambda>i. off_add (f i)) xs (new_container m) = Some c \<and> holds F c (mset (map f xs))"
proof (rule for_each_inv)
  show "holds F (new_container m) (mset (map f []))" using assms(1) by simp
next
  fix ys x c
  assume "length ys < length xs" "holds F c (mset (map f ys))"
  with avl_add_ok [of F c "mset (map f ys)" "f x"] off_add_eq [of F c "mset (map f ys)"] assms(2)
  show "\<exists>c'. off_add (f x) c = Some c' \<and> holds F c' (mset (map f (ys @ [x])))" by auto
qed

lemma sorted_words:
  assumes "sz \<le> 2 ^ 32"
  shows "sorted (map (of_nat :: nat \<Rightarrow> u32) [0..<sz])"
  unfolding sorted_map
proof (rule sorted_wrt_mono_rel [OF _ sorted_wrt_upt])
  fix x y assume "x \<in> set [0..<sz]" "y \<in> set [0..<sz]" "x < y"
  with assms show "(of_nat x :: u32) \<le> of_nat y" by (simp add: word_le_nat_alt of_nat_inverse)
qed

text \<open>The tree that the test has built: the node at a position of the sequence has the position as its number.\<close>

lemma numbered:
  assumes "holds F c (mset (map of_nat [0..<sz]))" "sz \<le> 2 ^ 32"
  shows "\<exists>t. holds_tree F c t \<and> size t = sz \<and> (\<forall>i < sz. t_vals c (inorder t ! i) = Some (of_nat i))"
proof -
  from assms(1) obtain t where t: "holds_tree F c t" "mset (map (num c) (inorder t)) = mset (map of_nat [0..<sz])"
    by (auto simp: holds_def)
  then have "map (num c) (inorder t) = map of_nat [0..<sz]"
    using properties_for_sort [OF t(2)] properties_for_sort [OF refl sorted_words [OF assms(2)]] by (simp add: holds_tree_def)
  moreover from this have sz: "size t = sz" by (metis length_inorder length_map length_upt diff_zero)
  ultimately have "num c (inorder t ! i) = of_nat i" if "i < sz" for i
    using that nth_map [of i "inorder t" "num c"] by simp
  moreover have "inorder t ! i \<in> set_tree t" if "i < sz" for i using that sz by (metis nth_mem length_inorder set_inorder)
  ultimately have "t_vals c (inorder t ! i) = Some (of_nat i)" if "i < sz" for i using vals_num [OF t(1)] that by metis
  with t(1) sz show ?thesis by blast
qed

lemma walk_to_ok:
  assumes t: "holds_tree F c t" "size t = sz" "\<forall>i < sz. t_vals c (inorder t ! i) = Some (of_nat i)"
    and ij: "i < sz" "j < sz" and sz: "sz < 2 ^ 31"
  shows "walk_to c (inorder t ! i) (int j - int i) j = Some (inorder t ! j)"
proof -
  have "int32_of (int j - int i) = int j - int i" using ij sz by (intro int32_of_id) auto
  then have "avl_offset (t_nodes c) (Some (inorder t ! i)) (int32_of (int j - int i)) = Some (Some (inorder t ! j))"
    using avl_offset_at [of "t_nodes c" t i "int j - int i"] t(1,2) ij by (simp add: holds_tree_def target_def)
  with t(3) ij show ?thesis by (simp add: walk_to_def)
qed

lemma walk_off_ok:
  assumes t: "holds_tree F c t" "size t = sz" and i: "i < sz" and sz: "sz < 2 ^ 31" and d: "d = - int i - 1 \<or> d = int sz - int i"
  shows "walk_off c (inorder t ! i) d = Some ()"
proof -
  have "int32_of d = d" using i sz d by (intro int32_of_id) auto
  then have "avl_offset (t_nodes c) (Some (inorder t ! i)) (int32_of d) = Some None"
    using avl_offset_at [of "t_nodes c" t i d] t i d by (auto simp: holds_tree_def target_def)
  then show ?thesis by (simp add: walk_off_def)
qed

lemma test_case_offset_ok:
  assumes m: "memory F m" and sz: "0 < sz" "sz < 2 ^ 31"
  shows "\<exists>m'. test_case_offset sz m = Some m' \<and> memory F m'"
proof -
  have "length [0..<sz] < 2 ^ 31" using sz by simp
  from off_fill [OF m this, of of_nat] obtain c where
    c: "for_each (\<lambda>i. off_add (of_nat i)) [0..<sz] (new_container m) = Some c" "holds F c (mset (map of_nat [0..<sz]))" by blast
  from numbered [OF c(2)] sz obtain t where
    t: "holds_tree F c t" "size t = sz" "\<forall>i < sz. t_vals c (inorder t ! i) = Some (of_nat i)" by auto
  note i = t(1) [unfolded holds_tree_def]
  obtain root where root: "root_ptr t = Some root" using t(2) sz(1) by (cases t) auto
  from leftmost_at [of "t_nodes c" None t root] i root obtain D v vr where
    v: "leftmost (t_nodes c) root = Some v" "t = fill D \<langle>\<langle>\<rangle>, v, vr\<rangle>" "ctx_pre D = []" by blast
  then have mn: "leftmost (t_nodes c) root = Some (inorder t ! 0)" by (simp add: inorder_fill)
  have "(do {
         node \<leftarrow> walk_to c (inorder t ! 0) (int i) i;
         _ \<leftarrow> for_each (\<lambda>j _. do { _ \<leftarrow> walk_to c node (int j - int i) j; Some () }) [0..<sz] ();
         _ \<leftarrow> walk_off c node (- int i - 1);
         walk_off c node (uint (of_nat sz - of_nat i :: u32))
       }) = Some ()" if "i < sz" for i
  proof -
    have "walk_to c (inorder t ! 0) (int i) i = Some (inorder t ! i)" using walk_to_ok [OF t, of 0 i] sz that by simp
    moreover have "for_each (\<lambda>j _. do { _ \<leftarrow> walk_to c (inorder t ! i) (int j - int i) j; Some () }) [0..<sz] () = Some ()"
      unfolding for_each_unit using walk_to_ok [OF t that] sz(2) by simp
    moreover have "walk_off c (inorder t ! i) (- int i - 1) = Some ()" "walk_off c (inorder t ! i) (int sz - int i) = Some ()"
      using walk_off_ok [OF t(1,2) that sz(2)] by blast+
    moreover have "uint (of_nat sz - of_nat i :: u32) = int sz - int i"
      using that sz by (simp add: uint_nat unat_sub word_le_nat_alt of_nat_inverse)
    ultimately show ?thesis by (simp only: Option.bind.simps)
  qed
  then have loop: "for_each (\<lambda>i _. do {
         node \<leftarrow> walk_to c (inorder t ! 0) (int i) i;
         _ \<leftarrow> for_each (\<lambda>j _. do { _ \<leftarrow> walk_to c node (int j - int i) j; Some () }) [0..<sz] ();
         _ \<leftarrow> walk_off c node (- int i - 1);
         walk_off c node (uint (of_nat sz - of_nat i :: u32))
       }) [0..<sz] () = Some ()" unfolding for_each_unit by simp
  from dispose_off_at [of c None t] i obtain c' where
    c': "dispose_off c (root_ptr t) = Some c'" "t_nodes c' = t_nodes c |` (- set_tree t)" "t_vals c' = t_vals c |` (- set_tree t)"
      "t_brk c' = t_brk c"
    by (auto simp: fits_def)
  then have "memory F c'" using i unfolding memory_iff by auto
  moreover have "test_case_offset sz m = Some c'"
  proof -
    have "t_root c = Some root" using i root by simp
    then show ?thesis unfolding test_case_offset_def using c(1) mn loop c'(1) root by (simp only: Option.bind.simps)
  qed
  ultimately show ?thesis by blast
qed

theorem main_test_offset_passes: "\<exists>c. main_test_offset = Some c \<and> t_nodes c = Map.empty \<and> t_vals c = Map.empty"
proof -
  have "\<exists>m. for_each test_case_offset [1..<500] tree0 = Some m \<and> memory no_mem m"
  proof (rule loop_ok)
    show "memory no_mem tree0" by (rule memory_empty [OF tree0_holds])
  qed (auto intro: test_case_offset_ok)
  then show ?thesis unfolding main_test_offset_def memory_iff by auto
qed

end
