(* ===== verification/Spec2Isabelle.thy ===== *)
theory Spec2Isabelle
  imports Scripts Server_Log Test_Heap Test_Offset
begin

text \<open>
  A verification of the key-value server under \<open>src/\<close>: a Redis-like server with a binary request
  protocol, an event loop over \<open>poll\<close>, string keys, sorted sets and key expiry, and its client.

  \<^bold>\<open>The program.\<close> \<open>server.cpp\<close> polls the listening socket and all connections. A readable connection
  (\<open>net/netio.cpp\<close>) appends the bytes to its buffer, cuts complete frames off it, parses each
  (\<open>net/protocol.cpp\<close>), runs it (\<open>storage/commands.cpp\<close>, \<open>storage/sorted_set.cpp\<close>) and appends one
  response frame (\<open>net/serialize.cpp\<close>). The database is a hash map of entries
  (\<open>storage/hashtable.cpp\<close>); a sorted set is a second hash map by name and an AVL tree by score
  (\<open>storage/avl_tree.cpp\<close>) over the same nodes; deadlines of keys are in an array heap
  (\<open>storage/heap.cpp\<close>), idle connections in a linked list (\<open>storage/list.h\<close>); both timers are run at
  the end of each pass (\<open>core/sys_server.cpp\<close>). Large sets are meant to be freed by a pool of worker
  threads (\<open>core/thread_pool.cpp\<close>). \<open>client.cpp\<close> sends the words of a line as one request and prints
  the response.

  \<^bold>\<open>Theories\<close>, in the order of the dependencies, each definition named after its source:
  \<^item> \<open>Prelude\<close>: machine types, bounds-checked vectors, stores of objects, assertions; the locales \<open>machine\<close> (an
    invariant of a step relation; the server's turns) and \<open>progress_machine\<close> (every step lowers a
    measure and a run can end only at its goal; the thread pool).
  \<^item> \<open>Buffer_IO\<close>: \<open>core/buffer_io.h\<close>, \<open>core/constants.h\<close>, \<open>net/serialize.*\<close>; the values \<open>resp\<close> and their
    encoding \<open>ser\<close>; the locale \<open>byte_codec\<close> for little-endian integers.
  \<^item> \<open>Printf\<close>: the number formats of \<open>printf\<close>, and \<open>Decimal\<close>: \<open>%g\<close> and \<open>strtod\<close> invert each other on six
    significant digits.
  \<^item> \<open>Protocol\<close>: \<open>parse_request\<close>, the client's encoder and the blocking transfers \<open>read_all\<close> and
    \<open>write_all\<close>; the locale \<open>argv_codec\<close>. \<open>Client\<close>: \<open>print_response\<close> and \<open>read_response\<close>. \<open>Repl\<close>: the
    prompt loop of \<open>main\<close> in \<open>client.cpp\<close>.
  \<^item> \<open>Min_Heap\<close>: \<open>storage/heap.*\<close> with the back references; the locale \<open>indexed_pq\<close>.
  \<^item> \<open>AVL_Tree\<close> (the model of \<open>storage/avl_tree.*\<close> on a store of nodes), \<open>AVL_Shape\<close> (the store as a
    tree with a hole, rotations and \<open>avl_fix_tree\<close>), \<open>AVL_Ops\<close> (insertion, deletion, offset).
  \<^item> \<open>Hashtable\<close> (the model of \<open>storage/hashtable.*\<close>), \<open>Hash_Map\<close> (chains, the migration between the
    two tables, all operations; the locale \<open>node_map\<close>).
  \<^item> \<open>Common\<close>: \<open>core/common.h\<close> with the used parts of \<open>strtoll\<close> and \<open>strtod\<close>.
  \<^item> \<open>Sorted_Set\<close>, \<open>Zset_Ops\<close>: \<open>storage/sorted_set.*\<close> below the command handlers.
  \<^item> \<open>Commands\<close>: \<open>storage/commands.*\<close> and the handlers of \<open>sorted_set.cpp\<close>, up to \<open>run_request\<close>.
  \<^item> \<open>Database\<close>: the abstract database \<open>adb\<close>, a map from keys to entries with type, value, ordered
    list of (score, name) pairs and deadline; \<open>run_spec\<close>, what each command does to it; the
    representation \<open>server_ok\<close>. \<open>Refinement\<close>: every handler implements its specification. \<open>Bounds\<close>: the
    size of the database and of the answers.
  \<^item> \<open>DList\<close>: \<open>storage/list.h\<close>; the locale \<open>activity_list\<close>.
  \<^item> \<open>Netio\<close>: \<open>net/netio.*\<close>; \<open>split_frames\<close> cuts a stream into frames and \<open>serves\<close> is what a sequence
    of requests does to the abstract database. \<open>Exchange\<close>: client and server together.
  \<^item> \<open>Timers\<close>: expiry of keys. \<open>Event_Loop\<close>: \<open>server.cpp\<close>, the timers and \<open>handle_destroy\<close> on the whole
    server state \<open>world\<close>. \<open>Event_Ops\<close>: the invariant \<open>net_inv\<close> of connections, descriptor table and
    idle list. \<open>Server_Loop\<close>: the server as a state machine that simulates the abstract database.
  \<^item> \<open>Thread_Pool\<close>: \<open>core/thread_pool.*\<close> as a transition system. \<open>Sys\<close>: \<open>core/sys.cpp\<close>; a procedure that
    only calls the system is the list of its calls with its result.
  \<^item> \<open>Session\<close>: any number of passes of the loop, with the history of the bytes on every connection, and
    the sequential execution that explains it. \<open>Startup\<close>: the two \<open>main\<close> functions, call by call.
    \<open>Dialogue\<close>: a client at its prompt and the server behind it. \<open>Scripts\<close>: the regression scripts under
    \<open>tests/\<close>, typed line by line into the models of both programs. \<open>Server_Log\<close>: the handlers again with
    the messages they print.
  \<^item> \<open>Test_Heap\<close>, \<open>Test_AVL\<close>, \<open>Test_Offset\<close>: the unit tests \<open>tests/test_heap.cpp\<close>, \<open>tests/test_avl.cpp\<close> and
    \<open>tests/test_offset.cpp\<close> as programs over the models of heap and tree, which return the memory they leave.

  \<^bold>\<open>Correspondence.\<close> A function of the source is a function of the state it reads and writes; each kind
  of object has its own store from addresses to records, intrusive nodes share the address of their
  object, \<open>NULL\<close> is \<open>None\<close>. The result \<open>None\<close> of a function stands for a failed \<open>assert\<close>, an access
  through \<open>NULL\<close> or outside an array or a freed object, a \<open>die\<close>, and a loop that does not end: loops
  whose end is not structural are \<open>partial_function (option)\<close> and need no fuel. A theorem that a call
  yields \<open>Some\<close> thus states termination and memory safety. \<open>server\<close> and \<open>world\<close> together are
  \<open>ServerData\<close>; a \<open>double\<close> is its 64 bits.

  \<^bold>\<open>What the theorems show.\<close> For the server: every run, under every behaviour of the kernel that the
  system calls document, is explained by one sequential execution of requests and expiries on the
  abstract database; on each connection its requests are the frames received and the bytes sent are
  their answers, in order, however the streams are cut; each pass keeps the invariants and leaves
  idle connections alone. A client prints the answers of that sequential execution to the words typed; its text is
  modelled byte for byte, and the regression scripts of the repository print what they expect. Every
  message of the server about a connection is true. Both programs reach their loops exactly when the
  calls of their set-up succeed. For the components: each operation of heap, tree, map, list,
  set and pool keeps its invariant and refines the operation it is named after; every run of the pool
  without new submissions finishes all its jobs; the unit tests pass and free all their objects. The
  abort at the 32nd entry of a map is part of the specification (\<open>full\<close>), and it is shown that nothing else makes a
  request fail. Some theorems state defects: the dropped root of \<open>avl_search_and_insert\<close>, the overrun
  in the client, the truncated time-out, the empty number.

  \<^bold>\<open>Hypotheses and bounds.\<close> A read returns at most 64 KB (\<open>read_fits\<close>), \<open>accept\<close> returns a descriptor
  that is not open (\<open>fd_free\<close>), \<open>poll\<close> does not fail fatally (\<open>poll_allowed\<close>), clock readings do not
  decrease and stay 15 s below \<open>2 ^ 64\<close> ms (\<open>no_overflow\<close>). \<open>msec_exact\<close> and \<open>msec_mono\<close> in \<open>Sys\<close>
  give the last two for the clock of the source. \<open>kernel_ok\<close> collects these promises for a run. The general theorems on the map hold below \<open>2 ^ 59\<close> nodes, on the heap below
  \<open>2 ^ 62\<close> items, on the tree below \<open>2 ^ 32\<close> nodes, so that the sizes the source computes do not wrap.
  Inside the server these bounds always hold, as no map grows beyond 31 nodes.

  \<^bold>\<open>Not modelled.\<close> Allocation is assumed to succeed and freed addresses are not reused. The NUL byte
  that \<open>znode_new\<close> writes behind the name is outside the model of names as byte lists. The pool and the
  database are not run against each other: a job is queued only for a set of more than 1000 members,
  which cannot exist. The text of the format \<open>%p\<close>, in a warning that is never printed, is a parameter.
\<close>

unbundle bit_operations_syntax

section \<open>Whole runs\<close>

text \<open>
  C1. Every run of the server, for any number of passes and any behaviour of the kernel that
  the system calls document, is explained by one sequence of requests and expiries executed one after
  the other on the abstract database. On every connection the requests of the sequence are exactly the
  frames received there, in order, and the bytes sent are the start of their answers, in order; for an
  open connection the rest of both streams is in its buffers. Whatever happens later only prolongs the
  sequence. The process stops only when the sequence reaches a database on which a request aborts.
\<close>

theorem server_linearizable:
  assumes "server_start = Some w0" "kernel_ok w0 t0 ps"
  shows "case traced_run w0 ps of
      None \<Rightarrow> run_loop w0 ps = None \<and> (\<exists>ops A. serial Map.empty ops A \<and> crashes A)
    | Some (w, tr) \<Rightarrow> run_loop w0 ps = Some w \<and>
        (\<exists>ops A. serial Map.empty ops A \<and> db_ok (srv w) A \<and> (\<forall>a. conversation tr ops a (conns w a)) \<and>
          (\<forall>qs w' tr'. kernel_ok w (last_time t0 ps) qs \<and> traced_run w qs = Some (w', tr') \<longrightarrow>
            (\<exists>ops' A'. serial A ops' A' \<and> (\<forall>a. conversation (tr @ tr') (ops @ ops') a (conns w' a)))))"
proof -
  have run: "run_ok (last_time t0 ps) Map.empty [] [] (traced_run w0 ps)"
    by (rule run_from_start [OF assms])
  show ?thesis
  proof (cases "traced_run w0 ps")
    case None
    with run traced_run_erase [of w0 ps, symmetric] show ?thesis by (auto simp: run_ok_def)
  next
    case (Some x)
    obtain w tr where x: "x = (w, tr)" by fastforce
    from run Some x obtain ops A where
      s: "serial Map.empty ops A" "world_ok (last_time t0 ps) w A" "session w tr ops" by (auto simp: run_ok_def)
    have "\<exists>ops' A'. serial A ops' A' \<and> (\<forall>a. conversation (tr @ tr') (ops @ ops') a (conns w' a))"
      if "kernel_ok w (last_time t0 ps) qs" "traced_run w qs = Some (w', tr')" for qs w' tr'
      using traced_run_ok [OF s(2,3) that(1)] that(2) by (auto simp: run_ok_def session_def)
    moreover have "run_loop w0 ps = Some w" using traced_run_erase [of w0 ps, symmetric] Some x by simp
    moreover have "db_ok (srv w) A" "\<forall>a. conversation tr ops a (conns w a)"
      using s(2,3) by (simp_all add: world_ok_def session_def)
    ultimately show ?thesis
      unfolding Some x option.case prod.case using s(1) by (intro conjI exI [of _ ops] exI [of _ A]) auto
  qed
qed

theorem server_linearizable_witness:
  "\<exists>w w' tr ops A. server_start = Some w \<and> traced_run w [accept_pass, ping_pass] = Some (w', tr)
    \<and> received tr 1 = frame_of (request_payload [lit ''ping'']) \<and> sent tr 1 = reply (RStr (lit ''pong''))
    \<and> serial Map.empty ops A \<and> db_ok (srv w') A \<and> conversation tr ops 1 (conns w' 1)"
proof -
  obtain w w' tr where r: "server_start = Some w" "kernel_ok w 0 [accept_pass, ping_pass]"
      "traced_run w [accept_pass, ping_pass] = Some (w', tr)"
      "received tr 1 = frame_of (request_payload [lit ''ping''])" "sent tr 1 = reply (RStr (lit ''pong''))"
    by (rule ping_run) blast
  from server_linearizable [OF r(1,2)] obtain ops A where
    "serial Map.empty ops A" "db_ok (srv w') A" "\<forall>a. conversation tr ops a (conns w' a)"
    unfolding r(3) option.case prod.case by blast
  with r show ?thesis by blast
qed

text \<open>
  C2. A user types lines at the prompt of the client while the server runs. If the server has
  received what the client sent and the client has read what the server sent, the requests of this
  connection in the order of the server are the words of the lines, and the client has printed exactly
  the answers that the abstract database gives to them in that order.
\<close>

theorem client_sees_order:
  assumes "server_start = Some w0" "kernel_ok w0 t0 ps" "traced_run w0 ps = Some (w, tr)"
    and "dialogue lines cmds rs"
    and "received tr a = concat (map (\<lambda>cmd. frame_of (request_payload cmd)) cmds)"
    and "sent tr a = concat (map reply rs)"
  shows "\<exists>ops A. serial Map.empty ops A \<and> db_ok (srv w) A \<and> map fst (exchanges a ops) = map request_payload cmds \<and>
    (\<exists>evs. repl lines = Some (map (\<lambda>cmd. frame_of (request_payload cmd)) cmds, evs) \<and>
      answers_in evs = concat (map (\<lambda>(p, r). events_of (fit r)) (exchanges a ops)) \<and>
      stdout_text evs = concat (map (\<lambda>(p, r). stdout_text (events_of (fit r))) (exchanges a ops)))"
proof -
  from run_from_start [OF assms(1,2)] assms(3) obtain ops A where
    s: "serial Map.empty ops A" "world_ok (last_time t0 ps) w A" "session w tr ops" by (auto simp: run_ok_def)
  from s(3) have "conversation tr ops a (conns w a)" by (simp add: session_def)
  from dialogue_answers [OF assms(4) this assms(5,6)] dialogue_repl [OF assms(4)] s(1,2) stdout_exchanges show ?thesis
    by (auto simp: world_ok_def intro!: exI [of _ ops] exI [of _ A])
qed

theorem client_sees_order_witness:
  "\<exists>w w' tr ops A lines evs. server_start = Some w \<and> traced_run w [accept_pass, ping_pass] = Some (w', tr)
    \<and> serial Map.empty ops A \<and> map fst (exchanges 1 ops) = [request_payload [lit ''ping'']]
    \<and> repl lines = Some ([frame_of (request_payload [lit ''ping''])], evs)
    \<and> answers_in evs = concat (map (\<lambda>(p, r). events_of (fit r)) (exchanges 1 ops))"
proof -
  obtain w w' tr where r: "server_start = Some w" "kernel_ok w 0 [accept_pass, ping_pass]"
      "traced_run w [accept_pass, ping_pass] = Some (w', tr)"
      "received tr 1 = frame_of (request_payload [lit ''ping''])" "sent tr 1 = reply (RStr (lit ''pong''))"
    by (rule ping_run) blast
  have "received tr 1 = concat (map (\<lambda>cmd. frame_of (request_payload cmd)) [[lit ''ping'']])"
    "sent tr 1 = concat (map reply [RStr (lit ''pong'')])" using r(4,5) by simp_all
  from client_sees_order [OF r(1-3) ping_dialogue this] obtain ops A evs where
    "serial Map.empty ops A" "map fst (exchanges 1 ops) = map request_payload [[lit ''ping'']]"
    "repl [(lit ''ping'', [16], map Read_data ([take 4 (reply (RStr (lit ''pong'')))] @ [drop 4 (reply (RStr (lit ''pong'')))]))]
      = Some (map (\<lambda>cmd. frame_of (request_payload cmd)) [[lit ''ping'']], evs)"
    "answers_in evs = concat (map (\<lambda>(p, r). events_of (fit r)) (exchanges 1 ops))" by blast
  with r(1,3) show ?thesis
    unfolding list.map
    by (intro exI [of _ w] exI [of _ w'] exI [of _ tr] exI [of _ ops] exI [of _ A] exI [of _ evs] exI conjI)
qed

section \<open>The server as a whole\<close>

text \<open>
  C3. One pass through the body of the event loop, for any outcome of \<open>poll\<close>,
  \<open>accept\<close>, \<open>read\<close> and \<open>write\<close> that those calls document and any clock that does not go back. The pass
  executes on the abstract database exactly the complete requests of the ready connections, in the
  order of the descriptors, and then the expiry; it keeps every invariant of the connections and of
  the database, and it fails only when one of these requests makes the abstract database abort. An
  interrupted \<open>poll\<close> changes nothing.
\<close>

theorem event_loop_simulates:
  assumes "world_ok t w A" "t \<le> now" "now \<le> T" "no_overflow T"
    and "\<And>args timeout. poll_allowed w now T (poll args timeout)"
  shows "\<exists>args timeout. poll_args w (fd2conn w) = Some args \<and> next_timer_ms w t = Some timeout \<and>
    (case poll args timeout of
       Poll_ready acc evs \<Rightarrow> \<exists>res. serves_events (conn_of w) (zip (map fst args) evs) A res \<and>
         rel_option (\<lambda>A' w'. world_ok T w' (expire T A')) res (event_loop w t poll now T)
     | _ \<Rightarrow> event_loop w t poll now T = Some w)"
  by (rule event_loop_ok [OF assms])

theorem event_loop_simulates_witness:
  "\<exists>w w'. server_start = Some w \<and> event_loop w 0 (\<lambda>_ _. Poll_ready (Some (Accepted 5 (2, 0, 0))) []) 10 20 = Some w'
    \<and> world_ok 20 w' (expire 20 Map.empty)"
proof -
  obtain w where s: "server_start = Some w" "net_inv w []" "\<And>t. seen w [] t" "db_ok (srv w) Map.empty"
      "fd2conn w = []"
    by (rule server_start_state) blast
  have w: "world_ok 0 w Map.empty" using s(2-4) by (auto simp: world_ok_def)
  let ?poll = "\<lambda>_ _. Poll_ready (Some (Accepted 5 (2, 0, 0))) []"
  have "poll_allowed w 10 20 (?poll args timeout)" for args :: "(nat \<times> bool \<times> bool) list" and timeout :: int
    using s(5) by (simp add: poll_allowed_def accept_ok_def fd_free_def)
  moreover have "no_overflow 20" by (simp add: no_overflow_def k_idle_timeout_ms_def)
  ultimately obtain res where
    "serves_events (conn_of w) [] Map.empty res"
    "rel_option (\<lambda>A' w'. world_ok 20 w' (expire 20 A')) res (event_loop w 0 ?poll 10 20)"
    using event_loop_simulates [OF w, of 10 20 ?poll] by auto
  moreover from this(1) have "res = Some Map.empty" by (cases rule: serves_events.cases)
  ultimately show ?thesis using s(1) by (auto simp: option_rel_Some1)
qed

text \<open>
  C4. \<open>run_request\<close> implements the abstract database: on every argument vector and
  every command, errors included, the pointer structures after the call represent the abstract
  database after the command, and the bytes appended to the output are the serialized answer. The
  call fails exactly when the specification does, on an insertion into a full map. The order of the
  keys listed by \<open>keys\<close> is left open.
\<close>

theorem run_request_refines:
  assumes "server_ok sv A" "\<forall>s \<in> set cmd. length s \<le> k_max_msg"
  shows "\<exists>ks. distinct ks \<and> set ks = dom A \<and>
    rel_option (\<lambda>(A', r) (sv', out'). server_ok sv' A' \<and> out' = out @ ser r)
      (run_spec now ks cmd A) (run_request sv now cmd out)"
  using run_request_implements [OF assms] by (simp only: implements_def)

theorem run_request_refines_witness:
  "\<exists>sv'. run_request server0 0 [lit ''set'', [107], [118]] [] = Some (sv', ser RNil)
    \<and> server_ok sv' [[107] \<mapsto> new_entry TYPE_INIT [118] []]"
proof -
  have "\<forall>s \<in> set [lit ''set'', [107], [118]]. length s \<le> k_max_msg" by (simp add: lit_def k_max_msg_def)
  from run_request_refines [OF server_ok_init this, where now = 0 and out = "[]"] show ?thesis
    by (auto simp: run_spec_def is_cmd_def lit_def spec_set_def full_def option_rel_Some1)
qed

text \<open>
  C5. Every state the server can reach from its start represents a database obtained
  from the empty one by requests and expiry, its descriptor table, connections and idle list agree,
  and no connection has been active after the current time.
\<close>

theorem reachable_state_ok:
  assumes "reachable t w"
  shows "\<exists>A xs. db_step\<^sup>*\<^sup>* Map.empty A \<and> db_ok (srv w) A \<and> net_inv w xs \<and> seen w xs t"
  using reachable_ok [OF assms] by (auto simp: world_ok_def)

theorem reachable_state_ok_witness:
  "\<exists>w w' A xs. server_start = Some w \<and> handle_accept w 7 (Accepted 4 (2, 0, 0)) = Some (w', 0)
    \<and> db_step\<^sup>*\<^sup>* Map.empty A \<and> db_ok (srv w') A \<and> net_inv w' xs \<and> seen w' xs 7"
proof -
  obtain w w' where w: "server_start = Some w" "handle_accept w 7 (Accepted 4 (2, 0, 0)) = Some (w', 0)" "step 0 w 7 w'"
    by (rule first_client) blast
  have "reachable 7 w'" by (rule reachable.more [OF reachable.start [OF w(1)] w(3)])
  from reachable_state_ok [OF this] w(1,2) show ?thesis by blast
qed

text \<open>
  C7. Serving one ready descriptor executes exactly the complete requests that have
  arrived on its connection, in order, keeps the invariants, and leaves every other connection
  untouched.
\<close>

theorem handle_event_isolated:
  assumes "db_ok (srv w) A" "net_inv w xs" "fd < length (fd2conn w)" "fd2conn w ! fd = Some a"
    "conns w a = Some c" "seen w xs (io_now ev)" "read_fits ev" "ready ev"
  shows "\<exists>res. serves (io_clock ev) (requests_of c ev) A res \<and>
    rel_option (\<lambda>(A', rs) w'. db_ok (srv w') A' \<and> (\<forall>b. b \<noteq> a \<longrightarrow> conns w' b = conns w b)
        \<and> (\<exists>xs'. net_inv w' xs' \<and> set xs' \<subseteq> set xs))
      res (handle_event w fd ev)"
proof -
  from handle_event_ok [OF assms] obtain res where
    s: "serves (io_clock ev) (requests_of c ev) A res" and
    r: "rel_option (\<lambda>(A', rs) w'. db_ok (srv w') A' \<and> others_same w w' a fd \<and> conversed w w' a (touch c ev) ev rs
        \<and> (\<exists>xs'. net_inv w' xs' \<and> set xs' \<subseteq> set xs \<and> seen w' xs' (io_now ev))) res (handle_event w fd ev)"
    by blast
  show ?thesis
    by (intro exI [of _ res] conjI s, rule rel_weaken [OF r]) (auto simp: others_same_def)
qed

theorem handle_event_isolated_witness:
  "\<exists>w w' c ev res. server_start = Some w \<and> handle_accept w 7 (Accepted 4 (2, 0, 0)) = Some (w', 0)
    \<and> conns w' 1 = Some c \<and> io_read ev = Read_eof \<and> pollin ev
    \<and> serves (io_clock ev) (requests_of c ev) Map.empty res"
proof -
  obtain w w' where w: "server_start = Some w" "handle_accept w 7 (Accepted 4 (2, 0, 0)) = Some (w', 0)"
    "net_inv w' [1]" "db_ok (srv w') Map.empty" "conns w' = [1 \<mapsto> fresh_conn 4 7]" "seen w' [1] 7"
    "4 < length (fd2conn w')" "fd2conn w' ! 4 = Some 1"
    by (rule first_client) blast
  let ?c = "fresh_conn 4 7"
  let ?ev = "\<lparr>pollin = True, pollout = False, pollerr = False, pollother = False, io_now = 7,
    io_clock = (\<lambda>_. 7), io_read = Read_eof, io_write1 = Write_again, io_write2 = Write_again\<rparr>"
  have c: "conns w' 1 = Some ?c" using w(5) by simp
  from handle_event_isolated [OF w(4,3,7,8) c, of ?ev] w(6) obtain res where
    "serves (io_clock ?ev) (requests_of ?c ?ev) Map.empty res"
    by (auto simp: read_fits_def ready_def)
  with w(1,2) c show ?thesis
    by (intro exI [of _ w] exI [of _ w'] exI [of _ ?c] exI [of _ ?ev] exI [of _ res]) simp
qed

section \<open>Connections\<close>

text \<open>
  C6. When a connection becomes readable, every complete request in its buffer is
  executed in order and answered by one frame, in order, whatever the pieces in which the bytes
  arrive; what is left in the buffer is less than a frame, what the socket did not take is kept, and
  the connection is to be closed exactly when the next frame announces too many bytes or the write
  fails. The loop over the requests always ends.
\<close>

theorem handle_read_answers:
  assumes "db_ok sv A" "conn_ok c" "want_read c" "\<not> want_close c" "length buf \<le> 65536"
    and "split_frames (incoming c @ buf) = (ps, rest, bad)"
  shows "\<exists>res. serves clock ps A res \<and>
    rel_option (\<lambda>(A', rs) (sv', c'). db_ok sv' A' \<and> length rs = length ps \<and> conn_ok c'
        \<and> incoming c' = rest \<and> outgoing c' = unsent w (concat (map reply rs))
        \<and> want_close c' = (bad \<or> rs \<noteq> [] \<and> w = Write_error))
      res (handle_read sv clock (Read_data buf) w c)"
proof -
  from handle_read_ok [OF assms, of clock w] obtain res where
    s: "serves clock ps A res" and
    r: "rel_option (\<lambda>(A', rs) (sv', c'). db_ok sv' A' \<and> length rs = length ps \<and> conn_ok c'
        \<and> incoming c' = rest \<and> socket_fd c' = socket_fd c \<and> last_activity_ms c' = last_activity_ms c
        \<and> outgoing c' = unsent w (concat (map reply rs)) \<and> want_close c' = (bad \<or> rs \<noteq> [] \<and> w = Write_error)
        \<and> sent_by_read sv clock (Read_data buf) w c = Netio.taken w (concat (map reply rs)))
      res (handle_read sv clock (Read_data buf) w c)"
    by (elim exE conjE) (rule that)
  show ?thesis by (intro exI [of _ res] conjI s, rule rel_weaken [OF r]) auto
qed

theorem handle_read_answers_witness:
  "\<exists>sv' c'. handle_read server0 (\<lambda>_. 0) (Read_data (frame_of [0, 0, 0, 0])) (Wrote 3) (fresh_conn 4 0) = Some (sv', c')
    \<and> outgoing c' = drop 3 (reply (RErr ERR_UNKNOWN (lit ''unknown command''))) \<and> incoming c' = []"
proof -
  let ?p = "[0, 0, 0, 0] :: bytes" and ?c = "fresh_conn 4 0"
  have sp: "split_frames (incoming ?c @ frame_of ?p) = ([?p], [], False)"
    using split_frames_frame [of ?p "[]" "[]" "[]" False] by (simp add: fresh_conn_def k_max_msg_def split_frames.simps)
  have c: "conn_ok ?c" "want_read ?c" "\<not> want_close ?c" "length (frame_of ?p) \<le> 65536"
    by (simp_all add: fresh_conn_def conn_ok_def flags_ok_def frame_of_def)
  have one: "serve_one 0 ks ?p Map.empty = Some (Map.empty, RErr ERR_UNKNOWN (lit ''unknown command''))" for ks
    by (simp add: serve_one_def protocol_defs k_max_args_def u32_of_bytes_def run_spec_def is_cmd_def)
  from handle_read_answers [OF db_ok_init c sp, of "\<lambda>_. 0" "Wrote 3"] obtain res where
    s: "serves (\<lambda>_. 0) [?p] Map.empty res" and
    r: "rel_option (\<lambda>(A', rs) (sv', c'). db_ok sv' A' \<and> length rs = length [?p] \<and> conn_ok c'
        \<and> incoming c' = [] \<and> outgoing c' = unsent (Wrote 3) (concat (map reply rs))
        \<and> want_close c' = (False \<or> rs \<noteq> [] \<and> Wrote 3 = Write_error))
      res (handle_read server0 (\<lambda>_. 0) (Read_data (frame_of ?p)) (Wrote 3) ?c)"
    by blast
  have "res = Some (Map.empty, [RErr ERR_UNKNOWN (lit ''unknown command'')])"
    using s by (elim serves_ConsE serves_NilE) (simp_all add: one)
  with r show ?thesis by (auto simp: unsent_def option_rel_Some1)
qed

text \<open>
  C10. Handling the requests of a buffer and later those that the following bytes
  complete is the same as handling all of them at once: the answers do not depend on where the stream
  is cut.
\<close>

theorem stream_cut_anywhere:
  assumes "handle_requests sv clock c = Some (sv1, c1)" "\<not> want_close c1"
  shows "\<exists>n. \<forall>b. handle_requests sv clock (c\<lparr>incoming := incoming c @ b\<rparr>)
    = handle_requests sv1 (\<lambda>i. clock (n + i)) (c1\<lparr>incoming := incoming c1 @ b\<rparr>)"
  using assms by (rule handle_requests_cut)

theorem stream_cut_anywhere_witness:
  "\<exists>n sv1 c1. incoming c1 = [1] \<and> outgoing c1 = reply malformed \<and>
     handle_requests server0 of_nat ((fresh_conn 4 0)\<lparr>incoming := frame_of [7] @ [1, 0, 0, 0, 9]\<rparr>)
     = handle_requests sv1 (\<lambda>i. of_nat (n + i)) (c1\<lparr>incoming := [1, 0, 0, 0, 9]\<rparr>)"
proof -
  let ?c = "(fresh_conn 4 0)\<lparr>incoming := frame_of [7] @ [1]\<rparr>"
  have sp: "split_frames (incoming ?c) = ([[7]], [1], False)"
    using split_frames_frame [of "[7]" "[1]" "[]" "[1]" False] by (simp add: k_max_msg_def split_frames.simps)
  have one: "serve_one t ks [7] Map.empty = Some (Map.empty, malformed)" for t ks
    by (simp add: serve_one_def protocol_defs)
  from handle_requests_ok [OF db_ok_init sp, of of_nat] obtain res where
    s: "serves of_nat [[7]] Map.empty res" and
    r: "rel_option (\<lambda>(A', rs) (sv', c'). db_ok sv' A' \<and> length rs = length [[7 :: u8]]
        \<and> c' = ?c\<lparr>outgoing := outgoing ?c @ concat (map reply rs), incoming := [1],
                   want_close := want_close ?c \<or> False\<rparr>) res (handle_requests server0 of_nat ?c)"
    by (auto simp: fresh_conn_def)
  have "res = Some (Map.empty, [malformed])" using s by (elim serves_ConsE serves_NilE) (simp_all add: one)
  with r obtain sv1 c1 where h: "handle_requests server0 of_nat ?c = Some (sv1, c1)"
    "incoming c1 = [1]" "outgoing c1 = reply malformed" "\<not> want_close c1"
    by (auto simp: fresh_conn_def option_rel_Some1)
  from stream_cut_anywhere [OF h(1,4)] obtain n where
    "\<forall>b. handle_requests server0 of_nat (?c\<lparr>incoming := incoming ?c @ b\<rparr>)
      = handle_requests sv1 (\<lambda>i. of_nat (n + i)) (c1\<lparr>incoming := incoming c1 @ b\<rparr>)" by blast
  from spec [OF this, of "[0, 0, 0, 9]"] h(2,3) show ?thesis
    by (intro exI [of _ n] exI [of _ sv1] exI [of _ c1]) simp
qed

text \<open>
  C32. Every answer the server appends is one frame within the message limit, behind
  whatever was still to be sent, and its header is the length of its payload.
\<close>

theorem response_limit:
  assumes "db_ok sv A" "incoming c = frame_of p @ rest" "length p \<le> k_max_msg" "length (outgoing c) < 2 ^ 62"
    and "handle_one_request sv now c = Some (sv', c', again)"
  shows "again \<and> incoming c' = rest \<and> want_close c' = want_close c \<and>
    (\<exists>q. outgoing c' = outgoing c @ frame_of q \<and> 0 < length q \<and> length q \<le> k_max_msg)"
proof -
  from handle_one_request_ok [OF assms(1-4), of now] assms(5) obtain r where
    "c' = c\<lparr>outgoing := outgoing c @ reply r, incoming := rest\<rparr>" "again"
    by (auto simp: option_rel_Some2)
  then show ?thesis using fit_size [of r] ser_nonempty [of "fit r"] by auto
qed

theorem response_limit_witness:
  "\<exists>sv' c' q. handle_one_request server0 0 ((fresh_conn 4 0)\<lparr>incoming := frame_of [7] @ [1]\<rparr>) = Some (sv', c', True)
    \<and> incoming c' = [1] \<and> outgoing c' = frame_of q \<and> length q \<le> k_max_msg"
proof -
  let ?c = "(fresh_conn 4 0)\<lparr>incoming := frame_of [7] @ [1]\<rparr>"
  have one: "serve_one 0 ks [7] Map.empty = Some (Map.empty, malformed)" for ks
    by (simp add: serve_one_def protocol_defs)
  have c: "incoming ?c = frame_of [7] @ [1]" "length [7 :: u8] \<le> k_max_msg" "length (outgoing ?c) < 2 ^ 62"
    by (simp_all add: fresh_conn_def k_max_msg_def)
  from handle_one_request_ok [OF db_ok_init c, of 0] obtain sv' c' where
    h: "handle_one_request server0 0 ?c = Some (sv', c', True)"
    by (auto simp: one option_rel_Some1)
  from response_limit [OF db_ok_init c h] h show ?thesis by (auto simp: fresh_conn_def)
qed

section \<open>Timers\<close>

text \<open>
  C8. \<open>process_timers\<close> returns, closes exactly the connections that have been idle for more
  than the time-out and removes exactly the keys whose deadline has passed; the others keep their
  state, and all structures stay consistent. The limit on the work of one call is never the reason
  to stop.
\<close>

theorem timers_exact:
  assumes "db_ok (srv w) A" "net_inv w xs" "seen w xs now" "no_overflow now"
  shows "\<exists>w'. process_timers w now = Some w' \<and> db_ok (srv w') (expire now A)
    \<and> net_inv w' (filter (\<lambda>a. now \<le> stamp w a + k_idle_timeout_ms) xs)"
  using process_timers_ok [OF assms] unfolding keep_alive_def by blast

theorem timers_exact_witness:
  "\<exists>w w' w''. server_start = Some w \<and> handle_accept w 7 (Accepted 4 (2, 0, 0)) = Some (w', 0) \<and> conns w' = [1 \<mapsto> fresh_conn 4 7]
    \<and> process_timers w' 20000 = Some w'' \<and> net_inv w'' []"
proof -
  obtain w w' where w: "server_start = Some w" "handle_accept w 7 (Accepted 4 (2, 0, 0)) = Some (w', 0)"
    "net_inv w' [1]" "db_ok (srv w') Map.empty" "conns w' = [1 \<mapsto> fresh_conn 4 7]" "seen w' [1] 7"
    by (rule first_client) blast
  have s: "seen w' [1] 20000" by (rule seen_mono [OF w(6)]) simp
  have o: "no_overflow 20000" by (simp add: no_overflow_def k_idle_timeout_ms_def)
  from timers_exact [OF w(4,3) s o] w(1,2,5) show ?thesis
    by (auto simp: stamp_def fresh_conn_def k_idle_timeout_ms_def)
qed

text \<open>
  C33. The time-out given to \<open>poll\<close> is the time to the earliest of all deadlines, of idle
  connections and of keys, \<open>-1\<close> when there is none and 0 when it has passed; the difference is
  converted to 32 bits.
\<close>

theorem poll_timeout:
  assumes "net_inv w xs" "heap_ok (ttls (srv w))" "seen w xs now" "no_overflow now"
  defines "ds \<equiv> map (\<lambda>a. stamp w a + k_idle_timeout_ms) xs @ map val (ttls (srv w))"
  shows "next_timer_ms w now = Some
    (if ds = [] \<or> Min (set ds) = -1 then -1
     else if Min (set ds) \<le> now then 0
     else int32_of (uint (Min (set ds) - now)))"
  using next_timer_ok [OF assms(1-4)] by (simp only: ds_def wait_for_def deadlines_def)

theorem poll_timeout_witness:
  "\<exists>w w'. server_start = Some w \<and> handle_accept w 7 (Accepted 4 (2, 0, 0)) = Some (w', 0) \<and> next_timer_ms w' 10 = Some 14997"
proof -
  obtain w w' where w: "server_start = Some w" "handle_accept w 7 (Accepted 4 (2, 0, 0)) = Some (w', 0)"
    "net_inv w' [1]" "conns w' = [1 \<mapsto> fresh_conn 4 7]" "seen w' [1] 7"
    by (rule first_client) blast
  have "ttls (srv w') = []" using w(1,2)
    by (auto simp: server_start_def handle_accept_def server0_def Let_def assertion_def split: bind_splits if_splits)
  moreover have "seen w' [1] 10" by (rule seen_mono [OF w(5)]) simp
  moreover have "no_overflow 10" by (simp add: no_overflow_def k_idle_timeout_ms_def)
  ultimately have "next_timer_ms w' 10 = Some 14997"
    using poll_timeout [OF w(3), of 10] w(4)
    by (simp add: heap_ok_def stamp_def fresh_conn_def k_idle_timeout_ms_def int32_of_def)
  with w(1,2) show ?thesis by blast
qed

text \<open>
  The conversion to 32 bits shows: with no connection open and the earliest key
  deadline exactly \<open>2 ^ 32\<close> milliseconds away, the time-out is 0 and the loop does not sleep.
\<close>

theorem poll_timeout_truncated:
  assumes "net_inv w []" "ttls (srv w) = [x]" "uint now < 2 ^ 63" "uint (val x) = uint now + 2 ^ 32"
  shows "next_timer_ms w now = Some 0"
proof -
  have "uint (val x - now) = 2 ^ 32" using assms(4) by (simp add: uint_sub_if')
  moreover have "now < val x" using assms(4) by (simp add: word_less_def)
  moreover have "val x \<noteq> -1"
    using assms(3,4) by (auto simp: unsigned_minus_1_eq_mask mask_eq_exp_minus_1)
  moreover have "heap_ok (ttls (srv w))" "seen w [] now" "no_overflow now"
    using assms(2,3) by (simp_all add: heap_ok_def seen_def no_overflow_def k_idle_timeout_ms_def)
  ultimately show ?thesis
    using next_timer_ok [OF assms(1)] assms(2) by (simp add: wait_for_def deadlines_def int32_of_def)
qed

theorem poll_timeout_truncated_witness:
  "\<exists>w. next_timer_ms (w\<lparr>srv := server0\<lparr>ttls := [\<lparr>val = 4294967306, ref = Some 0\<rparr>]\<rparr>\<rparr>) 10 = Some 0"
proof -
  obtain w where w: "net_inv w []" by (rule server_start_state) blast
  let ?x = "\<lparr>val = 4294967306, ref = Some 0\<rparr>"
  let ?w = "w\<lparr>srv := server0\<lparr>ttls := [?x]\<rparr>\<rparr>"
  show ?thesis using poll_timeout_truncated [of ?w ?x 10] w by (intro exI [of _ w]) simp
qed

text \<open>
  C34. The descriptors given to \<open>poll\<close> are those of the open connections, each once, and
  each for reading or for writing but not both.
\<close>

theorem poll_args_exact:
  assumes "net_inv w xs"
  shows "\<exists>args. poll_args w (fd2conn w) = Some args \<and> distinct (map fst args)
    \<and> (\<forall>fd r wr. (fd, r, wr) \<in> set args \<longleftrightarrow>
         (\<exists>a c. conns w a = Some c \<and> socket_fd c = fd \<and> want_read c = r \<and> want_write c = wr \<and> wr = (\<not> r)))"
proof -
  from poll_args_ok [OF assms] obtain args where
    "poll_args w (fd2conn w) = Some args" "distinct (map fst args)" and
    mem: "\<forall>fd r wr. (fd, r, wr) \<in> set args \<longleftrightarrow>
         (\<exists>a c. conns w a = Some c \<and> socket_fd c = fd \<and> want_read c = r \<and> want_write c = wr)" and
    flags: "\<forall>(fd, r, wr) \<in> set args. wr = (\<not> r)"
    by (elim exE conjE) (rule that)
  moreover have "wr = (\<not> r)" if "(fd, r, wr) \<in> set args" for fd r wr using that flags by auto
  ultimately show ?thesis using mem by (intro exI [of _ args] conjI allI) metis+
qed

theorem poll_args_exact_witness:
  "\<exists>w w' args. server_start = Some w \<and> handle_accept w 7 (Accepted 4 (2, 0, 0)) = Some (w', 0)
    \<and> poll_args w' (fd2conn w') = Some args \<and> (4, True, False) \<in> set args \<and> (4, False, True) \<notin> set args"
proof -
  obtain w w' where w: "server_start = Some w" "handle_accept w 7 (Accepted 4 (2, 0, 0)) = Some (w', 0)"
    "net_inv w' [1]" "conns w' = [1 \<mapsto> fresh_conn 4 7]"
    by (rule first_client) blast
  from poll_args_exact [OF w(3)] w show ?thesis by (auto simp: fresh_conn_def)
qed

section \<open>Limits\<close>

text \<open>
  C30. As long as the database holds fewer than 31 keys and every sorted set fewer than 31
  members, no request of any kind makes the server fail: it answers, and the state stays consistent.
\<close>

theorem safe_below_limit:
  assumes "server_ok sv A" "\<forall>s \<in> set cmd. length s \<le> k_max_msg"
    and "card (dom A) < 31" "\<forall>k e. A k = Some e \<longrightarrow> length (a_zs e) < 31"
  shows "\<exists>sv' r A'. run_request sv now cmd out = Some (sv', out @ ser r) \<and> server_ok sv' A'"
proof -
  from run_request_implements [OF assms(1,2)] obtain ks where
    im: "implements (run_request sv now cmd out) out (run_spec now ks cmd A)" by blast
  have "length (a_zs e) \<noteq> 31" if "A k = Some e" for k e using assms(4) that by fastforce
  then have "run_spec now ks cmd A \<noteq> None"
    using assms(3) by (auto simp: run_spec_def spec_set_def spec_zadd_def full_def split: option.splits if_splits)
  then obtain A' r where "run_spec now ks cmd A = Some (A', r)" by fastforce
  with im show ?thesis by (auto simp: implements_def option_rel_Some1 simp del: ser.simps)
qed

theorem safe_below_limit_witness:
  "\<exists>sv' r A'. run_request server0 5 [lit ''zadd'', [122], [49], [110]] [] = Some (sv', ser r) \<and> server_ok sv' A'"
  using safe_below_limit [OF server_ok_init, of "[lit ''zadd'', [122], [49], [110]]" 5 "[]"]
  by (auto simp: lit_def k_max_msg_def)

text \<open>
  C31. At 31 keys a \<open>set\<close> of a new key aborts the process, whatever the key: the table
  size that \<open>hm_trigger_rehash\<close> asks for is not a power of two.
\<close>

theorem thirty_second_key_aborts:
  assumes "server_ok sv A" "card (dom A) = 31" "A k = None" "length k \<le> k_max_msg" "length v \<le> k_max_msg"
  shows "run_request sv now [lit ''set'', k, v] out = None"
proof -
  have "\<forall>s \<in> set [lit ''set'', k, v]. length s \<le> k_max_msg" using assms(4,5) by (simp add: lit_def k_max_msg_def)
  from run_request_implements [OF assms(1) this] obtain ks where
    "implements (run_request sv now [lit ''set'', k, v] out) out (run_spec now ks [lit ''set'', k, v] A)" by blast
  moreover have "run_spec now ks [lit ''set'', k, v] A = None"
    using assms(2,3) by (simp add: run_spec_def is_cmd_def lit_def spec_set_def full_def)
  ultimately show ?thesis by (simp add: implements_def)
qed

theorem thirty_second_key_aborts_witness:
  "\<exists>sv A. server_ok sv A \<and> card (dom A) = 31 \<and> run_request sv 0 [lit ''set'', [31], []] [] = None"
proof -
  from server_fill [of 31, unfolded full_def] obtain sv A where
    sv: "server_ok sv A" "dom A = (\<lambda>i. [of_nat i :: u8]) ` {..<31}" by auto
  have c: "card (dom A) = 31" unfolding sv(2) using inj_small_keys [of 31] by (simp add: card_image)
  have "[31] \<notin> dom A" unfolding sv(2) using of_nat_word_inj [where 'a = 8, of 31] by auto
  then have "A [31] = None" by (simp add: domIff)
  from thirty_second_key_aborts [OF sv(1) c this, of "[]" 0 "[]"] sv(1) c show ?thesis by (auto simp: k_max_msg_def)
qed

section \<open>The worker pool\<close>

text \<open>
  C28. In every interleaving of the producer and the workers at most one thread is inside the
  critical sections, jobs are handed out in the order in which they were queued, and every job handed
  out is in the hands of exactly one worker or has been run once: none is lost and none runs twice.
\<close>

theorem pool_exclusive:
  assumes "thread_pool_init n mutex_rv cond_rv create_rv = Some s" "pool_step\<^sup>*\<^sup>* s s'"
  shows "submitted s' = taken s' @ queue s' \<and> mset (taken s') = in_hand s' + mset (finished s')
    \<and> (\<forall>i < threads s'. \<forall>j < threads s'. holds_mutex (wpc s' i) \<and> holds_mutex (wpc s' j) \<longrightarrow> i = j)
    \<and> (\<forall>i < threads s'. holds_mutex (wpc s' i) \<longrightarrow> ppc s' = Outside)"
  using pool.inv_steps [OF assms(2) pool_init_inv [OF assms(1)]] by (auto simp: pool_inv_def sync_inv_def)

theorem pool_exclusive_witness:
  "\<exists>s s' w. thread_pool_init 4 0 0 (\<lambda>_. 0) = Some s \<and> pool_step\<^sup>*\<^sup>* s s' \<and> submitted s' = [w]
    \<and> submitted s' = taken s' @ queue s'"
proof -
  obtain s where s: "thread_pool_init 4 0 0 (\<lambda>_. 0) = Some s" "ppc s = Outside" "mu s = None" "submitted s = []"
    by (auto simp: thread_pool_init_def list_all_iff)
  fix w
  let ?t = "s\<lparr>mu := Some Producer, ppc := Entered w\<rparr>"
  let ?u = "?t\<lparr>queue := queue ?t @ [w], ppc := Pushed, submitted := submitted ?t @ [w]\<rparr>"
  have "pool_step s ?t" using s(2,3) by (intro by_producer thread_pool_queue.enter)
  moreover have "pool_step ?t ?u" by (intro by_producer thread_pool_queue.push) simp
  ultimately have r: "pool_step\<^sup>*\<^sup>* s ?u" by (rule converse_rtranclp_into_rtranclp [OF _ r_into_rtranclp])
  from pool_exclusive [OF s(1) r] have "submitted ?u = taken ?u @ queue ?u" by (rule conjunct1)
  moreover have "submitted ?u = [w]" using s(4) by simp
  ultimately show ?thesis using s(1) r by blast
qed

text \<open>
  C29. No wake-up is lost and there is no deadlock: from every state that any interleaving reaches,
  every run that goes on without new submissions and without wake-ups nobody has asked for ends after
  at most \<open>work_left\<close> steps, and it can only end with every submitted job finished, the submission in
  progress included. A worker that sleeps goes on only when \<open>pthread_cond_signal\<close> wakes it.
\<close>

theorem pool_completes_all:
  assumes "thread_pool_init n mutex_rv cond_rv create_rv = Some s" "pool_step\<^sup>*\<^sup>* s s'"
  shows "(\<forall>k s''. (work_step ^^ k) s' s'' \<longrightarrow> k \<le> work_left s')
    \<and> (\<exists>s''. work_step\<^sup>*\<^sup>* s' s'' \<and> (\<nexists>t. work_step s'' t))
    \<and> (\<forall>s''. work_step\<^sup>*\<^sup>* s' s'' \<and> (\<nexists>t. work_step s'' t) \<longrightarrow>
        submitted s'' = all_submitted s' \<and> mset (finished s'') = mset (all_submitted s'))"
proof -
  have inv: "pool_inv s'" by (rule pool.inv_steps [OF assms(2) pool_init_inv [OF assms(1)]])
  have "k \<le> work_left s'" if "(work_step ^^ k) s' s''" for k s'' using work.bounded [OF that inv] by simp
  with work.completes [OF inv] work_done [OF inv] show ?thesis by blast
qed

theorem pool_completes_all_witness:
  "\<exists>s u s''. thread_pool_init 1 0 0 (\<lambda>_. 0) = Some s \<and> pool_step\<^sup>*\<^sup>* s u \<and> wpc u 0 = Asleep \<and> submitted u = [\<lparr>fn = 7, arg = None\<rparr>]
    \<and> work_step\<^sup>*\<^sup>* u s'' \<and> finished s'' = [\<lparr>fn = 7, arg = None\<rparr>]"
proof -
  obtain s where s: "thread_pool_init 1 0 0 (\<lambda>_. 0) = Some s" "threads s = 1" "wpc s 0 = At_lock" "mu s = None" "queue s = []"
      "ppc s = Outside" "submitted s = []"
    by (auto simp: thread_pool_init_def)
  let ?w = "\<lparr>fn = 7, arg = None\<rparr>"
  let ?a = "s\<lparr>mu := Some (Worker 0), wpc := (wpc s)(0 := At_check)\<rparr>"
  let ?b = "?a\<lparr>mu := None, wpc := (wpc ?a)(0 := Asleep)\<rparr>"
  let ?c = "?b\<lparr>mu := Some Producer, ppc := Entered ?w\<rparr>"
  let ?u = "?c\<lparr>queue := queue ?c @ [?w], ppc := Pushed, submitted := submitted ?c @ [?w]\<rparr>"
  have "pool_step s ?a" using s by (intro by_worker [of 0] worker.lock) simp_all
  moreover have "pool_step ?a ?b" using s by (intro by_worker [of 0] worker.wait) simp_all
  moreover have "pool_step ?b ?c" using s by (intro by_producer thread_pool_queue.enter) simp_all
  moreover have "pool_step ?c ?u" by (intro by_producer thread_pool_queue.push) simp
  ultimately have r: "pool_step\<^sup>*\<^sup>* s ?u" by (meson converse_rtranclp_into_rtranclp r_into_rtranclp)
  from pool_completes_all [OF s(1) r] obtain t where
    t: "work_step\<^sup>*\<^sup>* ?u t" "mset (finished t) = mset (all_submitted ?u)" by blast
  have "finished t = [?w]" using t(2) s(7) by (simp add: all_submitted_def)
  moreover have "wpc ?u 0 = Asleep" "submitted ?u = [?w]" using s(7) by simp_all
  ultimately show ?thesis using s(1) r t(1) by blast
qed

section \<open>Helpers\<close>

text \<open>
  C38. \<open>str2int\<close> accepts exactly the texts made of optional white space, an optional sign and at
  least one digit up to the end, with the value of the digits saturated to 64 bits, and in addition the
  empty text, as 0: a text with anything behind the digits is refused. The decimal text of
  an integer is read back. The empty text is a score as well: \<open>endp\<close> is at the end when nothing has been read.
\<close>

theorem str2int_exact:
  "(str2int s = Some v \<longleftrightarrow> s = [] \<and> v = 0 \<or>
      (\<exists>ws sg ds. s = ws @ sg @ ds \<and> list_all isspace ws \<and> (sg = [] \<or> sg = [43] \<or> sg = [45])
         \<and> ds \<noteq> [] \<and> list_all isdigit ds
         \<and> v = clamp64 (if sg = [45] then - int (digits_val ds) else int (digits_val ds))))
   \<and> str2int (dec_int u) = Some (clamp64 u) \<and> str2dbl [] = Some 0"
  using str2int_iff [of s v] str2int_dec [of u] str2_empty(2) unfolding int_text_def int_value_def by simp

text \<open>
  C40. The client trusts the length of a string or an error message in a response. For every
  length that the received bytes can hold it prints the text and returns the size, and a larger length
  is a bad response; but with one of the five (nine) largest 32-bit lengths the sum of the header and
  the length wraps around, the check passes, and the printer reads up to the next NUL byte: past the end of the
  received bytes, an invalid access, when there is none among them.
\<close>

theorem print_response_overrun:
  assumes "9 + length rest < 2 ^ 31"
  shows "print_response (TAG_STR # u32_bytes len @ rest) =
      (if unat len \<le> length rest then Some (int (5 + unat len), [Out_str (c_text (take (unat len) rest))])
       else if unat len < 2 ^ 32 - 5 then Some (-1, [bad_response])
       else if 0 \<in> set rest then Some (int (5 + unat len) - 2 ^ 32, [Out_str (c_text rest)])
       else None)
    \<and> print_response (TAG_ERR # u32_bytes code @ u32_bytes len @ rest) =
      (if unat len \<le> length rest then Some (int (9 + unat len), [Out_err (int32_of (uint code)) (c_text (take (unat len) rest))])
       else if unat len < 2 ^ 32 - 9 then Some (-1, [bad_response])
       else if 0 \<in> set rest then Some (int (9 + unat len) - 2 ^ 32, [Out_err (int32_of (uint code)) (c_text rest)])
       else None)"
  using print_response_counted [OF assms, unfolded counted_def] by (intro conjI)

theorem print_response_overrun_witness:
  "print_response (TAG_STR # u32_bytes 0xFFFFFFFB @ [65]) = None
   \<and> print_response (TAG_ERR # u32_bytes 1 @ u32_bytes 2 @ [65]) = Some (-1, [bad_response])"
  using print_response_overrun [of "[65]" "0xFFFFFFFB"] print_response_overrun [of "[65]" 2 1] by simp

section \<open>Sorted sets\<close>

text \<open>
  C14. Adding a member to a sorted set, through the hash map and the tree at once: below 31
  members the call returns, the sequence of (score, name) pairs changes as the abstract insertion says
  (a new member in its place, an old one moved to its new score), the result says whether the member
  is new, and no object outside the set changes.
\<close>

theorem zset_insert_correct:
  assumes "zset_ok m z t" "\<not> isnan sc" "zs_score nm (zlist m t) \<noteq> None \<or> size t < 31"
  shows "\<exists>m' z' t'. zset_insert m z nm sc = Some (m', z', zs_score nm (zlist m t) = None) \<and> zset_ok m' z' t'
    \<and> zlist m' t' = zs_add nm sc (zlist m t) \<and> zframe m m' (insert (brk m) (set_tree t))"
  using zset_insert_ok(2) [OF assms] by blast

theorem zset_insert_correct_witness:
  "\<exists>m' z' t'. zset_insert \<lparr>avl = Map.empty, hns = Map.empty, zns = Map.empty, brk = 0\<rparr> k_empty_zset [110] 0
      = Some (m', z', True) \<and> zset_ok m' z' t' \<and> zlist m' t' = [(0, [110])]"
proof -
  let ?m = "\<lparr>avl = Map.empty, hns = Map.empty, zns = Map.empty, brk = 0\<rparr> :: mem"
  have "\<not> isnan 0" by (simp add: eval_simps)
  moreover have "zlist ?m \<langle>\<rangle> = []" by (simp add: zv_list_def)
  ultimately show ?thesis
    using zset_insert_correct [OF zset_ok_empty [of ?m], of 0 "[110]"]
    by (auto simp: zs_score_def zs_add_empty)
qed

text \<open>
  C15. Removing a node of the set removes exactly its pair from the sequence and its node
  from both structures, and keeps the set well formed.
\<close>

theorem zset_delete_correct:
  assumes "zset_ok m z t" "a \<in> set_tree t"
  shows "\<exists>m' z' t'. zset_delete m z a = Some (m', z') \<and> zset_ok m' z' t'
    \<and> zlist m' t' = zs_rem (snd (zval m a)) (zlist m t) \<and> set_tree t' = set_tree t - {a}
    \<and> zframe m m' (set_tree t)"
  using zset_delete_ok [OF assms] by blast

theorem zset_delete_correct_witness:
  "\<exists>m z t a m' z'. zset_ok m z t \<and> zlist m t = [(0, [110])] \<and> zset_delete m z a = Some (m', z')
    \<and> zset_ok m' z' \<langle>\<rangle>"
proof -
  obtain m z t a where z: "zset_ok m z t" "zlist m t = [(0, [110])]" and st: "set_tree t = {a}"
    by (rule single_zset)
  from zset_delete_correct [OF z(1), of a] st obtain m' z' t' where
    d: "zset_delete m z a = Some (m', z')" "zset_ok m' z' t'" "set_tree t' = {}" by auto
  then have "t' = \<langle>\<rangle>" by simp
  with z d show ?thesis by blast
qed

text \<open>
  C16. Seeking finds the first member at or after (score, name) in the order by score and then
  by name, and moving by an offset from there gives the member that many places further, or none when
  that is outside the set.
\<close>

theorem zset_seek_correct:
  assumes "zset_ok m z t" "\<not> isnan sc" "- (2 ^ 31) \<le> off" "off < 2 ^ 31"
  shows "do { node \<leftarrow> zset_seek_greater_equal m z sc nm; znode_offset m node off }
    = Some (let i = zs_rank sc nm (zlist m t) in
            if i < size t then target (inorder t) (int i + off) else None)"
proof -
  let ?i = "zs_rank sc nm (zlist m t)"
  have "znode_offset m (target (inorder t) (int ?i)) off = Some (case target (inorder t) (int ?i) of
     None \<Rightarrow> None | Some _ \<Rightarrow> target (inorder t) (int ?i + off))"
    using znode_offset_ok [OF assms(1), of "int ?i" off] by (simp only: int32_of_id [OF assms(3,4)])
  then show ?thesis
    using zset_seek_ok [OF assms(1,2), of nm] target_in [of ?i "inorder t"] target_out [of "inorder t" ?i]
    by (simp add: Let_def)
qed

theorem zset_seek_correct_witness:
  "\<exists>m z t a. zset_ok m z t \<and> inorder t = [a] \<and> zlist m t = [(0, [110])]
    \<and> do { node \<leftarrow> zset_seek_greater_equal m z 0 []; znode_offset m node 0 } = Some (Some a)
    \<and> do { node \<leftarrow> zset_seek_greater_equal m z 0 []; znode_offset m node 1 } = Some None"
proof -
  obtain m z t a where z: "zset_ok m z t" "zlist m t = [(0, [110])]" and a: "inorder t = [a]" and sz: "size t = 1"
    by (rule single_zset)
  have n: "\<not> isnan 0" by (simp add: eval_simps)
  have r: "zs_rank 0 [] [(0, [110])] = 0" by (simp add: zs_rank_def zkey_def)
  from zset_seek_correct [OF z(1) n, of 0 "[]"] zset_seek_correct [OF z(1) n, of 1 "[]"] z a sz r show ?thesis
    by (intro exI [of _ m] exI [of _ z] exI [of _ t] exI [of _ a]) (simp add: target_def)
qed

text \<open>
  C17. Clearing a set returns, frees every node of the set exactly once, resets the set to the
  empty one and touches nothing else.
\<close>

theorem zset_clear_frees:
  assumes "zset_ok m z t"
  shows "\<exists>m'. zset_clear m z = Some (m', k_empty_zset) \<and> freed m' (set_tree t) \<and> zframe m m' (set_tree t)"
  using zset_clear_ok [OF assms] by blast

theorem zset_clear_frees_witness:
  "\<exists>m z t m'. zset_ok m z t \<and> zlist m t = [(0, [110])] \<and> zset_clear m z = Some (m', k_empty_zset)
    \<and> freed m' (set_tree t)"
proof -
  obtain m z t where z: "zset_ok m z t" "zlist m t = [(0, [110])]" by (rule single_zset)
  from zset_clear_frees [OF z(1)] z show ?thesis by blast
qed

section \<open>The balanced tree\<close>

text \<open>
  C18. Deleting a node from the tree, at the level of pointers: the call returns, the new
  root is the root of a tree that is linked consistently in both directions, balanced, with the heights
  and subtree sizes of its nodes up to date, whose sequence is the old one without the node; no other
  node changes.
\<close>

theorem avl_delete_correct:
  assumes "tree_at h None t" "fits t" "bal t" "a \<in> set_tree t"
  shows "\<exists>h' t'. avl_delete h a = Some (h', root_ptr t') \<and> tree_at h' None t' \<and> bal t'
    \<and> inorder t' = remove1 a (inorder t) \<and> (\<forall>x. x \<notin> set_tree t \<longrightarrow> h' x = h x)"
  using avl_delete_at [OF assms] by blast

theorem avl_delete_correct_witness:
  "\<exists>h'. avl_delete [5 \<mapsto> node_rec None \<langle>\<rangle> \<langle>\<rangle>] 5 = Some (h', None)"
proof -
  have "tree_at [5 \<mapsto> node_rec None \<langle>\<rangle> \<langle>\<rangle>] None \<langle>\<langle>\<rangle>, 5, \<langle>\<rangle>\<rangle>" "fits \<langle>\<langle>\<rangle>, 5, \<langle>\<rangle>\<rangle>" "bal \<langle>\<langle>\<rangle>, 5 :: addr, \<langle>\<rangle>\<rangle>"
    by (simp_all add: fits_def)
  from avl_delete_correct [OF this, of 5] obtain h' t' where
    "avl_delete [5 \<mapsto> node_rec None \<langle>\<rangle> \<langle>\<rangle>] 5 = Some (h', root_ptr t')" "inorder t' = []" by auto
  moreover from this(2) have "t' = \<langle>\<rangle>" by (cases t') auto
  ultimately show ?thesis by auto
qed

text \<open>
  C19. The insertion that the sorted set performs on the tree: descend to a free slot, link the
  node there, rebalance. The new node lands behind all nodes that are not after it, and the tree is
  balanced and consistently linked again.
\<close>

theorem avl_insert_correct:
  assumes "tree_at h None t" "fits t" "size t + 3 < 2 ^ 32" "bal t" "a \<notin> set_tree t"
    and "h a = Some n" "left_p n = None" "right_p n = None"
    and "sorted_wrt (\<lambda>x y. g x \<longrightarrow> g y) (inorder t)"
  shows "\<exists>h' t'. do {
      (parent, from) \<leftarrow> search_slot h g (root_ptr t) None Var;
      (h, root) \<leftarrow> put_slot h (root_ptr t) from (Some a);
      h \<leftarrow> wr h a (\<lambda>n. n\<lparr>parent_p := parent\<rparr>);
      avl_fix_tree h a
    } = Some (h', root_ptr t') \<and> tree_at h' None t' \<and> bal t'
    \<and> inorder t' = takeWhile (\<lambda>x. \<not> g x) (inorder t) @ a # dropWhile (\<lambda>x. \<not> g x) (inorder t)
    \<and> (\<forall>x. x \<noteq> a \<longrightarrow> x \<notin> set_tree t \<longrightarrow> h' x = h x)"
proof -
  from attach_at [OF assms(1-3,5-8) refl, of g] obtain h1 h2 h3 where
    "search_slot h g (root_ptr t) None Var = Some (ctx_par (descend g t []), slot_ctx (descend g t []))"
    "put_slot h (root_ptr t) (slot_ctx (descend g t [])) (Some a) = Some (h1, if t = \<langle>\<rangle> then Some a else root_ptr t)"
    "wr h1 a (\<lambda>n. n\<lparr>parent_p := ctx_par (descend g t [])\<rparr>) = Some h2"
    "avl_fix_tree h2 a = Some (h3, root_ptr (fix_up (descend g t []) \<langle>\<langle>\<rangle>, a, \<langle>\<rangle>\<rangle>))"
    "tree_at h3 None (fix_up (descend g t []) \<langle>\<langle>\<rangle>, a, \<langle>\<rangle>\<rangle>)"
    "\<forall>x. x \<noteq> a \<longrightarrow> x \<notin> set_tree t \<longrightarrow> h3 x = h x"
    by blast
  with attach_tree [OF assms(4,9), of a] show ?thesis
    by (intro exI [of _ h3] exI [of _ "fix_up (descend g t []) \<langle>\<langle>\<rangle>, a, \<langle>\<rangle>\<rangle>"]) simp
qed

theorem avl_insert_correct_witness:
  "\<exists>h' t'. do {
      (parent, from) \<leftarrow> search_slot [5 \<mapsto> node_rec None \<langle>\<rangle> \<langle>\<rangle>, 6 \<mapsto> node_rec None \<langle>\<rangle> \<langle>\<rangle>] (\<lambda>_. False) (Some 5) None Var;
      (h, root) \<leftarrow> put_slot [5 \<mapsto> node_rec None \<langle>\<rangle> \<langle>\<rangle>, 6 \<mapsto> node_rec None \<langle>\<rangle> \<langle>\<rangle>] (Some 5) from (Some 6);
      h \<leftarrow> wr h 6 (\<lambda>n. n\<lparr>parent_p := parent\<rparr>);
      avl_fix_tree h 6
    } = Some (h', root_ptr t') \<and> inorder t' = [5, 6]"
proof -
  let ?h = "[5 \<mapsto> node_rec None \<langle>\<rangle> \<langle>\<rangle>, 6 \<mapsto> node_rec None \<langle>\<rangle> \<langle>\<rangle>]" and ?t = "\<langle>\<langle>\<rangle>, 5 :: addr, \<langle>\<rangle>\<rangle>"
  have "tree_at ?h None ?t" "fits ?t" "bal ?t" by (simp_all add: fits_def)
  from avl_insert_correct [OF this(1,2) _ this(3), of 6 "node_rec None \<langle>\<rangle> \<langle>\<rangle>" "\<lambda>_. False"] show ?thesis
    by (auto simp: node_rec_def)
qed

text \<open>
  C20. Walking by an offset from the node at a position of the sequence reaches the node that
  many places away, and \<open>NULL\<close> when there is none, without visiting the nodes in between.
\<close>

theorem avl_offset_correct:
  assumes "tree_at h None t" "fits t" "i < size t"
  shows "avl_offset h (Some (inorder t ! i)) offset
    = Some (let j = int i + offset in if 0 \<le> j \<and> j < int (size t) then Some (inorder t ! nat j) else None)"
  using avl_offset_at [OF assms] by (simp add: target_def Let_def)

theorem avl_offset_correct_witness:
  "avl_offset [5 \<mapsto> node_rec None \<langle>\<rangle> \<langle>\<langle>\<rangle>, 6, \<langle>\<rangle>\<rangle>, 6 \<mapsto> node_rec (Some 5) \<langle>\<rangle> \<langle>\<rangle>] (Some 5) 1 = Some (Some 6)"
proof -
  let ?t = "\<langle>\<langle>\<rangle>, 5 :: addr, \<langle>\<langle>\<rangle>, 6, \<langle>\<rangle>\<rangle>\<rangle>"
  have "tree_at [5 \<mapsto> node_rec None \<langle>\<rangle> \<langle>\<langle>\<rangle>, 6, \<langle>\<rangle>\<rangle>, 6 \<mapsto> node_rec (Some 5) \<langle>\<rangle> \<langle>\<rangle>] None ?t" "fits ?t"
    by (simp_all add: fits_def)
  from avl_offset_correct [OF this, of 0 1] show ?thesis by simp
qed



section \<open>The hash map\<close>

text \<open>
  C22. A lookup in a map of any size, also in the middle of a migration between its two tables,
  returns, finds a node with the given hash code that the comparison accepts exactly when there is
  one, and keeps the set of nodes while it moves some of them to the new table.
\<close>

theorem hm_lookup_correct:
  assumes "hm_ok h m N" "\<forall>a \<in> N. eq a = Some (E a)"
  shows "\<exists>h' m' p. hm_lookup h m hc eq = Some (h', m', p) \<and> hm_ok h' m' N \<and> moved h h' N
    \<and> (case p of
         None \<Rightarrow> \<forall>a \<in> N. \<not> (hash_of h a = Some hc \<and> E a)
       | Some a \<Rightarrow> a \<in> N \<and> hash_of h a = Some hc \<and> E a)"
  using hm_lookup_ok [OF assms, of hc] unfolding found_def by blast

theorem hm_lookup_correct_witness:
  "\<exists>h m h' m'. hm_ok h m {5} \<and> hm_lookup h m 9 (\<lambda>a. Some True) = Some (h', m', Some 5)"
proof -
  obtain h m where m: "hm_ok h m {5}" "hash_of h 5 = Some 9" by (rule single_map)
  from hm_lookup_correct [OF m(1), of "\<lambda>a. Some True" "\<lambda>a. True" 9] m obtain h' m' p where
    "hm_lookup h m 9 (\<lambda>a. Some True) = Some (h', m', p)" "p = Some 5"
    by (auto split: option.splits)
  with m(1) show ?thesis by blast
qed

text \<open>
  C23. Inserting a node returns and adds exactly that node, and it aborts exactly when the load
  threshold is reached at a size for which the requested capacity is not a power of two.
\<close>

theorem hm_insert_correct:
  assumes "hm_ok h m N" "h a = Some n" "a \<notin> N" "card N + 1 < 2 ^ 59"
  shows "if over_threshold (hm_open m) (card N + 1) \<and> \<not> growable (card N + 1) then hm_insert h m a = None
    else \<exists>h' m'. hm_insert h m a = Some (h', m') \<and> hm_ok h' m' (insert a N) \<and> moved h h' (insert a N)"
  using hm_insert_ok [OF assms] by auto

theorem hm_insert_correct_witness:
  "\<exists>h' m'. hm_insert [5 \<mapsto> \<lparr>next_p = None, hash_code = 9\<rparr>] HMap0 5 = Some (h', m') \<and> hm_ok h' m' {5}"
  using hm_insert_correct [OF hm_ok_empty [of "[5 \<mapsto> \<lparr>next_p = None, hash_code = 9\<rparr>]"], of 5 "\<lparr>next_p = None, hash_code = 9\<rparr>"]
  by (auto simp: over_threshold_def hm_open_def HMap0_def HTable0_def split: if_splits)

text \<open>
  C24. Deleting detaches one matching node, in whichever of the two tables it is, and keeps all
  the others; without a match nothing is removed.
\<close>

theorem hm_delete_correct:
  assumes "hm_ok h m N" "\<forall>a \<in> N. eq a = Some (E a)"
  shows "\<exists>h' m' p. hm_delete h m hc eq = Some (h', m', p) \<and> hm_ok h' m' (N - set_option p) \<and> moved h h' N
    \<and> (case p of
         None \<Rightarrow> \<forall>a \<in> N. \<not> (hash_of h a = Some hc \<and> E a)
       | Some a \<Rightarrow> a \<in> N \<and> hash_of h a = Some hc \<and> E a)"
  using hm_delete_ok [OF assms, of hc] unfolding found_def by blast

theorem hm_delete_correct_witness:
  "\<exists>h m h' m'. hm_ok h m {5} \<and> hm_delete h m 9 (\<lambda>a. Some True) = Some (h', m', Some 5) \<and> hm_ok h' m' {}"
proof -
  obtain h m where m: "hm_ok h m {5}" "hash_of h 5 = Some 9" by (rule single_map)
  from hm_delete_correct [OF m(1), of "\<lambda>a. Some True" "\<lambda>a. True" 9] m obtain h' m' p where
    "hm_delete h m 9 (\<lambda>a. Some True) = Some (h', m', p)" "p = Some 5" "hm_ok h' m' ({5} - set_option p)"
    by (auto split: option.splits)
  with m(1) show ?thesis by (intro exI [of _ h] exI [of _ m] exI [of _ h'] exI [of _ m']) simp
qed

text \<open>
  C25. A traversal calls the callback on every node of the map exactly once, over both tables,
  in one fixed order, and stops when the callback says so.
\<close>

theorem hm_foreach_visits:
  assumes "hm_ok h m N"
  shows "\<exists>xs. distinct xs \<and> set xs = N \<and> length xs = hm_size m
    \<and> (\<forall>f s. hm_foreach h m f s = map_option snd (visit f xs s))"
  by (rule hm_foreach_ok [OF assms])

theorem hm_foreach_visits_witness:
  "\<exists>h m. hm_ok h m {5} \<and> hm_foreach h m (\<lambda>a s. Some (True, a # s)) [] = Some [5]"
proof -
  obtain h m where m: "hm_ok h m {5}" by (rule single_map)
  from hm_foreach_visits [OF m] obtain xs where
    xs: "distinct xs" "set xs = {5}" "\<forall>f s. hm_foreach h m f s = map_option snd (visit f xs (s :: addr list))"
    by blast
  have "length xs = 1" using distinct_card [OF xs(1)] xs(2) by simp
  then obtain a where "xs = [a]" by (cases xs) simp_all
  with xs(2) have "xs = [5]" by simp
  with xs(3) m show ?thesis by (intro exI [of _ h] exI [of _ m]) simp
qed

section \<open>The deadline heap\<close>

text \<open>
  C26. Setting the deadline of an item, new or already in the heap: the heap order and the
  back references of all items hold afterwards, the items are the old ones with that one added or
  replaced, and no other back reference changes.
\<close>

theorem heap_upsert_correct:
  assumes "heap_ok h" "refs_ok h refs" "small_heap (h @ [item])" "ref item = Some a" "refs a = Some j"
    and "if pos < length h then ref (h ! pos) = Some a else a \<notin> cells h"
  defines "h0 \<equiv> if pos < length h then h[pos := item] else h @ [item]"
  shows "\<exists>h' refs'. heap_upsert h refs pos item = Some (h', refs') \<and> heap_ok h' \<and> refs_ok h' refs'
    \<and> mset h' = mset h0 \<and> (\<forall>b. b \<notin> cells h0 \<longrightarrow> refs' b = refs b)"
proof (cases "pos < length h")
  case True
  have "small_heap h" using assms(3) by (simp add: small_heap_def)
  with heap_upsert_update [OF assms(1,2) _ True _ assms(4)] assms(6) True show ?thesis
    by (simp add: repaired_def h0_def)
next
  case False
  with heap_upsert_insert [OF assms(1-3) _ assms(4,5)] assms(6) show ?thesis
    by (simp add: repaired_def h0_def)
qed

theorem heap_upsert_correct_witness:
  "\<exists>h' refs'. heap_upsert [\<lparr>val = 9, ref = Some 1\<rparr>] [1 \<mapsto> 0, 2 \<mapsto> npos] npos \<lparr>val = 4, ref = Some 2\<rparr> = Some (h', refs')
    \<and> heap_ok h' \<and> mset h' = {#\<lparr>val = 9, ref = Some 1\<rparr>, \<lparr>val = 4, ref = Some 2\<rparr>#}"
  using heap_upsert_correct [of "[\<lparr>val = 9, ref = Some 1\<rparr>]" "[1 \<mapsto> 0, 2 \<mapsto> npos]" "\<lparr>val = 4, ref = Some 2\<rparr>" 2 npos npos]
  by (auto simp: heap_ok_def refs_ok_def small_heap_def cells_def npos_def add_mset_commute)

text \<open>
  C27. Taking the head off again and again, as the expiry does, yields the items in the order
  of their deadlines, each exactly once, and leaves a consistent heap with only later deadlines.
\<close>

theorem heap_drain_sorted:
  assumes "heap_ok h" "refs_ok h refs" "small_heap h"
  shows "\<exists>xs h' refs'. drain fst (\<lambda>q pos. heap_delete (fst q) (snd q) pos) n (h, refs) = Some (xs, h', refs')
    \<and> heap_ok h' \<and> refs_ok h' refs' \<and> mset h = mset xs + mset h' \<and> length xs = min n (length h)
    \<and> sorted (map val xs) \<and> (\<forall>x \<in> set xs. \<forall>y \<in> set h'. val x \<le> val y)"
  using ttl.drain_sorted [of "(h, refs)" n] assms by auto

theorem heap_drain_sorted_witness:
  "\<exists>xs h' refs'. drain fst (\<lambda>q pos. heap_delete (fst q) (snd q) pos) 2
      ([\<lparr>val = 3, ref = Some 1\<rparr>, \<lparr>val = 9, ref = Some 2\<rparr>], [1 \<mapsto> 0, 2 \<mapsto> 1]) = Some (xs, h', refs')
    \<and> sorted (map val xs) \<and> length xs = 2"
proof -
  let ?h = "[\<lparr>val = 3, ref = Some 1\<rparr>, \<lparr>val = 9, ref = Some 2\<rparr>]" and ?r = "[1 \<mapsto> 0, 2 \<mapsto> Suc 0]"
  have "heap_ok ?h" "refs_ok ?h ?r" "small_heap ?h"
    by (auto simp: heap_ok_def refs_ok_def small_heap_def par_def less_Suc_eq)
  from heap_drain_sorted [OF this, of 2] show ?thesis by auto
qed

section \<open>The request protocol\<close>

text \<open>
  C9. The server accepts a payload exactly when it is the client's encoding of an argument
  vector within the limits, and then returns that vector: no argument vector is lost, none is
  accepted in a second encoding, and two different vectors never share an encoding.
\<close>

theorem parse_request_iff:
  "parse_request payload = (0, cmd) \<longleftrightarrow> argv_ok cmd \<and> payload = request_payload cmd"
  by (rule argv.accepts_iff)

text \<open>
  C36. A blocking transfer that reports success has handed the kernel exactly the client's frame
  for the command, whatever sizes the individual writes had; a failed one has sent a prefix of it.
\<close>

theorem write_all_exact:
  assumes "request_frame cmd = Some frame" "send_request rvs cmd = Some (st, out)"
  shows "(st = 0 \<longrightarrow> out = frame) \<and> (st = 0 \<or> st = -1) \<and> (\<exists>k. out = take k frame)"
  using assms write_all_ok [of rvs frame "[]" out] write_all_prefix [of rvs frame "[]" st out]
  by (auto simp: send_request_def)

theorem write_all_exact_witness:
  "\<exists>out. send_request [5, 8] [[103]] = Some (0, out) \<and> request_frame [[103]] = Some out"
proof -
  have "request_frame [[103]] = Some [9, 0, 0, 0, 1, 0, 0, 0, 1, 0, 0, 0, 103]"
    by (simp add: eval_simps u32_bytes_def)
  moreover have "send_request [5, 8] [[103]] = Some (0, [9, 0, 0, 0, 1, 0, 0, 0, 1, 0, 0, 0, 103])"
    by (simp add: eval_simps u32_bytes_def)
  ultimately show ?thesis using write_all_exact [of "[[103]]"] by blast
qed

text \<open>
  C35. The client's printer understands every serialized value: it reads exactly the bytes
  the server wrote for the value, reports their number, and prints the value's lines.
\<close>

theorem print_response_roundtrip:
  assumes "length (ser v) < 2 ^ 31"
  shows "print_response (ser v @ rest) = Some (int (length (ser v)), events_of v)"
  using assms by (rule print_response_ser)

theorem print_response_roundtrip_witness:
  "print_response (ser (RArr [RStr [107], RInt (-2), RNil])) = 
     Some (int (length (ser (RArr [RStr [107], RInt (-2), RNil]))), events_of (RArr [RStr [107], RInt (-2), RNil]))"
  using print_response_roundtrip [of "RArr [RStr [107], RInt (-2), RNil]" "[]"]
  by (simp add: u32_bytes_def u64_bytes_def)

section \<open>The two programs\<close>

text \<open>
  C37. The server's \<open>main\<close> reaches its loop exactly when every call of the set-up succeeds, and
  then its descriptor is bound to port 8080 of any address, listens and does not block; after that it
  does what its loop does. When a call fails, the last thing the process does is to print \<open>errno\<close> with
  the name of that call, and to abort.
\<close>

theorem server_main_runs:
  fixes k :: answers
  assumes "thread_pool_init 4 mutex_rv cond_rv create_rv = Some tp"
  defines "ok \<equiv> 0 \<le> ans_socket k \<and> ans_bind k = 0 \<and> snd (ans_fcntl k) = (0, 0) \<and> ans_listen k = 0"
  shows "\<exists>w0. server_start = Some w0 \<and>
    snd (server_main k mutex_rv cond_rv create_rv ps) = (if ok then map_option (\<lambda>w. (w, tp)) (run_loop w0 ps) else None) \<and>
    fst (server_main k mutex_rv cond_rv create_rv ps) = fst (server_setup k) \<and>
    (if ok
     then sock_after (fst (server_setup k)) (ans_socket k)
       = \<lparr>bound_to = Some \<lparr>sin_port = htons 8080, sin_addr = htonl 0\<rparr>, nonblocking = True, listening = True, peer = None\<rparr>
     else \<exists>cs e what. fst (server_setup k) = cs @ fst (die e what :: unit proc) \<and> Abort \<notin> set cs)"
  using server_main_ok [OF assms(1), of k ps] server_setup_sock [of k] server_setup_fails [of k]
  unfolding ok_def setup_ok_def server_addr_def by (cases ok) (auto simp: ok_def)

theorem server_main_runs_witness:
  "\<exists>w0 tp. server_start = Some w0 \<and>
    snd (server_main \<lparr>ans_socket = 3, ans_bind = 0, ans_fcntl = (2, 0, 0), ans_listen = 0, ans_getsockname = None,
      ans_ntop = None, ans_connect = 0, ans_errno = 0\<rparr> 0 0 (\<lambda>_. 0) []) = Some (w0, tp)"
proof -
  let ?k = "\<lparr>ans_socket = 3, ans_bind = 0, ans_fcntl = (2, 0, 0), ans_listen = 0, ans_getsockname = None,
      ans_ntop = None, ans_connect = 0, ans_errno = 0\<rparr>"
  have p: "thread_pool_init 4 0 0 (\<lambda>_. 0) = Some \<lparr>threads = 4, queue = [], mu = None, wpc = (\<lambda>_. At_lock),
      ppc = Outside, submitted = [], taken = [], finished = []\<rparr>"
    by (simp add: thread_pool_init_def list_all_iff)
  from server_main_runs [OF p, of ?k "[]"] show ?thesis by auto
qed

section \<open>Scripts\<close>

text \<open>
  C11. The regression scripts of the repository pass: with the lines of \<open>tests/test_cmds.py\<close>
  typed at its prompt the client prints, byte for byte, the output the script expects, and with those of
  \<open>tests/test_ttl_expiration.py\<close> the value of the key is gone exactly when the timers have run at or after
  its deadline. Each line goes through the tokenizer, the framing, the parser, the database, the
  serializer and the printing of the answer.
\<close>

theorem regression_scripts:
  "script_output (cmds_script now) = Some (as_lines cmds_expected)
   \<and> script_output (ttl_script t1 t2 t3) =
     Some (as_lines [''nil'', ''1'', if t1 + 10 \<le> t2 then ''nil'' else ''test_value'', ''pong''])"
  using test_cmds_runs ttl_runs by (rule conjI)

text \<open>
  C12. What \<open>zscore\<close> prints for a score is stable: whatever finite number the text typed for \<open>zadd\<close>
  denotes, with a decimal exponent between -300 and 300, the answer is its \<open>%g\<close> form of at most six
  significant digits, and that form typed for the same member again is answered as an update and printed
  unchanged. In particular a score typed in the \<open>%g\<close> form itself, in fixed or scientific notation as the exponent
  demands and without trailing zeros, is printed as it was typed: \<open>D\<close> are the six
  digits, \<open>X\<close> is the exponent of the first.
\<close>

theorem score_roundtrip:
  assumes "str2dbl s = Some d" "dbl_mag d \<noteq> 0x7FF0000000000000" "\<bar>g_exp d\<bar> \<le> 300"
    and "is_token k" "is_token n" "is_token s" "length k \<le> 100" "length n \<le> 100" "length s \<le> 100"
  shows "script_output [Type t1 (join [lit ''zadd'', k, s, n]), Type t2 (join [lit ''zscore'', k, n]),
       Type t3 (join [lit ''zadd'', k, fmt_g d, n]), Type t4 (join [lit ''zscore'', k, n])]
     = Some (lit ''1'' @ [10] @ fmt_g d @ [10] @ lit ''0'' @ [10] @ fmt_g d @ [10])
   \<and> (\<forall>D X neg. 10 ^ 5 \<le> D \<and> D < 10 ^ 6 \<and> - 300 \<le> X \<and> X \<le> 300 \<longrightarrow>
       (let g = (if neg then [45] else []) @ g_text D X in
        script_output [Type t1 (join [lit ''zadd'', k, g, n]), Type t2 (join [lit ''zscore'', k, n])]
          = Some (lit ''1'' @ [10] @ g @ [10])))"
  using score_twice [OF assms] score_echo [OF _ _ _ _ assms(4,5,7,8)] by (simp add: Let_def)

theorem score_roundtrip_witness:
  "script_output [Type 5 (join [lit ''zadd'', lit ''z'', lit ''1.10'', lit ''m'']), Type 6 (join [lit ''zscore'', lit ''z'', lit ''m'']),
     Type 7 (join [lit ''zadd'', lit ''z'', lit ''1.1'', lit ''m'']), Type 8 (join [lit ''zscore'', lit ''z'', lit ''m''])]
   = Some (as_lines [''1'', ''1.1'', ''0'', ''1.1''])"
proof -
  have "round_dbl 110 100 = nat (0 + 1022) * 2 ^ 52 + 0x1199999999999A"
    by (rule round_dbl_eval) (simp_all add: bin_exp_def nbits_eval round_half_even_def)
  then have "scale_dbl 110 10 (- 2) = 0x3FF199999999999A" by (simp add: scale_dbl_def)
  then have d: "str2dbl (lit ''1.10'') = Some 0x3FF199999999999A"
    using str2dbl_fixed [of "lit ''1.10''" 49 "[46, 49, 48]" "[49]" "[49, 48]" "0x3FF199999999999A"]
    by (simp add: lit_def isdigit_def lower_def mantissa_def let_list digits_val_def)
  have f: "dbl_mag 0x3FF199999999999A \<noteq> 0x7FF0000000000000" "\<bar>g_exp 0x3FF199999999999A\<bar> \<le> 300" by (simp_all add: eval_simps)
  have "is_token (lit ''z'')" "is_token (lit ''m'')" "is_token (lit ''1.10'')" by (simp_all add: is_token_def lit_def isspace_def)
  from score_roundtrip [OF d f this] show ?thesis by (simp add: doubles_text(2) as_lines_def)
qed

section \<open>Unit tests\<close>

text \<open>
  C21. The unit tests of the repository pass: the main functions of \<open>tests/test_heap.cpp\<close>,
  \<open>tests/test_avl.cpp\<close> and \<open>tests/test_offset.cpp\<close> run to their end with every assertion true and every
  access valid, the second for all numbers that \<open>rand\<close> may return, and each leaves an empty memory: every
  object of every container, those of the tests within a test included, has been freed once.
\<close>

theorem unit_tests_pass:
  "(\<exists>b. main_test_heap = Some (Map.empty, b))
   \<and> (\<exists>c. main_test_avl rand = Some c \<and> t_nodes c = Map.empty \<and> t_vals c = Map.empty)
   \<and> (\<exists>c. main_test_offset = Some c \<and> t_nodes c = Map.empty \<and> t_vals c = Map.empty)"
  using main_test_heap_passes main_test_avl_passes [of rand] main_test_offset_passes by (intro conjI)

section \<open>Messages of the server\<close>

text \<open>
  C13. What the server prints about its connections is true. The timers print one line for each
  connection they close, in the order of the idle list, and never one of the warnings about a heap that
  disagrees with the map; an event on a descriptor closes the connection exactly when a message has been
  printed about it or the kernel has reported an error. Apart from the messages, the
  functions with messages are those of the source.
\<close>

theorem log_truthful:
  assumes "db_ok (srv w) A" "net_inv w xs" "seen w xs now" "no_overflow now"
  shows "(\<exists>w'. process_timers w now = Some w' \<and> logged_timers w now =
       Some (w', map (\<lambda>a. Idle_closed (fd_of w a)) (filter (\<lambda>a. stamp w a + k_idle_timeout_ms < now) xs)))
    \<and> (\<forall>fd a ev. fd < length (fd2conn w) \<longrightarrow> fd2conn w ! fd = Some a \<longrightarrow>
        (case logged_event w fd ev of
           None \<Rightarrow> handle_event w fd ev = None
         | Some (w', ls) \<Rightarrow> handle_event w fd ev = Some w' \<and> (conns w' a = None \<longleftrightarrow> pollerr ev \<or> ls \<noteq> [])))"
proof (intro conjI allI impI)
  from timers_log [OF assms] logged_timers_erase [of w now]
  show "\<exists>w'. process_timers w now = Some w' \<and> logged_timers w now =
       Some (w', map (\<lambda>a. Idle_closed (fd_of w a)) (filter (\<lambda>a. stamp w a + k_idle_timeout_ms < now) xs))"
    by (auto simp: erases_def)
next
  fix fd a ev
  assume "fd < length (fd2conn w)" "fd2conn w ! fd = Some a"
  from event_close [OF assms(2) this] logged_event_erase [of w fd ev]
  show "case logged_event w fd ev of
           None \<Rightarrow> handle_event w fd ev = None
         | Some (w', ls) \<Rightarrow> handle_event w fd ev = Some w' \<and> (conns w' a = None \<longleftrightarrow> pollerr ev \<or> ls \<noteq> [])"
    by (auto simp: erases_def split: option.splits)
qed

theorem log_truthful_witness:
  "\<exists>w w' w''. server_start = Some w \<and> handle_accept w 7 (Accepted 4 (2, 0, 0)) = Some (w', 0)
    \<and> process_timers w' 20000 = Some w'' \<and> logged_timers w' 20000 = Some (w'', [Idle_closed 4])"
proof -
  obtain w w' where w: "server_start = Some w" "handle_accept w 7 (Accepted 4 (2, 0, 0)) = Some (w', 0)"
    "net_inv w' [1]" "db_ok (srv w') Map.empty" "conns w' = [1 \<mapsto> fresh_conn 4 7]" "seen w' [1] 7"
    by (rule first_client) blast
  have s: "seen w' [1] 20000" by (rule seen_mono [OF w(6)]) simp
  have o: "no_overflow 20000" by (simp add: no_overflow_def k_idle_timeout_ms_def)
  from log_truthful [OF w(4,3) s o] w(1,2,5) show ?thesis
    by (auto simp: stamp_def fd_of_def fresh_conn_def k_idle_timeout_ms_def)
qed

end
